(* ===== verification/Prelude.thy ===== *)
theory Prelude
  imports Main "HOL-Library.Word"
begin

text \<open>
  Shared vocabulary of the development: the C integer types as words, C characters and
  strings, the outcome of running C code, and the generic facts on bits and lists that the
  components share.

  Conventions.  A C string is the list of its bytes without the terminating NUL, so
  \<open>strlen s\<close> is \<open>length s\<close>.  Plain \<open>char\<close> is signed (the Apple ABIs
  the sources are built for): a \<open>char\<close> promoted to \<open>int\<close> is read with
  \<open>char_int\<close>.  \<open>size_t\<close> values that are lengths of objects in memory are
  \<open>nat\<close>; where the code itself checks for wrap-around they are \<open>64 word\<close>.
\<close>

unbundle bit_operations_syntax

section \<open>Machine types and outcomes\<close>

type_synonym u8 = "8 word"
type_synonym u5 = "8 word"
type_synonym u16 = "16 word"
type_synonym u32 = "32 word"
type_synonym u64 = "64 word"
type_synonym cstr = "8 word list"

text \<open>
  Running C code returns (\<open>Done\<close>), stops the process (\<open>Abort\<close>: a failed
  \<open>assert\<close> or a call of \<open>abort\<close>), or reaches undefined behaviour
  (\<open>Undefined\<close>: an access outside an object, a shift by the width of the type).
\<close>

datatype 'a outcome = Done 'a | Abort | Undefined

primrec bind_outcome :: "'a outcome \<Rightarrow> ('a \<Rightarrow> 'b outcome) \<Rightarrow> 'b outcome" where
  "bind_outcome (Done x) f = f x"
| "bind_outcome Abort f = Abort"
| "bind_outcome Undefined f = Undefined"

lemma bind_outcome_Done_iff:
  "bind_outcome m f = Done y \<longleftrightarrow> (\<exists>x. m = Done x \<and> f x = Done y)"
  by (cases m) auto

lemma bind_outcome_assoc:
  "bind_outcome (bind_outcome m f) g = bind_outcome m (\<lambda>x. bind_outcome (f x) g)"
  by (cases m) auto

lemma bind_outcome_cong [fundef_cong]:
  "m = m' \<Longrightarrow> (\<And>x. m' = Done x \<Longrightarrow> f x = g x) \<Longrightarrow> bind_outcome m f = bind_outcome m' g"
  by (cases m') auto

named_theorems word_facts \<open>decided facts about bytes\<close>

section \<open>C characters and strings\<close>

definition char_int :: "u8 \<Rightarrow> int" where
  "char_int c = sint c"

definition cs :: "string \<Rightarrow> cstr" where
  "cs s = map (\<lambda>c. word_of_nat (of_char c)) s"

definition is_upper_c :: "u8 \<Rightarrow> bool" where
  "is_upper_c c \<longleftrightarrow> 65 \<le> char_int c \<and> char_int c \<le> 90"

definition is_lower_c :: "u8 \<Rightarrow> bool" where
  "is_lower_c c \<longleftrightarrow> 97 \<le> char_int c \<and> char_int c \<le> 122"

definition is_digit_c :: "u8 \<Rightarrow> bool" where
  "is_digit_c c \<longleftrightarrow> 48 \<le> c \<and> c \<le> 57"

definition tolower_c :: "u8 \<Rightarrow> u8" where
  "tolower_c c = (if is_upper_c c then c + 32 else c)"

lemma cs_simps [simp]:
  "cs [] = []"
  "cs (c # s) = word_of_nat (of_char c) # cs s"
  by (simp_all add: cs_def)

lemma length_cs [simp]: "length (cs s) = length s"
  by (simp add: cs_def)

lemma sint_u8: "sint (c::u8) = (if c < 128 then uint c else uint c - 256)"
proof (cases "c < 128")
  case True
  then have "uint c < 128" by (simp add: word_less_def)
  then show ?thesis using True
    by (simp add: sint_uint signed_take_bit_int_eq_self_iff order_trans [of _ 0])
next
  case False
  then have 1: "128 \<le> uint c" by (simp add: word_less_def)
  have 2: "uint c < 256" using unsigned_less [of c, where 'a = int] by simp
  have "(u + 128) mod 256 = u - 128" if "128 \<le> u" "u < 256" for u :: int
    using mod_add_self2 [of "u - 128" 256] that by (simp add: add.commute)
  from this [OF 1 2] have "(uint c + 128) mod 256 = uint c - 128" .
  then show ?thesis using False 1 2
    by (simp add: sint_uint signed_take_bit_eq_take_bit_shift take_bit_eq_mod)
qed

lemma char_int_unat: "char_int c = (if unat c < 128 then int (unat c) else int (unat c) - 256)"
proof -
  have "uint c = int (unat c)" by simp
  then show ?thesis unfolding char_int_def sint_u8 word_less_nat_alt by auto
qed

lemma unat_u8: "k < 256 \<Longrightarrow> unat (word_of_nat k :: u8) = k"
  by (simp only: unat_of_nat) simp

lemma u8_cases: obtains n where "(c :: u8) = word_of_nat n" and "n < 256" and "unat c = n"
proof -
  obtain n where n: "c = word_of_nat n" "n < 2 ^ LENGTH(8)" by (rule word_nat_cases)
  then have "unat c = n" by (simp add: unat_of_nat)
  then show thesis using that n by simp
qed

lemma char_int_bounds: "char_int c < 128" "- 128 \<le> char_int c"
  using sint_lt [of c] sint_ge [of c] by (simp_all add: char_int_def)

lemma is_upper_c_iff: "is_upper_c c \<longleftrightarrow> 65 \<le> c \<and> c \<le> 90"
  using unsigned_less [of c, where 'a = int]
  unfolding is_upper_c_def char_int_def sint_u8 word_le_def word_less_def by auto

lemma is_lower_c_iff: "is_lower_c c \<longleftrightarrow> 97 \<le> c \<and> c \<le> 122"
  using unsigned_less [of c, where 'a = int]
  unfolding is_lower_c_def char_int_def sint_u8 word_le_def word_less_def by auto

lemma char_int_range_iff: "\<not> (char_int c < 33 \<or> char_int c > 126) \<longleftrightarrow> 33 \<le> c \<and> c \<le> 126"
  using unsigned_less [of c, where 'a = int]
  unfolding char_int_def sint_u8 word_le_def word_less_def by auto

lemmas ctype_iff = is_upper_c_iff is_lower_c_iff is_digit_c_def

lemma unat_tolower_c:
  "unat (tolower_c c) = (if 65 \<le> unat c \<and> unat c \<le> 90 then unat c + 32 else unat c)"
  unfolding tolower_c_def ctype_iff by (auto simp: word_le_nat_alt word_less_nat_alt unat_word_ariths)

lemma tolower_c_idem [simp]: "tolower_c (tolower_c c) = tolower_c c"
  unfolding tolower_c_def ctype_iff by (auto; unat_arith)

text \<open>A fact about every byte can be decided by looking at the 256 values.\<close>

lemma all_u8: "(\<forall>c::u8. P c) \<longleftrightarrow> (\<forall>n<256. P (word_of_nat n))"
proof
  assume *: "\<forall>n<256. P (word_of_nat n)"
  show "\<forall>c::u8. P c"
  proof
    fix c :: u8
    obtain n where "c = word_of_nat n" "n < 256" by (cases c rule: word_nat_cases) simp
    then show "P c" using * by simp
  qed
qed simp

text \<open>\<open>strncmp (str, prefix, strlen prefix) == 0\<close>: the macro \<open>strstarts\<close> of \<open>str.h\<close>.\<close>

definition strstarts :: "cstr \<Rightarrow> cstr \<Rightarrow> bool" where
  "strstarts str prefix \<longleftrightarrow> take (length prefix) str = prefix"

lemma strstarts_append [simp]: "strstarts (p @ s) p"
  by (simp add: strstarts_def)

lemma strstarts_iff: "strstarts s p \<longleftrightarrow> (\<exists>r. s = p @ r)"
proof
  assume "strstarts s p"
  then have "s = p @ drop (length p) s"
    by (metis append_take_drop_id strstarts_def)
  then show "\<exists>r. s = p @ r" by blast
next
  assume "\<exists>r. s = p @ r"
  then show "strstarts s p" by auto
qed

text \<open>A byte, bit by bit.\<close>

lemma u8_eq_iff:
  "x = y \<longleftrightarrow> (bit x 0 = bit y 0 \<and> bit x 1 = bit y 1 \<and> bit x 2 = bit y 2 \<and> bit x 3 = bit y 3 \<and>
     bit x 4 = bit y 4 \<and> bit x 5 = bit y 5 \<and> bit x 6 = bit y 6 \<and> bit x 7 = bit (y :: u8) 7)"
proof
  assume *: "bit x 0 = bit y 0 \<and> bit x 1 = bit y 1 \<and> bit x 2 = bit y 2 \<and> bit x 3 = bit y 3 \<and>
     bit x 4 = bit y 4 \<and> bit x 5 = bit y 5 \<and> bit x 6 = bit y 6 \<and> bit x 7 = bit y 7"
  show "x = y"
  proof (rule bit_word_eqI)
    fix n :: nat assume "n < LENGTH(8)"
    then have "n \<in> {0, 1, 2, 3, 4, 5, 6, 7}" by auto
    then show "bit x n = bit y n" using * by auto
  qed
qed simp

section \<open>Bit strings\<close>

text \<open>The low \<open>n\<close> bits of a word, the most significant first.\<close>

definition msb_bits :: "nat \<Rightarrow> 'a::len word \<Rightarrow> bool list" where
  "msb_bits n w = map (bit w) (rev [0..<n])"

lemma length_msb_bits [simp]: "length (msb_bits n w) = n"
  by (simp add: msb_bits_def)

lemma msb_bits_0 [simp]: "msb_bits 0 w = []"
  by (simp add: msb_bits_def)

lemma msb_bits_Suc: "msb_bits (Suc n) w = bit w n # msb_bits n w"
  by (simp add: msb_bits_def)

lemma nth_msb_bits: "i < n \<Longrightarrow> msb_bits n w ! i = bit w (n - 1 - i)"
  by (simp add: msb_bits_def rev_nth)

lemma msb_bits_cong:
  "(\<And>i. i < n \<Longrightarrow> bit v i = bit w i) \<Longrightarrow> msb_bits n v = msb_bits n w"
  by (simp add: msb_bits_def)

lemma msb_bits_eq_iff: "msb_bits n v = msb_bits n w \<longleftrightarrow> (\<forall>i<n. bit v i = bit w i)"
  by (auto simp add: msb_bits_def)

lemma msb_bits_inj:
  assumes "msb_bits n v = msb_bits n w" and "take_bit n v = v" and "take_bit n w = w"
  shows "v = w"
proof (rule bit_word_eqI)
  fix i
  show "bit v i = bit w i"
  proof (cases "i < n")
    case True
    then show ?thesis using assms(1) by (simp add: msb_bits_eq_iff)
  next
    case False
    then show ?thesis using assms(2,3) by (metis bit_take_bit_iff)
  qed
qed

lemma msb_bits_split: "m \<le> n \<Longrightarrow> msb_bits n w = msb_bits (n - m) (drop_bit m w) @ msb_bits m w"
  by (rule nth_equalityI)
     (auto simp: nth_append nth_msb_bits bit_drop_bit_eq algebra_simps intro!: arg_cong [where f = "bit w"])

lemma msb_bits_push_or:
  fixes v x :: "'a::len word"
  assumes "take_bit k x = x" and "k \<le> n" and "n \<le> LENGTH('a)"
  shows "msb_bits n (push_bit k v OR x) = msb_bits (n - k) v @ msb_bits k x"
proof -
  have high: "\<not> bit x i" if "k \<le> i" for i
    using assms(1) that by (metis bit_take_bit_iff leD)
  show ?thesis
    unfolding msb_bits_split [OF assms(2), of "push_bit k v OR x"]
    using assms(2,3) high
    by (auto simp: msb_bits_eq_iff bit_simps intro!: arg_cong2 [where f = append])
qed

lemma msb_bits_0_word: "msb_bits n (0::'a::len word) = replicate n False"
  by (rule nth_equalityI) (auto simp: nth_msb_bits)

lemma take_bit_mono_eq: "take_bit m w = w \<Longrightarrow> m \<le> n \<Longrightarrow> take_bit n w = (w :: 'a::len word)"
  by (metis min.absorb2 take_bit_take_bit)

lemma xor_word_0_iff: "a XOR b = 0 \<longleftrightarrow> a = (b :: 'a::len word)"
proof
  assume "a XOR b = 0"
  then have "\<not> bit (a XOR b) n" for n by simp
  then show "a = b" by (auto simp: bit_xor_iff intro: bit_word_eqI)
qed simp

lemma xor_word_cancel_right: "a XOR c = b XOR c \<longleftrightarrow> a = (b :: 'a::len word)"
proof
  assume "a XOR c = b XOR c"
  then have "(a XOR c) XOR (b XOR c) = 0" by simp
  then have "a XOR b = 0" by (simp add: ac_simps)
  then show "a = b" by (simp add: xor_word_0_iff)
qed simp

lemma xor_word_cancel_left: "c XOR a = c XOR b \<longleftrightarrow> a = (b :: 'a::len word)"
  by (simp only: xor.commute [of c] xor_word_cancel_right)

lemma xor_word_eq_iff: "a = b XOR c \<longleftrightarrow> a XOR b = (c :: 'a::len word)"
  by (auto simp: ac_simps)

section \<open>Lists\<close>

lemma length_concat_msb_bits [simp]: "length (concat (map (msb_bits n) ws)) = n * length ws"
  by (induction ws) auto

text \<open>Lists of words of \<open>n\<close> bits are determined by their concatenated bits.\<close>

lemma concat_msb_bits_inj:
  assumes "length vs = length ws"
    and "concat (map (msb_bits n) vs) = concat (map (msb_bits n) ws)"
    and "\<forall>v\<in>set vs. take_bit n v = v" and "\<forall>w\<in>set ws. take_bit n w = w"
  shows "vs = ws"
  using assms
proof (induction vs ws rule: list_induct2)
  case Nil
  then show ?case by simp
next
  case (Cons v vs w ws)
  then have "msb_bits n v = msb_bits n w" "concat (map (msb_bits n) vs) = concat (map (msb_bits n) ws)"
    by auto
  with Cons show ?case by (auto intro: msb_bits_inj)
qed

lemma takeWhile_rev_last:
  assumes "x \<notin> set ys"
  shows "takeWhile (\<lambda>y. y \<noteq> x) (rev (xs @ x # ys)) = rev ys"
proof -
  have "\<And>y. y \<in> set (rev ys) \<Longrightarrow> y \<noteq> x"
    using assms by auto
  then have "takeWhile (\<lambda>y. y \<noteq> x) (rev ys @ x # rev xs) = rev ys @ takeWhile (\<lambda>y. y \<noteq> x) (x # rev xs)"
    by (rule takeWhile_append2)
  then show ?thesis by simp
qed

end
