(* ===== verification/Polymod.thy ===== *)
theory Polymod
  imports Prelude
begin

text \<open>
  The checksum register of \<open>bech32.c\<close> (\<open>bech32_polymod_step\<close>,
  \<open>bech32_final_constant\<close>), and the algebra it relies on: the step is linear over XOR,
  keeps 30 bits and loses no information.  The locale \<open>linear_code\<close> states these laws
  for any step function and derives what an encoder and a decoder need from them: the six
  symbols appended by the encoder bring the register to the wanted constant, only these six
  do, and a change of one symbol changes the register, and never by the difference of the
  constants of the two encodings.
\<close>

section \<open>The step of the checksum register\<close>

definition bech32_polymod_step :: "u32 \<Rightarrow> u32" where
  "bech32_polymod_step pre =
     (let b = (ucast (drop_bit 25 pre) :: u8);
          sel = (\<lambda>i. - (ucast (drop_bit i b AND 1) :: u64))
      in ucast ((ucast (push_bit 5 (pre AND 0x1FFFFFF)) :: u64) XOR
          (sel 0 AND 0x3b6a57b2) XOR
          (sel 1 AND 0x26508e6d) XOR
          (sel 2 AND 0x1ea119fa) XOR
          (sel 3 AND 0x3d4233dd) XOR
          (sel 4 AND 0x2a1462b3)))"

datatype bech32_encoding =
    BECH32_ENCODING_NONE
  | BECH32_ENCODING_BECH32
  | BECH32_ENCODING_BECH32M

fun bech32_final_constant :: "bech32_encoding \<Rightarrow> u32 outcome" where
  "bech32_final_constant BECH32_ENCODING_BECH32 = Done 1"
| "bech32_final_constant BECH32_ENCODING_BECH32M = Done 0x2bc830a3"
| "bech32_final_constant BECH32_ENCODING_NONE = Abort"

definition gen_if :: "bool \<Rightarrow> u32 \<Rightarrow> u32" where
  "gen_if b g = (if b then g else 0)"

lemma gen_if_simps [simp]: "gen_if True g = g" "gen_if False g = 0"
  by (simp_all add: gen_if_def)

lemma gen_if_xor: "gen_if (a \<noteq> b) g = gen_if a g XOR gen_if b g"
  by (cases a; cases b) simp_all

lemma gen_if_xor': "gen_if (a = (\<not> b)) g = gen_if a g XOR gen_if b g"
  by (cases a; cases b) simp_all

lemma ucast_u64_u32 [simp]: "ucast (ucast x :: u64) = (x :: u32)"
  by (rule bit_word_eqI) (simp add: bit_simps)

lemma bit_gen_if: "bit (gen_if b g) i \<longleftrightarrow> b \<and> bit g i"
  by (simp add: gen_if_def)

lemma sel_and:
  fixes b :: u8 and g :: u64
  shows "- (ucast (drop_bit i b AND 1) :: u64) AND g = (if bit b i then g else 0)"
proof -
  have "drop_bit i b AND 1 = (if bit b i then 1 else 0)"
    by (simp add: bit_iff_odd_drop_bit and_one_eq mod_2_eq_odd)
  then show ?thesis by auto
qed

lemma polymod_step_gens:
  "bech32_polymod_step x = push_bit 5 (take_bit 25 x) XOR
     gen_if (bit x 25) 0x3b6a57b2 XOR gen_if (bit x 26) 0x26508e6d XOR
     gen_if (bit x 27) 0x1ea119fa XOR gen_if (bit x 28) 0x3d4233dd XOR
     gen_if (bit x 29) 0x2a1462b3"
proof -
  have b: "bit (ucast (drop_bit 25 x) :: u8) i \<longleftrightarrow> bit x (25 + i)" if "i < 5" for i
    using that by (auto simp: bit_simps)
  have m: "x AND 0x1FFFFFF = take_bit 25 x"
    by (simp add: take_bit_eq_mask mask_eq_exp_minus_1)
  show ?thesis
    unfolding bech32_polymod_step_def Let_def sel_and m
    by (simp only: b gen_if_def unsigned_xor_eq ucast_u64_u32) (simp add: gen_if_def)
qed

lemma polymod_step_xor:
  "bech32_polymod_step (x XOR y) = bech32_polymod_step x XOR bech32_polymod_step y"
  unfolding polymod_step_gens
  by (simp add: bit_xor_iff gen_if_xor gen_if_xor' take_bit_xor push_bit_xor xor.assoc xor.left_commute xor.commute)

lemma polymod_step_bound: "take_bit 30 (bech32_polymod_step x) = bech32_polymod_step x"
proof -
  have g: "take_bit 30 (gen_if b g) = gen_if b g" if "take_bit 30 g = g" for b g
    using that by (cases b) simp_all
  have p: "take_bit 30 (push_bit 5 (take_bit 25 x)) = push_bit 5 (take_bit 25 x)"
    by (simp add: take_bit_push_bit)
  show ?thesis
    unfolding polymod_step_gens by (simp add: take_bit_xor g p)
qed

lemma polymod_step_shift: "take_bit 25 x = x \<Longrightarrow> bech32_polymod_step x = push_bit 5 x"
proof -
  assume x: "take_bit 25 x = x"
  then have "\<not> bit x i" if "25 \<le> i" for i
    using that by (metis bit_take_bit_iff leD)
  with x show ?thesis unfolding polymod_step_gens by simp
qed

lemma polymod_step_zero:
  assumes z: "bech32_polymod_step x = 0" and x: "take_bit 30 x = x"
  shows "x = 0"
proof -
  have "\<not> bit (bech32_polymod_step x) i" for i
    using z by simp
  from this [of 0] this [of 1] this [of 2] this [of 3] this [of 4]
  have g: "\<not> bit x 25 \<and> \<not> bit x 26 \<and> \<not> bit x 27 \<and> \<not> bit x 28 \<and> \<not> bit x 29"
    unfolding polymod_step_gens by (simp add: bit_xor_iff bit_gen_if bit_push_bit_iff) blast
  then have "push_bit 5 (take_bit 25 x) = 0"
    using z unfolding polymod_step_gens by simp
  then have "\<not> bit (push_bit 5 (take_bit 25 x)) (i + 5)" for i
    by simp
  then have low: "\<not> bit x i" if "i < 25" for i
    using that by (auto simp: bit_simps)
  show ?thesis
  proof (rule bit_word_eqI)
    fix i :: nat assume "i < LENGTH(32)"
    have "\<not> bit x i" if "30 \<le> i"
      using x that by (metis bit_take_bit_iff leD)
    moreover have "i < 25 \<or> i = 25 \<or> i = 26 \<or> i = 27 \<or> i = 28 \<or> i = 29 \<or> 30 \<le> i" by linarith
    ultimately show "bit x i = bit 0 i" using g low by auto
  qed
qed

section \<open>Registers and symbols\<close>

text \<open>
  \<open>chk = bech32_polymod_step(chk) ^ v\<close> for each \<open>v\<close> in turn: the shape of
  every checksum loop of \<open>bech32_encode\<close> and \<open>bech32_decode\<close>.
\<close>

fun polymod_feed :: "(u32 \<Rightarrow> u32) \<Rightarrow> u32 \<Rightarrow> u32 list \<Rightarrow> u32" where
  "polymod_feed step chk [] = chk"
| "polymod_feed step chk (v # vs) = polymod_feed step (step chk XOR v) vs"

definition symbol5 :: "u32 \<Rightarrow> bool" where
  "symbol5 v \<longleftrightarrow> take_bit 5 v = v"

definition reg30 :: "u32 \<Rightarrow> bool" where
  "reg30 c \<longleftrightarrow> take_bit 30 c = c"

text \<open>The six symbols \<open>(chk >> ((5 - i) * 5)) & 0x1f\<close> of a register.\<close>

definition register_symbols :: "u32 \<Rightarrow> u32 list" where
  "register_symbols chk = map (\<lambda>i. drop_bit ((5 - i) * 5) chk AND 0x1f) [0..<6]"

text \<open>The register that holds six symbols.\<close>

definition symbols_register :: "u32 list \<Rightarrow> u32" where
  "symbols_register vs = foldl (\<lambda>c v. push_bit 5 c XOR v) 0 vs"

lemma symbol5_0 [simp]: "symbol5 0" and reg30_0 [simp]: "reg30 0"
  by (simp_all add: symbol5_def reg30_def)

lemma symbol5_and [simp]: "symbol5 (v AND 0x1f)"
proof -
  have "v AND 0x1f = take_bit 5 v"
    by (simp add: take_bit_eq_mask mask_eq_exp_minus_1)
  then show ?thesis by (simp add: symbol5_def)
qed

lemma symbol5_reg30: "symbol5 v \<Longrightarrow> reg30 v"
  unfolding symbol5_def reg30_def by (erule take_bit_mono_eq) simp

lemma reg30_xor [intro]: "reg30 a \<Longrightarrow> reg30 b \<Longrightarrow> reg30 (a XOR b)"
  by (simp add: reg30_def take_bit_xor)

lemma symbol5_xor [intro]: "symbol5 a \<Longrightarrow> symbol5 b \<Longrightarrow> symbol5 (a XOR b)"
  by (simp add: symbol5_def take_bit_xor)

lemma length_register_symbols [simp]: "length (register_symbols c) = 6"
  by (simp add: register_symbols_def)

lemma symbol5_register_symbols: "\<forall>v\<in>set (register_symbols c). symbol5 v"
  by (auto simp: register_symbols_def)

lemma xor_eq_or_disjoint:
  assumes "take_bit k x = x"
  shows "push_bit k c XOR x = push_bit k c OR (x :: u32)"
proof (rule bit_word_eqI)
  fix n assume "n < LENGTH(32)"
  have "\<not> bit x n" if "k \<le> n" using assms that by (metis bit_take_bit_iff leD)
  then show "bit (push_bit k c XOR x) n = bit (push_bit k c OR x) n"
    by (auto simp: bit_simps)
qed

lemma msb_bits_symbols_register:
  assumes "length vs \<le> 6" and "\<forall>v\<in>set vs. symbol5 v"
  shows "msb_bits (5 * length vs) (symbols_register vs) = concat (map (msb_bits 5) vs)"
  using assms
proof (induction vs rule: rev_induct)
  case Nil
  then show ?case by simp
next
  case (snoc v vs)
  then have v: "take_bit 5 v = v" by (simp add: symbol5_def)
  have "symbols_register (vs @ [v]) = push_bit 5 (symbols_register vs) OR v"
    using xor_eq_or_disjoint [OF v] by (simp add: symbols_register_def)
  moreover have "msb_bits (5 * length vs + 5) (push_bit 5 (symbols_register vs) OR v)
      = msb_bits (5 * length vs) (symbols_register vs) @ msb_bits 5 v"
    using msb_bits_push_or [OF v, of "5 * length vs + 5"] snoc.prems(1) by simp
  ultimately show ?case using snoc by (simp add: add.commute)
qed

lemma msb_bits_register_symbols: "concat (map (msb_bits 5) (register_symbols c)) = msb_bits 30 c"
proof -
  have m: "msb_bits 5 (x AND 0x1f) = msb_bits 5 x" for x :: u32
  proof -
    have "x AND 0x1f = take_bit 5 x" by (simp add: take_bit_eq_mask mask_eq_exp_minus_1)
    then show ?thesis by (auto simp: msb_bits_eq_iff bit_take_bit_iff)
  qed
  have "msb_bits 30 c = msb_bits 5 (drop_bit 25 c) @ msb_bits 5 (drop_bit 20 c) @ msb_bits 5 (drop_bit 15 c)
      @ msb_bits 5 (drop_bit 10 c) @ msb_bits 5 (drop_bit 5 c) @ msb_bits 5 c"
    using msb_bits_split [of 25 30 c] msb_bits_split [of 20 25 c] msb_bits_split [of 15 20 c]
      msb_bits_split [of 10 15 c] msb_bits_split [of 5 10 c] by simp
  then show ?thesis
    by (simp add: register_symbols_def m upt_rec)
qed

lemma register_symbols_inverse:
  assumes "length vs = 6" and "\<forall>v\<in>set vs. symbol5 v"
  shows "register_symbols (symbols_register vs) = vs"
proof (rule concat_msb_bits_inj [where n = 5])
  show "concat (map (msb_bits 5) (register_symbols (symbols_register vs))) = concat (map (msb_bits 5) vs)"
    using msb_bits_symbols_register [of vs] assms by (simp add: msb_bits_register_symbols)
qed (use assms symbol5_register_symbols in \<open>auto simp: symbol5_def\<close>)

lemma symbols_register_bound:
  "\<forall>v\<in>set vs. symbol5 v \<Longrightarrow> length vs \<le> 6 \<Longrightarrow> take_bit (5 * length vs) (symbols_register vs) = symbols_register vs"
proof (induction vs rule: rev_induct)
  case Nil
  then show ?case by (simp add: symbols_register_def)
next
  case (snoc v vs)
  then have 1: "take_bit (5 * length vs) (symbols_register vs) = symbols_register vs" by simp
  have 2: "symbol5 v" using snoc.prems by simp
  have "take_bit (5 + 5 * length vs) (push_bit 5 (symbols_register vs)) = push_bit 5 (symbols_register vs)"
    using 1 by (simp add: take_bit_push_bit)
  moreover have "take_bit (5 + 5 * length vs) v = v"
    using 2 unfolding symbol5_def by (metis le_add1 min.absorb2 take_bit_take_bit)
  ultimately show ?case by (simp add: symbols_register_def take_bit_xor)
qed

lemma symbols_register_inverse:
  assumes "reg30 c"
  shows "symbols_register (register_symbols c) = c"
proof (rule msb_bits_inj [where n = 30])
  show "msb_bits 30 (symbols_register (register_symbols c)) = msb_bits 30 c"
    using msb_bits_symbols_register [of "register_symbols c"] symbol5_register_symbols [of c]
    by (simp add: msb_bits_register_symbols)
  show "take_bit 30 (symbols_register (register_symbols c)) = symbols_register (register_symbols c)"
    using symbols_register_bound [OF symbol5_register_symbols [of c]] by simp
qed (use assms in \<open>simp add: reg30_def\<close>)

section \<open>Linear checksums\<close>

locale linear_code =
  fixes step :: "u32 \<Rightarrow> u32"
  assumes step_xor: "step (a XOR b) = step a XOR step b"
    and step_reg30: "reg30 (step a)"
    and step_shift: "take_bit 25 a = a \<Longrightarrow> step a = push_bit 5 a"
    and step_zero: "step a = 0 \<Longrightarrow> reg30 a \<Longrightarrow> a = 0"
begin

lemma feed_append [simp]:
  "polymod_feed step c (us @ vs) = polymod_feed step (polymod_feed step c us) vs"
  by (induction us arbitrary: c) simp_all

lemma feed_xor:
  "length us = length vs \<Longrightarrow>
    polymod_feed step (a XOR b) (map2 (XOR) us vs) = polymod_feed step a us XOR polymod_feed step b vs"
proof (induction us vs arbitrary: a b rule: list_induct2)
  case (Cons u us v vs)
  have "step (a XOR b) XOR (u XOR v) = (step a XOR u) XOR (step b XOR v)"
    by (simp add: step_xor xor.assoc xor.left_commute)
  then show ?case using Cons.IH by simp
qed simp

lemma feed_reg30:
  "reg30 c \<Longrightarrow> \<forall>v\<in>set vs. symbol5 v \<Longrightarrow> reg30 (polymod_feed step c vs)"
  by (induction vs arbitrary: c) (simp_all add: reg30_xor step_reg30 symbol5_reg30)

lemma step_inj: "step a = step b \<Longrightarrow> reg30 a \<Longrightarrow> reg30 b \<Longrightarrow> a = b"
  using step_zero [of "a XOR b"] by (simp add: step_xor reg30_xor xor_word_0_iff)

lemma feed_inj:
  assumes "polymod_feed step a vs = polymod_feed step b vs" and "reg30 a" and "reg30 b"
    and "\<forall>v\<in>set vs. symbol5 v"
  shows "a = b"
  using assms
proof (induction vs arbitrary: a b)
  case (Cons v vs)
  then have "step a XOR v = step b XOR v"
    by (simp add: reg30_xor step_reg30 symbol5_reg30)
  then have "step a = step b" by (simp add: xor_word_cancel_right)
  with Cons.prems show ?case by (auto intro: step_inj)
qed simp

text \<open>A change of exactly one symbol always changes the register.\<close>

lemma single_error:
  assumes "u \<noteq> v" and "symbol5 u" and "symbol5 v" and "\<forall>w\<in>set ys. symbol5 w"
  shows "polymod_feed step c (xs @ u # ys) \<noteq> polymod_feed step c (xs @ v # ys)"
proof
  assume "polymod_feed step c (xs @ u # ys) = polymod_feed step c (xs @ v # ys)"
  then have "polymod_feed step (step (polymod_feed step c xs) XOR u) ys
      = polymod_feed step (step (polymod_feed step c xs) XOR v) ys" by simp
  then have "step (polymod_feed step c xs) XOR u = step (polymod_feed step c xs) XOR v"
    by (rule feed_inj) (use assms in \<open>auto intro: step_reg30 symbol5_reg30\<close>)
  then show False using assms(1) by (simp add: xor_word_cancel_left)
qed

lemma feed_zero:
  "\<forall>v\<in>set vs. symbol5 v \<Longrightarrow> length vs \<le> 6 \<Longrightarrow> polymod_feed step 0 vs = symbols_register vs"
proof (induction vs rule: rev_induct)
  case Nil
  then show ?case by (simp add: symbols_register_def)
next
  case (snoc v vs)
  have "take_bit (5 * length vs) (symbols_register vs) = symbols_register vs"
    using snoc.prems by (intro symbols_register_bound) auto
  then have "take_bit 25 (symbols_register vs) = symbols_register vs"
    by (rule take_bit_mono_eq) (use snoc.prems(2) in simp)
  then show ?case using snoc by (simp add: step_shift symbols_register_def)
qed

text \<open>
  Feeding six symbols is feeding six zeros and adding the symbols' register; so exactly one
  choice of six symbols reaches a given register.
\<close>

lemma feed_six:
  assumes "\<forall>v\<in>set vs. symbol5 v" and "length vs = 6"
  shows "polymod_feed step c vs = polymod_feed step c (replicate 6 0) XOR symbols_register vs"
proof -
  have "map2 (XOR) (replicate 6 0) vs = vs"
    using assms(2) by (auto intro!: nth_equalityI)
  then have "polymod_feed step (c XOR 0) vs = polymod_feed step c (replicate 6 0) XOR polymod_feed step 0 vs"
    using feed_xor [of "replicate 6 0" vs c 0] assms(2) by simp
  then show ?thesis using feed_zero assms by simp
qed

lemma checksum_iff:
  assumes "\<forall>v\<in>set vs. symbol5 v" and "length vs = 6" and "reg30 k"
  shows "polymod_feed step c vs = k
    \<longleftrightarrow> vs = register_symbols (polymod_feed step c (replicate 6 0) XOR k)"
proof -
  let ?z = "polymod_feed step c (replicate 6 0)"
  have z: "reg30 ?z"
    by (simp add: numeral_eq_Suc reg30_xor step_reg30)
  show ?thesis
  proof
    assume "polymod_feed step c vs = k"
    then have "symbols_register vs = ?z XOR k"
      using feed_six [OF assms(1,2), of c] by (auto simp: ac_simps)
    then show "vs = register_symbols (?z XOR k)"
      using register_symbols_inverse [OF assms(2,1)] by simp
  next
    assume "vs = register_symbols (?z XOR k)"
    then have "symbols_register vs = ?z XOR k"
      using z assms(3) by (simp add: symbols_register_inverse reg30_xor)
    then show "polymod_feed step c vs = k"
      using feed_six [OF assms(1,2), of c] by (auto simp: ac_simps)
  qed
qed

text \<open>Where two registers are fed the same symbols, their difference is stepped.\<close>

lemma feed_difference:
  "polymod_feed step a vs XOR polymod_feed step b vs = (step ^^ length vs) (a XOR b)"
proof (induction vs arbitrary: a b)
  case (Cons v vs)
  have "(step a XOR v) XOR (step b XOR v) = step (a XOR b)"
    by (simp add: step_xor xor.assoc xor.left_commute [of v])
  then show ?case by (simp add: Cons.IH funpow_swap1)
qed simp

lemma error_difference:
  "polymod_feed step c (xs @ u # ys) XOR polymod_feed step c (xs @ v # ys) = (step ^^ length ys) (u XOR v)"
proof -
  have "(step a XOR u) XOR (step a XOR v) = u XOR v" for a
    by (simp add: xor.assoc xor.left_commute [of u])
  then show ?thesis by (simp add: feed_difference)
qed

text \<open>A register from which a cycle is reached is on the cycle.\<close>

lemma on_cycle:
  assumes "(step ^^ n) d = d" and "0 < n"
  shows "(step ^^ k) e = (step ^^ i) d \<Longrightarrow> i < n \<Longrightarrow> reg30 d \<Longrightarrow> reg30 e \<Longrightarrow> \<exists>i<n. e = (step ^^ i) d"
proof (induction k arbitrary: i)
  case (Suc k)
  have r: "reg30 ((step ^^ j) x)" if "reg30 x" for j x using that by (cases j) (simp_all add: step_reg30)
  define j where "j = (if i = 0 then n - 1 else i - 1)"
  have "step ((step ^^ j) d) = (step ^^ i) d"
  proof (cases "i = 0")
    case True
    then have "n = Suc j" using assms(2) by (simp add: j_def)
    then have "(step ^^ n) d = step ((step ^^ j) d)" by simp
    then show ?thesis using True assms(1) by simp
  next
    case False
    then have "i = Suc j" by (simp add: j_def)
    then show ?thesis by simp
  qed
  then have "step ((step ^^ k) e) = step ((step ^^ j) d)"
    using Suc.prems(1) by (simp only: funpow.simps comp_apply)
  from step_inj [OF this r [OF Suc.prems(4)] r [OF Suc.prems(3)]] have "(step ^^ k) e = (step ^^ j) d" .
  moreover have "j < n" using Suc.prems(2) by (auto simp: j_def)
  ultimately show ?case using Suc.IH Suc.prems(3,4) by blast
qed auto

end

interpretation bch: linear_code bech32_polymod_step
proof
  show "bech32_polymod_step (a XOR b) = bech32_polymod_step a XOR bech32_polymod_step b" for a b
    by (rule polymod_step_xor)
  show "reg30 (bech32_polymod_step a)" for a
    unfolding reg30_def by (rule polymod_step_bound)
  show "take_bit 25 a = a \<Longrightarrow> bech32_polymod_step a = push_bit 5 a" for a
    by (rule polymod_step_shift)
  show "bech32_polymod_step a = 0 \<Longrightarrow> reg30 a \<Longrightarrow> a = 0" for a
    unfolding reg30_def by (rule polymod_step_zero)
qed

section \<open>The two constants\<close>

text \<open>Stepping a register as long as it is not a single symbol.\<close>

fun wide_steps :: "nat \<Rightarrow> u32 \<Rightarrow> u32 option" where
  "wide_steps n c = (if n = 0 then Some c else if c < 32 then None else wide_steps (n - 1) (bech32_polymod_step c))"

declare wide_steps.simps [simp del]

lemma wide_steps_funpow:
  "wide_steps n c = Some c' \<Longrightarrow> c' = (bech32_polymod_step ^^ n) c \<and> (\<forall>i<n. \<not> (bech32_polymod_step ^^ i) c < 32)"
proof (induction n arbitrary: c)
  case (Suc n)
  then have c: "\<not> c < 32" "wide_steps n (bech32_polymod_step c) = Some c'" by (simp_all add: wide_steps.simps [of "Suc n" c] split: if_splits)
  have "\<not> (bech32_polymod_step ^^ i) c < 32" if "i < Suc n" for i
    using Suc.IH [OF c(2)] that c(1) by (cases i) (simp_all add: funpow_swap1)
  then show ?case using Suc.IH [OF c(2)] by (simp add: funpow_swap1)
qed (simp add: wide_steps.simps)

text \<open>The difference of the constants of Bech32 and Bech32m comes back after 1023 steps, and is a symbol on
  none of them, so a change of one symbol does not turn one constant into the other.\<close>

lemma constants_cycle: "wide_steps 1023 0x2bc830a2 = Some 0x2bc830a2"
  by (simp add: wide_steps.simps polymod_step_gens)

lemma symbol5_less: "symbol5 v \<Longrightarrow> v < 32"
proof -
  assume "symbol5 v"
  moreover have "unat (take_bit 5 v) < 32" using take_bit_nat_less_exp [of 5 "unat v"] by (simp add: unsigned_take_bit_eq)
  ultimately show ?thesis by (simp add: symbol5_def word_less_nat_alt)
qed

lemma constants_apart:
  assumes "symbol5 e"
  shows "(bech32_polymod_step ^^ k) e \<noteq> 0x2bc830a2"
proof
  assume k: "(bech32_polymod_step ^^ k) e = 0x2bc830a2"
  note cycle = wide_steps_funpow [OF constants_cycle]
  have "reg30 0x2bc830a2" by (simp add: reg30_def take_bit_eq_mod)
  then obtain i where "i < 1023" "e = (bech32_polymod_step ^^ i) 0x2bc830a2"
    using bch.on_cycle [of 1023 "0x2bc830a2" k e 0] cycle k symbol5_reg30 [OF assms] by auto
  then show False using cycle symbol5_less [OF assms] by auto
qed

lemma single_error_constants:
  assumes "u \<noteq> v" and "symbol5 u" and "symbol5 v" and "\<forall>w\<in>set ys. symbol5 w"
    and "bech32_final_constant enc = Done (polymod_feed bech32_polymod_step c (xs @ u # ys))"
  shows "bech32_final_constant enc' \<noteq> Done (polymod_feed bech32_polymod_step c (xs @ v # ys))"
proof
  assume v: "bech32_final_constant enc' = Done (polymod_feed bech32_polymod_step c (xs @ v # ys))"
  have "polymod_feed bech32_polymod_step c (xs @ u # ys) XOR polymod_feed bech32_polymod_step c (xs @ v # ys) =
      (bech32_polymod_step ^^ length ys) (u XOR v)" by (rule bch.error_difference)
  moreover have "(bech32_polymod_step ^^ length ys) (u XOR v) \<noteq> 0x2bc830a2"
    by (rule constants_apart) (rule symbol5_xor [OF assms(2,3)])
  moreover have "polymod_feed bech32_polymod_step c (xs @ u # ys) \<noteq> polymod_feed bech32_polymod_step c (xs @ v # ys)"
    by (rule bch.single_error [OF assms(1-4)])
  ultimately show False using assms(5) v by (cases enc; cases enc') auto
qed
end
