(* ===== verification/Bech32.thy ===== *)
theory Bech32
  imports Polymod
begin

text \<open>
  The Bech32 and Bech32m strings of \<open>bech32.c\<close>: \<open>bech32_encode\<close> and
  \<open>bech32_decode\<close>, loop by loop.  The out buffers of the C functions are returned
  values; \<open>bech32_encode\<close> gives \<open>None\<close> where the code returns 0,
  \<open>bech32_decode\<close> gives the encoding, the human-readable part and the data (both empty
  where the code returns \<open>BECH32_ENCODING_NONE\<close>: no caller reads them then).
\<close>

section \<open>The character set\<close>

definition bech32_charset :: cstr where
  "bech32_charset = cs ''qpzry9x8gf2tvdw0s3jn54khce6mua7l''"

definition bech32_charset_rev :: "int list" where
  "bech32_charset_rev = [
    -1, -1, -1, -1, -1, -1, -1, -1, -1, -1, -1, -1, -1, -1, -1, -1,
    -1, -1, -1, -1, -1, -1, -1, -1, -1, -1, -1, -1, -1, -1, -1, -1,
    -1, -1, -1, -1, -1, -1, -1, -1, -1, -1, -1, -1, -1, -1, -1, -1,
    15, -1, 10, 17, 21, 20, 26, 30,  7,  5, -1, -1, -1, -1, -1, -1,
    -1, 29, -1, 24, 13, 25,  9,  8, 23, -1, 18, 22, 31, 27, 19, -1,
     1,  0,  3, 16, 11, 28, 12, 14,  6,  4,  2, -1, -1, -1, -1, -1,
    -1, 29, -1, 24, 13, 25,  9,  8, 23, -1, 18, 22, 31, 27, 19, -1,
     1,  0,  3, 16, 11, 28, 12, 14,  6,  4,  2, -1, -1, -1, -1, -1]"

text \<open>\<open>(c & 0x80) ? -1 : bech32_charset_rev[c]\<close>\<close>

definition charset_value :: "u8 \<Rightarrow> int" where
  "charset_value c = (if c AND 0x80 \<noteq> 0 then -1 else bech32_charset_rev ! unat c)"

lemma charset_tables:
  "list_all2 (\<lambda>n v. v = -1 \<or> 0 \<le> v \<and> v < 32 \<and>
        unat (bech32_charset ! nat v) = (if 65 \<le> n \<and> n \<le> 90 then n + 32 else n)) [0..<128] bech32_charset_rev"
  by (simp add: bech32_charset_rev_def bech32_charset_def upt_rec)

lemma charset_rev_tables:
  "list_all2 (\<lambda>v c. let n = unat c in
      n < 128 \<and> n \<noteq> 49 \<and> \<not> (65 \<le> n \<and> n \<le> 90) \<and> bech32_charset_rev ! n = int v) [0..<32] bech32_charset"
  by (simp add: bech32_charset_rev_def bech32_charset_def upt_rec Let_def)

lemma and_0x80_u8: "c AND 0x80 = 0 \<longleftrightarrow> (c::u8) < 128"
proof -
  have "c < 128 \<longleftrightarrow> take_bit 7 c = c"
    by (simp add: word_less_nat_alt word_unat_eq_iff unsigned_take_bit_eq take_bit_nat_eq_self_iff)
  also have "\<dots> \<longleftrightarrow> \<not> bit c 7"
  proof
    assume "take_bit 7 c = c"
    then show "\<not> bit c 7" by (metis bit_take_bit_iff less_irrefl)
  next
    assume *: "\<not> bit c 7"
    show "take_bit 7 c = c"
    proof (rule bit_word_eqI)
      fix i :: nat
      assume "i < LENGTH(8)"
      then have "i < 7 \<or> i = 7" by auto
      then show "bit (take_bit 7 c) i = bit c i" using * by (auto simp: bit_take_bit_iff)
    qed
  qed
  finally show ?thesis
    using and_exp_eq_0_iff_not_bit [of c 7] by simp
qed

lemma charset_case_tables:
  "list_all2 (\<lambda>n v. 65 \<le> n \<and> n \<le> 90 \<longrightarrow> bech32_charset_rev ! (n + 32) = v) [0..<128] bech32_charset_rev"
  by (simp add: bech32_charset_rev_def upt_rec)

lemma charset_value_tolower: "charset_value (tolower_c c) = charset_value c"
proof (cases "65 \<le> unat c \<and> unat c \<le> 90")
  case True
  then have c: "c < 128" "tolower_c c < 128"
    by (simp_all add: word_less_nat_alt unat_tolower_c)
  have "[0..<128] ! unat c = unat c"
    using True nth_upt [of 0 "unat c" 128] by simp
  with list_all2_nthD [OF charset_case_tables, of "unat c"] True
  have "bech32_charset_rev ! (unat c + 32) = bech32_charset_rev ! unat c" by simp
  then show ?thesis
    using True c by (simp add: charset_value_def and_0x80_u8 unat_tolower_c)
next
  case False
  then have "tolower_c c = c" by (simp add: word_unat_eq_iff unat_tolower_c)
  then show ?thesis by simp
qed

text \<open>Every character of value \<open>v \<noteq> -1\<close> is, up to case, character \<open>v\<close> of the set.\<close>

lemma charset_value_cases:
  assumes "charset_value c \<noteq> -1"
  shows "0 \<le> charset_value c" and "charset_value c < 32" and "c < 128"
    and "bech32_charset ! nat (charset_value c) = tolower_c c"
proof -
  show c: "c < 128"
    using assms by (simp add: charset_value_def and_0x80_u8 split: if_splits)
  then have v: "charset_value c = bech32_charset_rev ! unat c"
    by (simp add: charset_value_def and_0x80_u8)
  have nth: "[0..<128] ! unat c = unat c"
    using c nth_upt [of 0 "unat c" 128] by (simp only: word_less_nat_alt) simp
  have *: "v = -1 \<or> 0 \<le> v \<and> v < 32 \<and>
        unat (bech32_charset ! nat v) = (if 65 \<le> unat c \<and> unat c \<le> 90 then unat c + 32 else unat c)"
    if "v = bech32_charset_rev ! unat c" for v
    using list_all2_nthD [OF charset_tables, of "unat c"] c unfolding nth that
    by (simp add: word_less_nat_alt split del: if_split)
  then show "0 \<le> charset_value c" "charset_value c < 32"
    using * [OF refl] assms unfolding v by auto
  have "unat (bech32_charset ! nat (charset_value c)) = unat (tolower_c c)"
    using * [OF refl] assms unfolding v unat_tolower_c by auto
  then show "bech32_charset ! nat (charset_value c) = tolower_c c"
    by (simp add: word_unat_eq_iff)
qed

lemma charset_symbol:
  assumes "v < 32"
  defines "c \<equiv> bech32_charset ! v"
  shows "charset_value c = int v" and "c < 128" and "c \<noteq> 49" and "\<not> is_upper_c c" and "tolower_c c = c"
proof -
  from list_all2_nthD [OF charset_rev_tables, of v] assms(1)
  have *: "unat c < 128 \<and> unat c \<noteq> 49 \<and> \<not> (65 \<le> unat c \<and> unat c \<le> 90)
      \<and> bech32_charset_rev ! unat c = int v"
    unfolding c_def Let_def by simp
  then show c: "c < 128" by (simp add: word_less_nat_alt)
  then show "charset_value c = int v"
    using * by (simp add: charset_value_def and_0x80_u8)
  show "c \<noteq> 49" using * by auto
  show up: "\<not> is_upper_c c" using * by (simp add: is_upper_c_iff word_le_nat_alt)
  then show "tolower_c c = c" by (simp add: tolower_c_def)
qed

section \<open>Encoding\<close>

text \<open>The first loop over \<open>hrp\<close>: the guards and the high bits.\<close>

fun enc_hrp_high :: "u32 \<Rightarrow> cstr \<Rightarrow> u32 option" where
  "enc_hrp_high chk [] = Some chk"
| "enc_hrp_high chk (c # s) =
     (let ch = char_int c in
      if ch < 33 \<or> ch > 126 then None
      else if is_upper_c c then None
      else enc_hrp_high (bech32_polymod_step chk XOR word_of_int (drop_bit 5 ch)) s)"

text \<open>The second loop: the low five bits (the decoder has the same loop).\<close>

fun hrp_low :: "u32 \<Rightarrow> cstr \<Rightarrow> u32" where
  "hrp_low chk [] = chk"
| "hrp_low chk (c # s) = hrp_low (bech32_polymod_step chk XOR word_of_int (char_int c AND 0x1f)) s"

fun enc_data :: "u32 \<Rightarrow> u5 list \<Rightarrow> (u32 \<times> cstr) option" where
  "enc_data chk [] = Some (chk, [])"
| "enc_data chk (d # ds) =
     (if drop_bit 5 d \<noteq> 0 then None
      else case enc_data (bech32_polymod_step chk XOR ucast d) ds of
             None \<Rightarrow> None
           | Some (chk', out) \<Rightarrow> Some (chk', bech32_charset ! unat d # out))"

definition bech32_encode :: "cstr \<Rightarrow> u5 list \<Rightarrow> nat \<Rightarrow> bech32_encoding \<Rightarrow> cstr option outcome" where
  "bech32_encode hrp data max_input_len enc =
     (case enc_hrp_high 1 hrp of
        None \<Rightarrow> Done None
      | Some chk \<Rightarrow>
          if length hrp + 7 + length data > max_input_len then Done None
          else
            let chk = bech32_polymod_step chk;
                chk = hrp_low chk hrp
            in case enc_data chk data of
                 None \<Rightarrow> Done None
               | Some (chk, out) \<Rightarrow>
                   let chk = (bech32_polymod_step ^^ 6) chk
                   in bind_outcome (bech32_final_constant enc) (\<lambda>k.
                        Done (Some (hrp @ [49] @ out @
                          map (\<lambda>v. bech32_charset ! unat v) (register_symbols (chk XOR k))))))"

section \<open>Decoding\<close>

text \<open>
  \<open>while (*data_len < input_len && input[(input_len - 1) - *data_len] != '1') ++(*data_len)\<close>
\<close>

function sep_scan :: "cstr \<Rightarrow> nat \<Rightarrow> nat" where
  "sep_scan input data_len =
     (if data_len < length input \<and> input ! ((length input - 1) - data_len) \<noteq> 49
      then sep_scan input (Suc data_len) else data_len)"
  by pat_completeness auto
termination
  by (relation "measure (\<lambda>(input, n). length input - n)") auto

declare sep_scan.simps [simp del]

fun dec_hrp :: "u32 \<Rightarrow> bool \<Rightarrow> bool \<Rightarrow> cstr \<Rightarrow> (u32 \<times> bool \<times> bool \<times> cstr) option" where
  "dec_hrp chk lower upper [] = Some (chk, lower, upper, [])"
| "dec_hrp chk lower upper (c # s) =
     (let ch = char_int c in
      if ch < 33 \<or> ch > 126 then None
      else
        let lower' = (lower \<or> is_lower_c c);
            upper' = (upper \<or> (\<not> is_lower_c c \<and> is_upper_c c));
            ch = (if \<not> is_lower_c c \<and> is_upper_c c then (ch - 65) + 97 else ch)
        in case dec_hrp (bech32_polymod_step chk XOR word_of_int (drop_bit 5 ch)) lower' upper' s of
             None \<Rightarrow> None
           | Some (chk', l, u, hrp) \<Rightarrow> Some (chk', l, u, word_of_int ch # hrp))"

fun dec_data :: "nat \<Rightarrow> nat \<Rightarrow> u32 \<Rightarrow> bool \<Rightarrow> bool \<Rightarrow> cstr \<Rightarrow> (u32 \<times> bool \<times> bool \<times> u5 list) option" where
  "dec_data input_len i chk lower upper [] = Some (chk, lower, upper, [])"
| "dec_data input_len i chk lower upper (c # s) =
     (let v = charset_value c;
          lower' = (lower \<or> is_lower_c c);
          upper' = (upper \<or> is_upper_c c)
      in if v = -1 then None
         else case dec_data input_len (Suc i) (bech32_polymod_step chk XOR word_of_int v) lower' upper' s of
                None \<Rightarrow> None
              | Some (chk', l, u, data) \<Rightarrow>
                  Some (chk', l, u, if i + 6 < input_len then word_of_int v # data else data))"

definition bech32_decode :: "cstr \<Rightarrow> nat \<Rightarrow> bech32_encoding \<times> cstr \<times> u5 list" where
  "bech32_decode input max_input_len =
     (let none = (BECH32_ENCODING_NONE, [], []);
          input_len = length input
      in if input_len < 8 \<or> input_len > max_input_len then none
         else
           let data_len = sep_scan input 0;
               hrp_len = input_len - (1 + data_len)
           in if 1 + data_len \<ge> input_len \<or> data_len < 6 then none
              else case dec_hrp 1 False False (take hrp_len input) of
                None \<Rightarrow> none
              | Some (chk, lower, upper, hrp) \<Rightarrow>
                  let chk = bech32_polymod_step chk;
                      chk = hrp_low chk (take hrp_len input)
                  in case dec_data input_len (hrp_len + 1) chk lower upper (drop (hrp_len + 1) input) of
                       None \<Rightarrow> none
                     | Some (chk, lower, upper, data) \<Rightarrow>
                         if lower \<and> upper then none
                         else if Done chk = bech32_final_constant BECH32_ENCODING_BECH32
                         then (BECH32_ENCODING_BECH32, hrp, data)
                         else if Done chk = bech32_final_constant BECH32_ENCODING_BECH32M
                         then (BECH32_ENCODING_BECH32M, hrp, data)
                         else none)"


section \<open>The loops as one pass of the checksum register\<close>

text \<open>The high and low parts of a character of the human-readable part.\<close>

definition hrp_high_symbol :: "u8 \<Rightarrow> u32" where
  "hrp_high_symbol c = word_of_int (drop_bit 5 (char_int c))"

definition hrp_low_symbol :: "u8 \<Rightarrow> u32" where
  "hrp_low_symbol c = word_of_int (char_int c AND 0x1f)"

text \<open>The expansion of the human-readable part, as BIP-173 defines it.\<close>

definition hrp_expand :: "cstr \<Rightarrow> u32 list" where
  "hrp_expand hrp = map hrp_high_symbol hrp @ [0] @ map hrp_low_symbol hrp"

definition hrp_char :: "u8 \<Rightarrow> bool" where
  "hrp_char c \<longleftrightarrow> 33 \<le> c \<and> c \<le> 126"

lemma char_int_ascii: "c < 128 \<Longrightarrow> char_int c = uint c"
  by (simp add: char_int_def sint_u8)

lemma hrp_high_symbol_ascii:
  assumes "c < 128" shows "hrp_high_symbol c = ucast (drop_bit 5 c)"
proof (rule bit_word_eqI)
  fix n assume "n < LENGTH(32)"
  then show "bit (hrp_high_symbol c) n = bit (ucast (drop_bit 5 c) :: u32) n"
    unfolding hrp_high_symbol_def char_int_ascii [OF assms]
    by (auto simp: bit_simps dest: bit_imp_le_length)
qed

lemma low5_ucast:
  "word_of_int (char_int c AND 0x1f) = (ucast (take_bit 5 c) :: u32)"
proof -
  have "char_int c AND 31 = take_bit 5 (char_int c)"
    using take_bit_eq_mask [of 5 "char_int c"] by (simp only: mask_eq_exp_minus_1) simp
  also have "\<dots> = take_bit 5 (uint c)"
    by (simp add: char_int_def sint_uint take_bit_signed_take_bit)
  finally show ?thesis
    by (intro bit_word_eqI) (auto simp: bit_simps)
qed

lemma char_int_tolower: "c < 128 \<Longrightarrow> char_int (tolower_c c) = (if is_upper_c c then char_int c - 65 + 97 else char_int c)"
proof -
  assume c: "c < 128"
  then have n: "tolower_c c < 128"
    by (simp add: word_less_nat_alt unat_tolower_c)
  have "uint (tolower_c c) = int (unat (tolower_c c))" and u: "uint c = int (unat c)" by simp_all
  then have "uint (tolower_c c) = (if 65 \<le> unat c \<and> unat c \<le> 90 then uint c - 65 + 97 else uint c)"
    unfolding u unat_tolower_c by (simp split del: if_split) (simp only: split: if_split, simp)
  then show ?thesis
    unfolding char_int_ascii [OF c] char_int_ascii [OF n] is_upper_c_iff word_le_nat_alt by simp
qed

lemma hrp_char_iff: "hrp_char c \<longleftrightarrow> \<not> (char_int c < 33 \<or> char_int c > 126)"
  by (simp only: hrp_char_def char_int_range_iff)

lemma hrp_char_ascii: "hrp_char c \<Longrightarrow> c < 128"
  unfolding hrp_char_def by unat_arith

lemma not_upper_tolower: "\<not> is_upper_c (tolower_c c)"
  by (simp add: is_upper_c_iff word_le_nat_alt unat_tolower_c)

lemma tolower_c_hrp_char: "hrp_char (tolower_c c) \<longleftrightarrow> hrp_char c"
  by (simp add: hrp_char_def word_le_nat_alt unat_tolower_c)

lemma symbol5_ucast: "take_bit 5 d = d \<Longrightarrow> symbol5 (ucast (d :: u8))"
  unfolding symbol5_def by (metis unsigned_take_bit_eq)

lemma symbol5_low [simp]: "symbol5 (hrp_low_symbol c)"
  unfolding hrp_low_symbol_def low5_ucast by (rule symbol5_ucast) simp

lemma symbol5_high: "hrp_char c \<Longrightarrow> symbol5 (hrp_high_symbol c)"
proof -
  assume "hrp_char c"
  then have c: "c < 128" by (rule hrp_char_ascii)
  have "take_bit 5 (drop_bit 5 c) = drop_bit 5 c"
    by (intro bit_word_eqI) (auto simp: bit_simps dest: bit_imp_le_length)
  then show ?thesis unfolding hrp_high_symbol_ascii [OF c] by (rule symbol5_ucast)
qed

lemma symbol5_hrp_expand: "\<forall>c\<in>set hrp. hrp_char c \<Longrightarrow> \<forall>v\<in>set (hrp_expand hrp). symbol5 v"
  by (auto simp: hrp_expand_def symbol5_high)

text \<open>Lowering the case of a letter keeps its five low bits.\<close>

lemma hrp_low_symbol_tolower: "hrp_low_symbol (tolower_c c) = hrp_low_symbol c"
proof -
  have "take_bit 5 (c + 32) = take_bit 5 c"
    by (simp add: word_unat_eq_iff unsigned_take_bit_eq take_bit_eq_mod unat_word_ariths mod_mod_cancel)
  then show ?thesis by (simp add: hrp_low_symbol_def low5_ucast tolower_c_def)
qed

lemma enc_hrp_high_Some:
  "enc_hrp_high chk hrp =
     (if \<forall>c\<in>set hrp. hrp_char c \<and> \<not> is_upper_c c
      then Some (polymod_feed bech32_polymod_step chk (map hrp_high_symbol hrp)) else None)"
  by (induction hrp arbitrary: chk) (auto simp: Let_def hrp_char_iff hrp_high_symbol_def)

lemma hrp_low_feed:
  "hrp_low chk hrp = polymod_feed bech32_polymod_step chk (map hrp_low_symbol hrp)"
  by (induction hrp arbitrary: chk) (simp_all add: hrp_low_symbol_def)

text \<open>The two loops over the human-readable part and the step between them.\<close>

lemma hrp_expand_feed:
  "hrp_low (bech32_polymod_step (polymod_feed bech32_polymod_step chk (map hrp_high_symbol hrp))) hrp
     = polymod_feed bech32_polymod_step chk (hrp_expand hrp)"
  by (simp add: hrp_low_feed hrp_expand_def)

lemma drop_5_symbol: "drop_bit 5 d = 0 \<longleftrightarrow> take_bit 5 d = (d :: u8)"
  by (simp add: take_bit_eq_self_iff_drop_bit_eq_0)

lemma enc_data_Some:
  "enc_data chk data =
     (if \<forall>d\<in>set data. take_bit 5 d = d
      then Some (polymod_feed bech32_polymod_step chk (map ucast data),
                 map (\<lambda>d. bech32_charset ! unat d) data) else None)"
  by (induction data arbitrary: chk) (auto simp: drop_5_symbol)

lemma polymod_feed_zeros:
  "(bech32_polymod_step ^^ n) chk = polymod_feed bech32_polymod_step chk (replicate n 0)"
  by (induction n arbitrary: chk) (simp_all add: funpow_Suc_right del: funpow.simps(2))

lemma sep_scan_takeWhile:
  "sep_scan input n = n + length (takeWhile (\<lambda>c. c \<noteq> 49) (drop n (rev input)))"
proof (induction input n rule: sep_scan.induct)
  case (1 input n)
  show ?case
  proof (cases "n < length input")
    case True
    then have "drop n (rev input) = input ! (length input - 1 - n) # drop (Suc n) (rev input)"
      using Cons_nth_drop_Suc [of n "rev input"] by (simp add: rev_nth)
    then show ?thesis using 1 True by (simp add: sep_scan.simps [of input n])
  next
    case False
    then show ?thesis by (simp add: sep_scan.simps [of input n])
  qed
qed

lemma dec_hrp_Some:
  "dec_hrp chk l u s =
     (if \<forall>c\<in>set s. hrp_char c
      then Some (polymod_feed bech32_polymod_step chk (map (\<lambda>c. hrp_high_symbol (tolower_c c)) s),
                 l \<or> (\<exists>c\<in>set s. is_lower_c c), u \<or> (\<exists>c\<in>set s. is_upper_c c), map tolower_c s)
      else None)"
proof (induction s arbitrary: chk l u)
  case (Cons c s)
  have up: "\<not> is_lower_c c \<and> is_upper_c c \<longleftrightarrow> is_upper_c c"
    unfolding is_lower_c_def is_upper_c_def by auto
  have ch: "(if is_upper_c c then (char_int c - 65) + 97 else char_int c) = char_int (tolower_c c)"
    if "hrp_char c"
    using that by (simp add: char_int_tolower hrp_char_ascii)
  show ?case
  proof (cases "hrp_char c")
    case True
    then show ?thesis
      unfolding dec_hrp.simps Let_def up ch [OF True]
      by (auto simp: Cons.IH hrp_char_iff hrp_high_symbol_def char_int_def)
  next
    case False
    then show ?thesis by (auto simp: hrp_char_iff Let_def)
  qed
qed simp

definition charset_symbol32 :: "u8 \<Rightarrow> u32" where
  "charset_symbol32 c = word_of_int (charset_value c)"

definition charset_symbol8 :: "u8 \<Rightarrow> u8" where
  "charset_symbol8 c = word_of_int (charset_value c)"

lemma dec_data_Some:
  "i + length s = input_len \<Longrightarrow> dec_data input_len i chk l u s =
     (if \<forall>c\<in>set s. charset_value c \<noteq> -1
      then Some (polymod_feed bech32_polymod_step chk (map charset_symbol32 s),
                 l \<or> (\<exists>c\<in>set s. is_lower_c c), u \<or> (\<exists>c\<in>set s. is_upper_c c),
                 map charset_symbol8 (take (length s - 6) s))
      else None)"
proof (induction s arbitrary: i chk l u)
  case (Cons c s)
  then have IH: "dec_data input_len (Suc i) chk' l' u' s =
     (if \<forall>c\<in>set s. charset_value c \<noteq> -1
      then Some (polymod_feed bech32_polymod_step chk' (map charset_symbol32 s),
                 l' \<or> (\<exists>c\<in>set s. is_lower_c c), u' \<or> (\<exists>c\<in>set s. is_upper_c c),
                 map charset_symbol8 (take (length s - 6) s))
      else None)" for chk' l' u'
    by simp
  have "i + 6 < input_len \<longleftrightarrow> 6 \<le> length s" using Cons.prems by auto
  moreover have "take (length (c # s) - 6) (c # s) = (if 6 \<le> length s then c # take (length s - 6) s else [])"
  proof (cases "6 \<le> length s")
    case True
    then have "length (c # s) - 6 = Suc (length s - 6)" by simp
    then show ?thesis using True by (simp only: take_Suc_Cons if_True)
  qed simp
  ultimately show ?case
    by (auto simp: IH Let_def simp del: take_Suc_Cons length_Cons simp flip: charset_symbol32_def charset_symbol8_def)
qed simp

lemma charset_value_symbols:
  assumes "charset_value c \<noteq> -1"
  shows "charset_symbol32 c = ucast (charset_symbol8 c)"
    and "take_bit 5 (charset_symbol8 c) = charset_symbol8 c"
    and "bech32_charset ! unat (charset_symbol8 c) = tolower_c c"
    and "symbol5 (charset_symbol32 c)"
    and "bech32_charset ! unat (charset_symbol32 c) = tolower_c c"
proof -
  note v = charset_value_cases [OF assms]
  have t: "take_bit 5 (charset_value c) = charset_value c" "take_bit 8 (charset_value c) = charset_value c"
      "take_bit 32 (charset_value c) = charset_value c"
    using v(1,2) by (simp_all add: take_bit_int_eq_self_iff)
  have u: "uint (charset_symbol8 c) = charset_value c" and u32: "uint (charset_symbol32 c) = charset_value c"
    by (simp_all add: charset_symbol8_def charset_symbol32_def unsigned_of_int t v(1))
  show 5: "take_bit 5 (charset_symbol8 c) = charset_symbol8 c"
    by (simp add: word_uint_eq_iff unsigned_take_bit_eq u t)
  show e: "charset_symbol32 c = ucast (charset_symbol8 c)"
    by (rule word_uint_eqI) (simp add: u u32 unsigned_ucast_eq t)
  show "bech32_charset ! unat (charset_symbol8 c) = tolower_c c"
    using v(4) by (simp add: u flip: nat_uint_eq)
  show "bech32_charset ! unat (charset_symbol32 c) = tolower_c c"
    using v(4) by (simp add: u32 flip: nat_uint_eq)
  show "symbol5 (charset_symbol32 c)"
    unfolding e using 5 by (rule symbol5_ucast)
qed

section \<open>The strings of BIP-173 and BIP-350\<close>

definition bech32_checksum :: "u32 \<Rightarrow> cstr \<Rightarrow> u5 list \<Rightarrow> u32 list" where
  "bech32_checksum k hrp data =
     register_symbols (polymod_feed bech32_polymod_step 1 (hrp_expand hrp @ map ucast data @ replicate 6 0) XOR k)"

definition bech32_string :: "u32 \<Rightarrow> cstr \<Rightarrow> u5 list \<Rightarrow> cstr" where
  "bech32_string k hrp data = hrp @ 49 # map (\<lambda>d. bech32_charset ! unat d) data @
     map (\<lambda>v. bech32_charset ! unat v) (bech32_checksum k hrp data)"

definition hrp_ok :: "cstr \<Rightarrow> bool" where
  "hrp_ok hrp \<longleftrightarrow> (\<forall>c\<in>set hrp. hrp_char c \<and> \<not> is_upper_c c)"

definition symbols_ok :: "u5 list \<Rightarrow> bool" where
  "symbols_ok data \<longleftrightarrow> (\<forall>d\<in>set data. take_bit 5 d = d)"

definition mixed_case :: "cstr \<Rightarrow> bool" where
  "mixed_case s \<longleftrightarrow> (\<exists>c\<in>set s. is_lower_c c) \<and> (\<exists>c\<in>set s. is_upper_c c)"

text \<open>\<open>bech32_encode\<close> on every branch.\<close>

lemma bech32_encode_eq:
  "bech32_encode hrp data max_input_len enc =
     (if hrp_ok hrp \<and> length hrp + 7 + length data \<le> max_input_len \<and> symbols_ok data
      then bind_outcome (bech32_final_constant enc) (\<lambda>k. Done (Some (bech32_string k hrp data)))
      else Done None)"
proof -
  have chk: "(bech32_polymod_step ^^ 6) (polymod_feed bech32_polymod_step
        (hrp_low (bech32_polymod_step (polymod_feed bech32_polymod_step 1 (map hrp_high_symbol hrp))) hrp) (map ucast data))
      = polymod_feed bech32_polymod_step 1 (hrp_expand hrp @ map ucast data @ replicate 6 0)"
    unfolding hrp_expand_feed polymod_feed_zeros by simp
  show ?thesis
    unfolding bech32_encode_def enc_hrp_high_Some enc_data_Some hrp_ok_def symbols_ok_def
    by (auto simp: Let_def chk bech32_string_def bech32_checksum_def)
qed

text \<open>\<open>bech32_decode\<close> on a string whose last separator is known.\<close>

definition bech32_classify :: "u32 \<Rightarrow> bech32_encoding" where
  "bech32_classify chk =
     (if Done chk = bech32_final_constant BECH32_ENCODING_BECH32 then BECH32_ENCODING_BECH32
      else if Done chk = bech32_final_constant BECH32_ENCODING_BECH32M then BECH32_ENCODING_BECH32M
      else BECH32_ENCODING_NONE)"

lemma bech32_classify_iff:
  "bech32_classify chk = enc \<and> enc \<noteq> BECH32_ENCODING_NONE \<longleftrightarrow> bech32_final_constant enc = Done chk"
  by (cases enc) (auto simp: bech32_classify_def)

lemma hrp_expand_tolower:
  "map (\<lambda>c. hrp_high_symbol (tolower_c c)) pre @ [0] @ map hrp_low_symbol pre = hrp_expand (map tolower_c pre)"
  by (simp add: hrp_expand_def comp_def hrp_low_symbol_tolower)

lemma bech32_decode_at_separator:
  assumes "49 \<notin> set suf"
  shows "bech32_decode (pre @ 49 # suf) max_input_len =
     (let none = (BECH32_ENCODING_NONE, [], []);
          chk = polymod_feed bech32_polymod_step 1 (hrp_expand (map tolower_c pre) @ map charset_symbol32 suf)
      in if 8 \<le> length pre + 1 + length suf \<and> length pre + 1 + length suf \<le> max_input_len \<and>
            pre \<noteq> [] \<and> 6 \<le> length suf \<and> (\<forall>c\<in>set pre. hrp_char c) \<and>
            (\<forall>c\<in>set suf. charset_value c \<noteq> -1) \<and> \<not> mixed_case (pre @ 49 # suf) \<and>
            bech32_classify chk \<noteq> BECH32_ENCODING_NONE
         then (bech32_classify chk, map tolower_c pre, map charset_symbol8 (take (length suf - 6) suf))
         else none)"
proof -
  have scan: "sep_scan (pre @ 49 # suf) 0 = length suf"
    using takeWhile_rev_last [OF assms, of pre] by (simp add: sep_scan_takeWhile)
  have feed: "hrp_low (bech32_polymod_step (polymod_feed bech32_polymod_step 1
        (map (\<lambda>c. hrp_high_symbol (tolower_c c)) pre))) pre
      = polymod_feed bech32_polymod_step 1 (hrp_expand (map tolower_c pre))"
    unfolding hrp_low_feed hrp_expand_tolower [symmetric] by simp
  have sep: "\<not> is_lower_c 49" "\<not> is_upper_c 49"
    by (simp_all add: ctype_iff)
  have mixed: "mixed_case (pre @ 49 # suf) \<longleftrightarrow>
      ((\<exists>c\<in>set pre. is_lower_c c) \<or> (\<exists>c\<in>set suf. is_lower_c c)) \<and>
      ((\<exists>c\<in>set pre. is_upper_c c) \<or> (\<exists>c\<in>set suf. is_upper_c c))"
    unfolding mixed_case_def using sep by auto
  have "dec_data (Suc (length pre + length suf)) (Suc (length pre)) chk l u suf =
     (if \<forall>c\<in>set suf. charset_value c \<noteq> -1
      then Some (polymod_feed bech32_polymod_step chk (map charset_symbol32 suf),
                 l \<or> (\<exists>c\<in>set suf. is_lower_c c), u \<or> (\<exists>c\<in>set suf. is_upper_c c),
                 map charset_symbol8 (take (length suf - 6) suf))
      else None)" for chk l u
    by (rule dec_data_Some) simp
  then show ?thesis
    unfolding bech32_decode_def scan dec_hrp_Some
    by (auto simp: Let_def feed mixed bech32_classify_def simp del: bech32_final_constant.simps)
qed

lemma bech32_decode_no_separator:
  assumes "49 \<notin> set input"
  shows "bech32_decode input max_input_len = (BECH32_ENCODING_NONE, [], [])"
proof -
  have "takeWhile (\<lambda>c. c \<noteq> 49) (rev input) = rev input"
    using assms by (intro takeWhile_eq_all_conv [THEN iffD2]) auto
  then have "sep_scan input 0 = length input" by (simp only: sep_scan_takeWhile drop_0 length_rev add_0)
  then show ?thesis by (simp add: bech32_decode_def Let_def)
qed

lemma last_separator:
  assumes "x \<in> set xs"
  obtains pre suf where "xs = pre @ x # suf" and "x \<notin> set suf"
  using split_list_last [OF assms] by auto

lemma checksum_symbols:
  assumes "\<forall>v\<in>set vs. symbol5 v" and "length vs = 6" and "reg30 k"
  shows "polymod_feed bech32_polymod_step 1 (hrp_expand hrp @ map ucast data @ vs) = k
    \<longleftrightarrow> vs = bech32_checksum k hrp data"
  using bch.checksum_iff [OF assms, of "polymod_feed bech32_polymod_step 1 (hrp_expand hrp @ map ucast data)"]
  by (simp add: bech32_checksum_def)

lemma final_constant_reg30: "bech32_final_constant enc = Done k \<Longrightarrow> reg30 k"
  by (cases enc) (auto simp: reg30_def)

lemma take_append_last6:
  assumes "6 \<le> length s"
  obtains a b where "s = a @ b" and "length b = 6"
  using assms that [of "take (length s - 6) s" "drop (length s - 6) s"] by simp

lemma map_charset_symbols:
  assumes "\<forall>c\<in>set s. charset_value c \<noteq> -1"
  shows "map charset_symbol32 s = map ucast (map charset_symbol8 s)"
    and "map (\<lambda>d. bech32_charset ! unat d) (map charset_symbol8 s) = map tolower_c s"
    and "map (\<lambda>v. bech32_charset ! unat v) (map charset_symbol32 s) = map tolower_c s"
    and "symbols_ok (map charset_symbol8 s)"
    and "\<forall>v\<in>set (map charset_symbol32 s). symbol5 v"
  using assms
  by (simp_all add: charset_value_symbols(2-5) symbols_ok_def) (simp add: charset_value_symbols(1))

text \<open>What the decoder accepts is what the encoder writes, up to case.\<close>

lemma bech32_decode_sound:
  assumes dec: "bech32_decode input max_input_len = (enc, hrp, data)" and enc: "enc \<noteq> BECH32_ENCODING_NONE"
  obtains k where "bech32_final_constant enc = Done k"
    and "map tolower_c input = bech32_string k hrp data"
    and "hrp \<noteq> []" and "hrp_ok hrp" and "symbols_ok data" and "\<not> mixed_case input"
    and "8 \<le> length input" and "length input \<le> max_input_len"
proof -
  have "49 \<in> set input"
    using bech32_decode_no_separator [of input max_input_len] dec enc by auto
  then obtain pre suf where input: "input = pre @ 49 # suf" and suf: "49 \<notin> set suf"
    by (rule last_separator)
  let ?chk = "polymod_feed bech32_polymod_step 1 (hrp_expand (map tolower_c pre) @ map charset_symbol32 suf)"
  have ok: "8 \<le> length input" "length input \<le> max_input_len" "pre \<noteq> []" "6 \<le> length suf"
      "\<forall>c\<in>set pre. hrp_char c" "\<forall>c\<in>set suf. charset_value c \<noteq> -1" "\<not> mixed_case input"
    and res: "enc = bech32_classify ?chk" "hrp = map tolower_c pre"
      "data = map charset_symbol8 (take (length suf - 6) suf)"
    using dec enc unfolding input bech32_decode_at_separator [OF suf] Let_def
    by (auto split: if_splits)
  have k: "bech32_final_constant enc = Done ?chk"
    by (rule bech32_classify_iff [THEN iffD1, OF conjI [OF res(1) [symmetric] enc]])
  obtain a b where ab: "suf = a @ b" "length b = 6"
    using take_append_last6 [OF ok(4)] .
  have data: "data = map charset_symbol8 a" using ab(2) unfolding res(3) ab(1) by simp
  have a: "\<forall>c\<in>set a. charset_value c \<noteq> -1" and b: "\<forall>c\<in>set b. charset_value c \<noteq> -1"
    using ok(6) ab(1) by auto
  have "map charset_symbol32 b = bech32_checksum ?chk hrp data"
  proof (rule checksum_symbols [THEN iffD1])
    show "polymod_feed bech32_polymod_step 1 (hrp_expand hrp @ map ucast data @ map charset_symbol32 b) = ?chk"
      by (simp only: ab(1) map_append map_charset_symbols(1) [OF a] data res(2))
  qed (use map_charset_symbols(5) [OF b] final_constant_reg30 [OF k] ab(2) in \<open>simp_all only: length_map\<close>)
  then have cs: "map tolower_c b = map (\<lambda>v. bech32_charset ! unat v) (bech32_checksum ?chk hrp data)"
    using map_charset_symbols(3) [OF b] by simp
  have 49: "tolower_c 49 = 49" by (simp add: tolower_c_def ctype_iff)
  have "map tolower_c input = bech32_string ?chk hrp data"
    unfolding bech32_string_def cs [symmetric] unfolding data map_charset_symbols(2) [OF a]
    unfolding input ab(1) res(2) by (simp add: 49)
  moreover have "hrp_ok hrp"
    using ok(5) by (auto simp: hrp_ok_def res(2) tolower_c_hrp_char not_upper_tolower)
  ultimately show ?thesis
    using that [OF k] ok(1,2,3,7) res(2) map_charset_symbols(4) [OF a] data by simp
qed

lemma bech32_symbols_values:
  assumes "take_bit 5 v = (v :: 'a::len word)" and "8 \<le> LENGTH('a)"
  shows "charset_value (bech32_charset ! unat v) = int (unat v)" and "bech32_charset ! unat v \<noteq> 49"
    and "\<not> is_upper_c (bech32_charset ! unat v)" and "tolower_c (bech32_charset ! unat v) = bech32_charset ! unat v"
proof -
  have "unat v < 32"
    using take_bit_nat_less_exp [of 5 "unat v"] arg_cong [OF assms(1), of unat] by (simp add: unsigned_take_bit_eq)
  note * = charset_symbol [OF this]
  show "charset_value (bech32_charset ! unat v) = int (unat v)" "bech32_charset ! unat v \<noteq> 49"
    "\<not> is_upper_c (bech32_charset ! unat v)" "tolower_c (bech32_charset ! unat v) = bech32_charset ! unat v"
    using * by auto
qed

lemma map_charset_inverse:
  assumes "map tolower_c s = map (\<lambda>v. bech32_charset ! unat v) vs" and "\<forall>v\<in>set vs. take_bit 5 v = (v :: 'a::len word)"
    and "8 \<le> LENGTH('a)"
  shows "map charset_value s = map (\<lambda>v. int (unat v)) vs" and "49 \<notin> set s"
proof -
  have "map charset_value s = map charset_value (map tolower_c s)"
    by (simp add: comp_def charset_value_tolower)
  also have "\<dots> = map (\<lambda>v. int (unat v)) vs"
    unfolding assms(1) using assms(2,3) by (simp add: bech32_symbols_values)
  finally show "map charset_value s = map (\<lambda>v. int (unat v)) vs" .
  have "tolower_c 49 \<notin> set (map (\<lambda>v. bech32_charset ! unat v) vs)"
    using bech32_symbols_values(2) assms(2,3) by (fastforce simp: tolower_c_def ctype_iff)
  then show "49 \<notin> set s"
    unfolding assms(1) [symmetric] by auto
qed

lemma length_bech32_string: "length (bech32_string k hrp data) = length hrp + 7 + length data"
  by (simp add: bech32_string_def bech32_checksum_def)

lemma symbols_ok_checksum: "\<forall>v\<in>set (bech32_checksum k hrp data). take_bit 5 v = v"
  using symbol5_register_symbols unfolding bech32_checksum_def symbol5_def by blast

text \<open>The converse: what the encoder writes is accepted, in either case.\<close>

lemma bech32_decode_complete:
  assumes k: "bech32_final_constant enc = Done k"
    and string: "map tolower_c input = bech32_string k hrp data"
    and hrp: "hrp \<noteq> []" "hrp_ok hrp" and data: "symbols_ok data" and mixed: "\<not> mixed_case input"
    and max: "length input \<le> max_input_len"
  shows "bech32_decode input max_input_len = (enc, hrp, data)"
proof -
  define rest where "rest = map (\<lambda>d. bech32_charset ! unat d) data @
      map (\<lambda>v. bech32_charset ! unat v) (bech32_checksum k hrp data)"
  have "map tolower_c input = hrp @ 49 # rest"
    using string by (simp add: bech32_string_def rest_def)
  then obtain pre c suf where input0: "input = pre @ c # suf" and pre: "map tolower_c pre = hrp"
    and c0: "tolower_c c = 49" and suf: "map tolower_c suf = rest"
    by (auto simp: map_eq_append_conv map_eq_Cons_conv)
  have c: "c = 49"
    using c0 by (simp add: word_unat_eq_iff unat_tolower_c split: if_splits)
  from suf obtain a b where ab: "suf = a @ b" and a: "map tolower_c a = map (\<lambda>d. bech32_charset ! unat d) data"
    and b: "map tolower_c b = map (\<lambda>v. bech32_charset ! unat v) (bech32_checksum k hrp data)"
    unfolding rest_def by (auto simp: map_eq_append_conv)
  note va = map_charset_inverse [OF a data [unfolded symbols_ok_def]]
    and vb = map_charset_inverse [OF b symbols_ok_checksum]
  have va32: "map charset_symbol32 a = map ucast data" and va8: "map charset_symbol8 a = data"
    using arg_cong [OF va(1), of "map (word_of_int :: int \<Rightarrow> u32)"]
      arg_cong [OF va(1), of "map (word_of_int :: int \<Rightarrow> u8)"]
    by (simp_all add: comp_def charset_symbol32_def [abs_def] charset_symbol8_def [abs_def])
  have vb32: "map charset_symbol32 b = bech32_checksum k hrp data"
    using arg_cong [OF vb(1), of "map (word_of_int :: int \<Rightarrow> u32)"] by (simp add: comp_def charset_symbol32_def [abs_def])
  have neg: "\<forall>c\<in>set s. charset_value c \<noteq> -1" if "map charset_value s = map (\<lambda>v. int (unat v)) vs"
    for s and vs :: "'b::len word list"
  proof
    fix c assume "c \<in> set s"
    then have "charset_value c \<in> set (map (\<lambda>v. int (unat v)) vs)" unfolding that [symmetric] by simp
    then obtain v :: "'b word" where "charset_value c = int (unat v)" by (auto simp only: set_map image_iff)
    then show "charset_value c \<noteq> -1" using of_nat_0_le_iff [of "unat v", where 'a = int] by linarith
  qed
  let ?chk = "polymod_feed bech32_polymod_step 1 (hrp_expand hrp @ map charset_symbol32 suf)"
  have "?chk = k"
    using checksum_symbols [of "bech32_checksum k hrp data" k hrp data] symbols_ok_checksum [of k hrp data]
      final_constant_reg30 [OF k]
    by (simp add: ab va32 vb32 symbol5_def bech32_checksum_def)
  then have cls: "bech32_classify ?chk = enc" and enc: "enc \<noteq> BECH32_ENCODING_NONE"
    using k bech32_classify_iff [of ?chk enc] by auto
  have len: "length b = 6"
    using arg_cong [OF b, of length] by (simp add: bech32_checksum_def)
  have sep: "49 \<notin> set suf" using va(2) vb(2) by (simp add: ab)
  have pre_ok: "pre \<noteq> []" "\<forall>c\<in>set pre. hrp_char c"
    using hrp by (auto simp: hrp_ok_def tolower_c_hrp_char simp flip: pre)
  have suf_ok: "\<forall>c\<in>set suf. charset_value c \<noteq> -1"
    using neg [OF va(1)] neg [OF vb(1)] by (auto simp: ab)
  have "map charset_symbol8 (take (length suf - 6) suf) = data" by (simp add: ab len va8)
  moreover have "6 \<le> length suf" by (simp add: ab len)
  moreover have "7 \<le> length pre + length suf"
    using pre_ok(1) by (cases pre) (simp_all add: ab len)
  ultimately show ?thesis
    using bech32_decode_at_separator [OF sep, of pre max_input_len] mixed max pre_ok suf_ok
    unfolding input0 c pre cls Let_def by (simp add: enc)
qed
section \<open>Properties\<close>

lemma bech32_string_not_upper:
  assumes "hrp_ok hrp" and "symbols_ok data" and "c \<in> set (bech32_string k hrp data)"
  shows "\<not> is_upper_c c"
proof -
  have "\<not> is_upper_c 49" by (simp add: is_upper_c_iff)
  then show ?thesis
    using assms symbols_ok_checksum [of k hrp data]
    by (auto simp: bech32_string_def hrp_ok_def symbols_ok_def bech32_symbols_values)
qed

lemma mixed_case_hrp_ok: "hrp_ok hrp \<Longrightarrow> symbols_ok data \<Longrightarrow> \<not> mixed_case (bech32_string k hrp data)"
  using bech32_string_not_upper by (auto simp: mixed_case_def)

lemma map_tolower_bech32_string:
  "hrp_ok hrp \<Longrightarrow> symbols_ok data \<Longrightarrow> map tolower_c (bech32_string k hrp data) = bech32_string k hrp data"
  by (intro map_idI) (simp add: tolower_c_def bech32_string_not_upper)

text \<open>C11 (refinement).  \<open>bech32_decode\<close> returns an encoding, a human-readable part and data
  exactly for the strings of 8 to \<open>max_input_len\<close> characters that are, up to case and not in
  mixed case, the BIP-173 (constant 1) or BIP-350 (constant 0x2bc830a3) string of that
  human-readable part and data: nothing else is accepted and nothing of that kind is refused.\<close>

theorem bech32_decode_iff:
  "bech32_decode input max_input_len = (enc, hrp, data) \<and> enc \<noteq> BECH32_ENCODING_NONE \<longleftrightarrow>
     (\<exists>k. bech32_final_constant enc = Done k \<and> map tolower_c input = bech32_string k hrp data) \<and>
     hrp \<noteq> [] \<and> hrp_ok hrp \<and> symbols_ok data \<and> \<not> mixed_case input \<and> length input \<le> max_input_len"
  (is "?dec \<longleftrightarrow> ?spec")
proof
  assume ?dec
  then show ?spec by (metis bech32_decode_sound)
next
  assume ?spec
  then show ?dec using bech32_decode_complete by (metis bech32_final_constant.simps(3) outcome.distinct(1))
qed

text \<open>C14 (round trip).  Every string that \<open>bech32_encode\<close> writes for a nonempty
  human-readable part is decoded, with the same length limit, to the encoding, the
  human-readable part and the data it was written from.\<close>

theorem bech32_encode_decode:
  assumes "bech32_encode hrp data max_input_len enc = Done (Some s)" and "hrp \<noteq> []"
  shows "bech32_decode s max_input_len = (enc, hrp, data)"
proof -
  have *: "hrp_ok hrp" "symbols_ok data" "length hrp + 7 + length data \<le> max_input_len"
    using assms(1) unfolding bech32_encode_eq by (auto split: if_splits)
  then obtain k where k: "bech32_final_constant enc = Done k" and s: "s = bech32_string k hrp data"
    using assms(1) unfolding bech32_encode_eq by (auto simp: bind_outcome_Done_iff)
  show ?thesis
    using bech32_decode_complete [OF k _ assms(2) *(1,2), of s] *
    by (simp add: s map_tolower_bech32_string mixed_case_hrp_ok length_bech32_string)
qed

lemma bech32_decode_at_separator_enc:
  assumes "49 \<notin> set suf" and "fst (bech32_decode (pre @ 49 # suf) m) = enc" and "enc \<noteq> BECH32_ENCODING_NONE"
  shows "bech32_final_constant enc = Done (polymod_feed bech32_polymod_step 1
      (hrp_expand (map tolower_c pre) @ map charset_symbol32 suf))"
    and "\<forall>c\<in>set suf. charset_value c \<noteq> -1"
    and "length (fst (snd (bech32_decode (pre @ 49 # suf) m))) = length pre"
proof -
  note * = assms(2,3) [unfolded bech32_decode_at_separator [OF assms(1)] Let_def]
  show "bech32_final_constant enc = Done (polymod_feed bech32_polymod_step 1
      (hrp_expand (map tolower_c pre) @ map charset_symbol32 suf))"
    by (rule bech32_classify_iff [THEN iffD1]) (use * in \<open>simp split: if_splits\<close>)
  show "\<forall>c\<in>set suf. charset_value c \<noteq> -1"
    "length (fst (snd (bech32_decode (pre @ 49 # suf) m))) = length pre"
    using * unfolding bech32_decode_at_separator [OF assms(1)] Let_def by (auto split: if_splits)
qed

text \<open>C15 (safety).  The checksum catches every substitution of one character behind the separator by
  another than the separator: a string that decodes, whatever its length, no longer decodes, with either encoding,
  once one character of its data part or checksum is replaced by another one other than \<open>1\<close> (a
  change of case apart).  A \<open>1\<close> would move the separator, and there are strings that stay valid then.\<close>

theorem bech32_single_substitution:
  assumes dec: "bech32_decode s m = (enc, hrp, data)" and enc: "enc \<noteq> BECH32_ENCODING_NONE"
    and i: "length hrp < i" "i < length s" and c: "c \<noteq> 49" "tolower_c c \<noteq> tolower_c (s ! i)"
  shows "fst (bech32_decode (s[i := c]) m) = BECH32_ENCODING_NONE"
proof (rule ccontr)
  define enc' where "enc' = fst (bech32_decode (s[i := c]) m)"
  assume "fst (bech32_decode (s[i := c]) m) \<noteq> BECH32_ENCODING_NONE"
  then have enc': "enc' \<noteq> BECH32_ENCODING_NONE" by (simp add: enc'_def)
  have err: "fst (bech32_decode (s[i := c]) m) = enc'" by (simp add: enc'_def)
  have "49 \<in> set s"
    using bech32_decode_no_separator [of s m] dec enc by auto
  then obtain pre suf where s: "s = pre @ 49 # suf" and suf: "49 \<notin> set suf"
    by (rule last_separator)
  note ok = bech32_decode_at_separator_enc [OF suf _ enc, of pre m, folded s, unfolded dec, simplified]
  define j where "j = i - Suc (length pre)"
  have j: "i = length pre + Suc j" "j < length suf"
    using i ok(3) by (auto simp: j_def s)
  then have upd: "s[i := c] = pre @ 49 # suf[j := c]" and sj: "s ! i = suf ! j"
    by (simp_all add: s list_update_append nth_append)
  have sep: "49 \<notin> set (suf[j := c])"
    using suf c(1) set_update_subset_insert [of suf j c] by auto
  note ok' = bech32_decode_at_separator_enc [OF sep err [unfolded upd] enc']
  let ?us = "hrp_expand (map tolower_c pre) @ map charset_symbol32 (take j suf)"
  let ?ys = "map charset_symbol32 (drop (Suc j) suf)"
  have v: "charset_value (suf ! j) \<noteq> -1" "charset_value c \<noteq> -1"
    using ok(2) ok'(2) j(2) by (auto simp: set_conv_nth)
  then have "charset_symbol32 (suf ! j) \<noteq> charset_symbol32 c"
    using charset_value_symbols(5) [OF v(1)] charset_value_symbols(5) [OF v(2)] c(2) sj by metis
  moreover have "\<forall>w\<in>set ?ys. symbol5 w"
    using ok(2) by (auto dest!: in_set_dropD simp: charset_value_symbols(4))
  moreover have "symbol5 (charset_symbol32 (suf ! j))" "symbol5 (charset_symbol32 c)"
    using v by (simp_all add: charset_value_symbols(4))
  ultimately have "bech32_final_constant enc = Done (polymod_feed bech32_polymod_step 1 (?us @ charset_symbol32 (suf ! j) # ?ys)) \<Longrightarrow>
      bech32_final_constant enc' \<noteq> Done (polymod_feed bech32_polymod_step 1 (?us @ charset_symbol32 c # ?ys))"
    by (intro single_error_constants)
  moreover have "map charset_symbol32 suf
      = map charset_symbol32 (take j suf) @ charset_symbol32 (suf ! j) # ?ys"
    by (subst id_take_nth_drop [OF j(2)]) simp
  moreover have "map charset_symbol32 (suf[j := c])
      = map charset_symbol32 (take j suf) @ charset_symbol32 c # ?ys"
    using j(2) by (subst upd_conv_take_nth_drop) simp_all
  ultimately show False
    using ok(1) ok'(1) by simp
qed

section \<open>Witnesses\<close>

lemma example_checksum: "bech32_checksum 1 (cs ''a'') [] = [10, 28, 25, 31, 20, 31]"
proof -
  have "hrp_high_symbol 97 = 3" "hrp_low_symbol 97 = 1"
    by (simp_all add: hrp_high_symbol_ascii hrp_low_symbol_def low5_ucast)
  moreover have "replicate 6 x = [x, x, x, x, x, x]" for x :: u32
    by (simp add: numeral_eq_Suc)
  ultimately show ?thesis
    by (simp add: bech32_checksum_def hrp_expand_def polymod_step_gens) (simp add: register_symbols_def upt_rec)
qed

lemma example_string: "bech32_string 1 (cs ''a'') [] = cs ''a12uel5l''"
  by (simp add: bech32_string_def example_checksum bech32_charset_def del: cs_simps) simp

lemma example_ok: "hrp_ok (cs ''a'')" "symbols_ok []" "cs ''a'' \<noteq> []"
  by (simp_all add: hrp_ok_def hrp_char_def is_upper_c_iff symbols_ok_def)

lemma example_decode:
  "bech32_decode (cs ''a12uel5l'') 90 = (BECH32_ENCODING_BECH32, cs ''a'', [])"
  using bech32_decode_complete [of BECH32_ENCODING_BECH32 1 "cs ''a12uel5l''" "cs ''a''" "[]" 90] example_ok
    map_tolower_bech32_string [of "cs ''a''" "[]" 1] mixed_case_hrp_ok [of "cs ''a''" "[]" 1]
  by (simp add: example_string del: cs_simps)

theorem bech32_encode_decode_witness:
  "bech32_encode (cs ''a'') [] 90 BECH32_ENCODING_BECH32 = Done (Some (cs ''a12uel5l''))
    \<and> bech32_decode (cs ''a12uel5l'') 90 = (BECH32_ENCODING_BECH32, cs ''a'', [])"
proof -
  have "bech32_encode (cs ''a'') [] 90 BECH32_ENCODING_BECH32 = Done (Some (cs ''a12uel5l''))"
    using example_ok by (simp add: bech32_encode_eq example_string del: cs_simps)
  moreover from bech32_encode_decode [OF this]
  have "bech32_decode (cs ''a12uel5l'') 90 = (BECH32_ENCODING_BECH32, cs ''a'', [])" by simp
  ultimately show ?thesis ..
qed

theorem bech32_single_substitution_witness:
  "bech32_decode (cs ''a12uel5l'') 90 = (BECH32_ENCODING_BECH32, cs ''a'', [])
    \<and> fst (bech32_decode (cs ''a1quel5l'') 90) = BECH32_ENCODING_NONE"
proof -
  have "fst (bech32_decode ((cs ''a12uel5l'')[2 := 113]) 90) = BECH32_ENCODING_NONE"
    by (rule bech32_single_substitution [OF example_decode]) (simp_all add: tolower_c_def is_upper_c_iff)
  then show ?thesis
    using example_decode by (simp add: numeral_2_eq_2)
qed

end
