(* ===== verification/Segwit.thy ===== *)
theory Segwit
  imports Bech32
begin

text \<open>
  The second half of \<open>bech32.c\<close>: \<open>bech32_convert_bits\<close>, which regroups a bit
  string from groups of \<open>inbits\<close> to groups of \<open>outbits\<close> bits, and the segwit
  addresses built on it.  The bytes written to \<open>out\<close> are a returned list.
  Both group widths are positive (the callers pass 5 and 8; for \<open>outbits = 0\<close> the inner
  C loop does not end, the model's guard \<open>0 < outbits\<close> is what makes it total).
\<close>

section \<open>Regrouping bits\<close>

text \<open>\<open>while (bits >= outbits) { bits -= outbits; out[(*outlen)++] = (val >> bits) & maxv; }\<close>\<close>

function convert_emit :: "nat \<Rightarrow> u32 \<Rightarrow> nat \<Rightarrow> u8 list \<times> nat" where
  "convert_emit outbits val bits =
     (if outbits \<le> bits \<and> 0 < outbits then
        let bits = bits - outbits;
            (out, rest) = convert_emit outbits val bits
        in (ucast (drop_bit bits val AND (push_bit outbits 1 - 1)) # out, rest)
      else ([], bits))"
  by pat_completeness auto
termination
  by (relation "measure (\<lambda>(outbits, val, bits). bits)") auto

declare convert_emit.simps [simp del]

fun convert_loop :: "nat \<Rightarrow> nat \<Rightarrow> u8 list \<Rightarrow> u32 \<Rightarrow> nat \<Rightarrow> u8 list \<times> u32 \<times> nat" where
  "convert_loop outbits inbits [] val bits = ([], val, bits)"
| "convert_loop outbits inbits (x # xs) val bits =
     (let val = push_bit inbits val OR ucast x;
          (out, bits) = convert_emit outbits val (bits + inbits);
          (out', val', bits') = convert_loop outbits inbits xs val bits
      in (out @ out', val', bits'))"

definition bech32_convert_bits :: "nat \<Rightarrow> u8 list \<Rightarrow> nat \<Rightarrow> bool \<Rightarrow> bool \<times> u8 list" where
  "bech32_convert_bits outbits inp inbits pad =
     (let maxv = push_bit outbits 1 - 1;
          (out, val, bits) = convert_loop outbits inbits inp 0 0
      in if pad then
           (True, if bits \<noteq> 0 then out @ [ucast (push_bit (outbits - bits) val AND maxv)] else out)
         else if push_bit (outbits - bits) val AND maxv \<noteq> 0 \<or> bits \<ge> inbits then (False, out)
         else (True, out))"

text \<open>The bits that a list of \<open>n\<close>-bit groups holds.\<close>

definition group_bits :: "nat \<Rightarrow> u8 list \<Rightarrow> bool list" where
  "group_bits n xs = concat (map (msb_bits n) xs)"

definition groups_ok :: "nat \<Rightarrow> u8 list \<Rightarrow> bool" where
  "groups_ok n xs \<longleftrightarrow> (\<forall>x\<in>set xs. take_bit n x = x)"

lemma group_bits_simps [simp]:
  "group_bits n [] = []" "group_bits n (x # xs) = msb_bits n x @ group_bits n xs"
  "group_bits n (xs @ ys) = group_bits n xs @ group_bits n ys"
  by (simp_all add: group_bits_def)

lemma groups_ok_simps [simp]:
  "groups_ok n []" "groups_ok n (x # xs) \<longleftrightarrow> take_bit n x = x \<and> groups_ok n xs"
  "groups_ok n (xs @ ys) \<longleftrightarrow> groups_ok n xs \<and> groups_ok n ys"
  by (auto simp: groups_ok_def)

lemma length_group_bits [simp]: "length (group_bits n xs) = n * length xs"
  by (simp add: group_bits_def)

lemma group_bits_inj:
  "length xs = length ys \<Longrightarrow> group_bits n xs = group_bits n ys \<Longrightarrow> groups_ok n xs \<Longrightarrow> groups_ok n ys \<Longrightarrow> xs = ys"
  unfolding group_bits_def groups_ok_def by (rule concat_msb_bits_inj)

lemma and_maxv: "w AND (push_bit n 1 - 1) = take_bit n (w :: u32)" "w AND (2 ^ n - 1) = take_bit n w"
  by (simp_all add: take_bit_eq_mask mask_eq_exp_minus_1 push_bit_eq_mult)

lemma groups_ok_ucast: "n \<le> 8 \<Longrightarrow> take_bit n (ucast (take_bit n (w :: u32)) :: u8) = ucast (take_bit n w)"
  by (rule bit_word_eqI) (auto simp: bit_simps)

lemma msb_bits_ucast: "n \<le> 8 \<Longrightarrow> msb_bits n (ucast (take_bit n (w :: u32)) :: u8) = msb_bits n w"
  by (auto simp: msb_bits_eq_iff msb_bits_def bit_simps)

lemma convert_emit_spec:
  assumes "0 < outbits" and "outbits \<le> 8" and "convert_emit outbits val bits = (out, rest)"
  shows "group_bits outbits out @ msb_bits rest val = msb_bits bits val \<and> groups_ok outbits out \<and> rest < outbits"
  using assms
proof (induction outbits val bits arbitrary: out rest rule: convert_emit.induct)
  case (1 outbits val bits)
  show ?case
  proof (cases "outbits \<le> bits")
    case True
    obtain out' where out: "convert_emit outbits val (bits - outbits) = (out', rest)"
        "out = ucast (take_bit outbits (drop_bit (bits - outbits) val)) # out'"
      using "1.prems" True by (simp add: convert_emit.simps [of _ _ bits] Let_def and_maxv split: prod.splits)
    with "1.IH" [OF _ refl "1.prems"(1,2) out(1)] True "1.prems"(1,2) show ?thesis
      using msb_bits_split [of "bits - outbits" bits val]
      by (simp add: msb_bits_ucast groups_ok_ucast)
  next
    case False
    then show ?thesis using "1.prems" by (simp add: convert_emit.simps [of _ _ bits])
  qed
qed

lemma convert_loop_spec:
  assumes "0 < outbits" and "outbits \<le> 8" and "inbits \<le> 8" and "bits < outbits" and "groups_ok inbits xs"
    and "convert_loop outbits inbits xs val bits = (out, val', bits')"
  shows "group_bits outbits out @ msb_bits bits' val' = msb_bits bits val @ group_bits inbits xs
    \<and> groups_ok outbits out \<and> bits' < outbits"
  using assms
proof (induction xs arbitrary: val bits out)
  case (Cons x xs)
  let ?val = "push_bit inbits val OR ucast x"
  have "take_bit inbits (ucast x :: u32) = ucast x"
    using Cons.prems(5) by (simp add: groups_ok_def flip: unsigned_take_bit_eq)
  then have "msb_bits (bits + inbits) ?val = msb_bits bits val @ msb_bits inbits (ucast x :: u32)"
    using Cons.prems by (subst msb_bits_push_or) auto
  moreover have "msb_bits inbits (ucast x :: u32) = msb_bits inbits x"
    using Cons.prems(3) by (auto simp: msb_bits_eq_iff msb_bits_def bit_simps)
  ultimately have v: "msb_bits (bits + inbits) ?val = msb_bits bits val @ msb_bits inbits x" by simp
  obtain out1 bits1 out2 where 1: "convert_emit outbits ?val (bits + inbits) = (out1, bits1)"
      "convert_loop outbits inbits xs ?val bits1 = (out2, val', bits')" "out = out1 @ out2"
    using Cons.prems(6) by (auto simp: Let_def split: prod.splits)
  note e = convert_emit_spec [OF Cons.prems(1,2) 1(1)]
  then show ?case
    using Cons.IH [OF Cons.prems(1-3) _ _ 1(2)] Cons.prems(5) v 1(3) by auto
qed simp

text \<open>The bits left in \<open>val\<close>, moved to the top of a group, are all zero.\<close>

lemma rest_zero_iff:
  assumes "bits < outbits" and "outbits \<le> 8"
  shows "take_bit outbits (push_bit (outbits - bits) (val :: u32)) = 0 \<longleftrightarrow> msb_bits bits val = replicate bits False"
proof -
  have "take_bit outbits (push_bit (outbits - bits) val) = 0 \<longleftrightarrow> (\<forall>i<bits. \<not> bit val i)"
  proof
    assume *: "take_bit outbits (push_bit (outbits - bits) val) = 0"
    show "\<forall>i<bits. \<not> bit val i"
    proof (intro allI impI)
      fix i assume "i < bits"
      moreover have "\<not> bit (take_bit outbits (push_bit (outbits - bits) val)) (i + (outbits - bits))"
        using * by simp
      ultimately show "\<not> bit val i" using assms by (auto simp: bit_simps)
    qed
  next
    assume "\<forall>i<bits. \<not> bit val i"
    then show "take_bit outbits (push_bit (outbits - bits) val) = 0"
      using assms by (intro bit_word_eqI) (auto simp: bit_simps)
  qed
  also have "\<dots> \<longleftrightarrow> msb_bits bits val = replicate bits False"
    unfolding msb_bits_0_word [where 'a = 32, symmetric] msb_bits_eq_iff by simp
  finally show ?thesis .
qed

lemma msb_bits_push_rest:
  assumes "bits \<le> outbits" and "outbits \<le> 8"
  shows "msb_bits outbits (push_bit (outbits - bits) (val :: u32)) = msb_bits bits val @ replicate (outbits - bits) False"
  using msb_bits_push_or [of "outbits - bits" "0 :: u32" outbits val] assms by (simp add: msb_bits_0_word)

lemma msb_bits_0_replicate: "msb_bits n (0 :: 'a::len word) @ xs = replicate n False @ xs"
  by (simp add: msb_bits_0_word)

text \<open>What \<open>bech32_convert_bits\<close> computes, with and without padding.\<close>

lemma convert_bits_pad:
  assumes "0 < outbits" and "outbits \<le> 8" and "inbits \<le> 8" and "groups_ok inbits inp"
    and "bech32_convert_bits outbits inp inbits True = (ok, out)"
  shows "ok" and "groups_ok outbits out"
    and "\<exists>k<outbits. group_bits outbits out = group_bits inbits inp @ replicate k False"
proof -
  obtain o1 val bits where l: "convert_loop outbits inbits inp 0 0 = (o1, val, bits)"
    by (cases "convert_loop outbits inbits inp 0 0") auto
  note * = convert_loop_spec [OF assms(1-3) assms(1) assms(4) l]
  have out: "ok" "out = (if bits \<noteq> 0 then o1 @ [ucast (take_bit outbits (push_bit (outbits - bits) val))] else o1)"
    using assms(5) by (auto simp: bech32_convert_bits_def l Let_def and_maxv split: if_splits)
  show "ok" by (rule out)
  show "groups_ok outbits out" using out(2) * assms(2) by (auto simp: groups_ok_ucast)
  show "\<exists>k<outbits. group_bits outbits out = group_bits inbits inp @ replicate k False"
  proof (cases "bits = 0")
    case True
    then show ?thesis using * out(2) assms(1) by (intro exI [of _ 0]) simp
  next
    case False
    then have "group_bits outbits out = group_bits inbits inp @ replicate (outbits - bits) False"
      using * out(2) assms(2)
      by (simp add: msb_bits_ucast msb_bits_push_rest flip: append_assoc)
    then show ?thesis using False assms(1) by (intro exI [of _ "outbits - bits"]) simp
  qed
qed

lemma convert_bits_nopad:
  assumes "0 < outbits" and "outbits \<le> 8" and "inbits \<le> 8" and "groups_ok inbits inp"
    and "bech32_convert_bits outbits inp inbits False = (ok, out)"
  shows "groups_ok outbits out"
    and "\<exists>rest. length rest < outbits \<and> group_bits inbits inp = group_bits outbits out @ rest \<and>
      (ok \<longleftrightarrow> length rest < inbits \<and> (\<forall>b\<in>set rest. \<not> b))"
proof -
  obtain o1 val bits where l: "convert_loop outbits inbits inp 0 0 = (o1, val, bits)"
    by (cases "convert_loop outbits inbits inp 0 0") auto
  note * = convert_loop_spec [OF assms(1-3) assms(1) assms(4) l]
  then have bits: "bits < outbits" by blast
  have out: "out = o1" "ok \<longleftrightarrow> \<not> (take_bit outbits (push_bit (outbits - bits) val) \<noteq> 0 \<or> bits \<ge> inbits)"
    using assms(5) by (auto simp: bech32_convert_bits_def l Let_def and_maxv split: if_splits)
  show "groups_ok outbits out" using out(1) * by simp
  have "msb_bits bits val = replicate bits False \<longleftrightarrow> (\<forall>b\<in>set (msb_bits bits val). \<not> b)"
    by (auto simp: list_eq_iff_nth_eq in_set_conv_nth)
  then show "\<exists>rest. length rest < outbits \<and> group_bits inbits inp = group_bits outbits out @ rest \<and>
      (ok \<longleftrightarrow> length rest < inbits \<and> (\<forall>b\<in>set rest. \<not> b))"
    using * out rest_zero_iff [OF bits assms(2)] by (intro exI [of _ "msb_bits bits val"]) auto
qed

text \<open>Bytes to five-bit groups and back, in both directions.\<close>

lemma groups_ok_8 [simp]: "groups_ok 8 xs"
  using take_bit_word_eq_self [where 'a = 8] by (simp add: groups_ok_def)

lemma convert_bits_8_5:
  assumes "bech32_convert_bits 5 bytes 8 True = (ok, grps)"
  shows "bech32_convert_bits 8 grps 5 False = (True, bytes)"
proof -
  obtain k where k: "k < 5" "group_bits 5 grps = group_bits 8 bytes @ replicate k False" "groups_ok 5 grps"
    using convert_bits_pad [of 5 8 bytes, OF _ _ _ _ assms] by auto
  obtain ok' out where r: "bech32_convert_bits 8 grps 5 False = (ok', out)"
    by (cases "bech32_convert_bits 8 grps 5 False")
  obtain rest where rest: "length rest < 8" "group_bits 5 grps = group_bits 8 out @ rest"
      "ok' \<longleftrightarrow> length rest < 5 \<and> (\<forall>b\<in>set rest. \<not> b)"
    using convert_bits_nopad(2) [of 8 5 grps, OF _ _ _ k(3) r] by auto
  have "8 * length bytes + k = 8 * length out + length rest"
    using arg_cong [OF k(2), of length] arg_cong [OF rest(2), of length] by simp
  then have len: "length bytes = length out" "k = length rest" using k(1) rest(1) by presburger+
  then have "group_bits 8 bytes = group_bits 8 out" "rest = replicate k False"
    using k(2) rest(2) by (simp_all add: append_eq_append_conv)
  moreover from this have "\<forall>b\<in>set rest. \<not> b" by (metis in_set_replicate)
  ultimately show ?thesis
    using group_bits_inj [of bytes out 8] len rest(3) k(1) r by simp
qed

lemma same_group: "5 * a + k = 5 * b + r \<Longrightarrow> k < 5 \<Longrightarrow> r < 5 \<Longrightarrow> a = b \<and> k = r" for a b k r :: nat
  by arith

lemma convert_bits_5_8:
  assumes "bech32_convert_bits 8 grps 5 False = (True, bytes)" and "groups_ok 5 grps"
  shows "bech32_convert_bits 5 bytes 8 True = (True, grps)"
proof -
  have "\<exists>rest. length rest < 8 \<and> group_bits 5 grps = group_bits 8 bytes @ rest \<and>
      (True \<longleftrightarrow> length rest < 5 \<and> (\<forall>b\<in>set rest. \<not> b))"
    by (rule convert_bits_nopad(2) [OF _ _ _ assms(2,1)]) simp_all
  then obtain rest where rest: "group_bits 5 grps = group_bits 8 bytes @ rest" "length rest < 5" "\<forall>b\<in>set rest. \<not> b"
    by blast
  obtain ok out where r: "bech32_convert_bits 5 bytes 8 True = (ok, out)"
    by (cases "bech32_convert_bits 5 bytes 8 True")
  obtain k where k: "k < 5" "group_bits 5 out = group_bits 8 bytes @ replicate k False" "groups_ok 5 out" "ok"
    using convert_bits_pad [of 5 8 bytes, OF _ _ _ _ r] by auto
  have "5 * length grps + k = 5 * length out + length rest"
    using arg_cong [OF k(2), of length] arg_cong [OF rest(1), of length] by simp
  from same_group [OF this k(1) rest(2)] have len: "length grps = length out" "k = length rest" by simp_all
  have "replicate (length rest) False = rest"
    by (rule replicate_length_same) (use rest(3) in simp)
  then have "rest = replicate k False" unfolding len(2) by (rule sym)
  then have "group_bits 5 grps = group_bits 5 out" unfolding rest(1) k(2) by (rule arg_cong)
  then have "grps = out" by (rule group_bits_inj [OF len(1) _ assms(2) k(3)])
  then show ?thesis using k(4) r by simp
qed

lemma length_convert_bits_8_5:
  assumes "bech32_convert_bits 5 bytes 8 True = (ok, grps)"
  shows "length grps = (8 * length bytes + 4) div 5"
proof -
  obtain k where k: "k < 5" "group_bits 5 grps = group_bits 8 bytes @ replicate k False"
    using convert_bits_pad [of 5 8 bytes, OF _ _ _ _ assms] by auto
  have "5 * length grps = 8 * length bytes + k"
    using arg_cong [OF k(2), of length] by simp
  with k(1) show ?thesis by linarith
qed

lemma length_convert_bits_5_8:
  assumes "bech32_convert_bits 8 grps 5 False = (ok, bytes)" and "groups_ok 5 grps"
  shows "length bytes = 5 * length grps div 8"
proof -
  obtain rest where rest: "length rest < 8" "group_bits 5 grps = group_bits 8 bytes @ rest"
    using convert_bits_nopad(2) [of 8 5 grps, OF _ _ _ assms(2,1)] by auto
  have "5 * length grps = 8 * length bytes + length rest"
    using arg_cong [OF rest(2), of length] by simp
  with rest(1) show ?thesis by linarith
qed

section \<open>Segwit addresses\<close>

definition segwit_addr_encode :: "cstr \<Rightarrow> int \<Rightarrow> u8 list \<Rightarrow> cstr option outcome" where
  "segwit_addr_encode hrp witver witprog =
     (if witver > 16 then Done None
      else if witver = 0 \<and> length witprog \<noteq> 20 \<and> length witprog \<noteq> 32 then Done None
      else if length witprog < 2 \<or> length witprog > 40 then Done None
      else
        let enc = (if witver > 0 then BECH32_ENCODING_BECH32M else BECH32_ENCODING_BECH32);
            data = word_of_int witver # snd (bech32_convert_bits 5 witprog 8 True)
        in bech32_encode hrp data 90 enc)"

text \<open>\<open>strncmp (a, b, n) == 0\<close> for strings without their terminating NUL.\<close>

definition strncmp_eq :: "nat \<Rightarrow> cstr \<Rightarrow> cstr \<Rightarrow> bool" where
  "strncmp_eq n a b \<longleftrightarrow> take n a = take n b"

definition segwit_addr_decode :: "cstr \<Rightarrow> cstr \<Rightarrow> (int \<times> u8 list) option" where
  "segwit_addr_decode hrp addr =
     (let (enc, hrp_actual, data) = bech32_decode addr 90
      in if enc = BECH32_ENCODING_NONE then None
         else if length data = 0 \<or> length data > 65 then None
         else if \<not> strncmp_eq 84 hrp hrp_actual then None
         else if data ! 0 > 16 then None
         else if data ! 0 = 0 \<and> enc \<noteq> BECH32_ENCODING_BECH32 then None
         else if data ! 0 > 0 \<and> enc \<noteq> BECH32_ENCODING_BECH32M then None
         else let (ok, witdata) = bech32_convert_bits 8 (drop 1 data) 5 False
              in if \<not> ok then None
                 else if length witdata < 2 \<or> length witdata > 40 then None
                 else if data ! 0 = 0 \<and> length witdata \<noteq> 20 \<and> length witdata \<noteq> 32 then None
                 else Some (uint (data ! 0), witdata))"

text \<open>
  The buffers: \<open>data\<close> has 65 bytes in the encoder and 84 in the decoder, which also has
  84 for \<open>hrp_actual\<close> and 40 for the program, written before its length is checked.
\<close>

lemma segwit_encode_fits:
  "length witprog \<le> 40 \<Longrightarrow> 1 + length (snd (bech32_convert_bits 5 witprog 8 True)) \<le> 65"
  using length_convert_bits_8_5 [of witprog] by (cases "bech32_convert_bits 5 witprog 8 True") simp

lemma segwit_decode_fits:
  assumes "bech32_decode addr 90 = (enc, hrp, data)" and "enc \<noteq> BECH32_ENCODING_NONE"
  shows "length hrp + 1 \<le> 84" and "length data \<le> 84"
    and "length data \<le> 65 \<Longrightarrow> length (snd (bech32_convert_bits 8 (drop 1 data) 5 False)) \<le> 40"
proof -
  obtain k where "map tolower_c addr = bech32_string k hrp data" "symbols_ok data" "length addr \<le> 90" "hrp \<noteq> []"
    using bech32_decode_sound [OF assms] by metis
  moreover from this have len: "length hrp + 7 + length data \<le> 90"
    by (metis length_map length_bech32_string)
  ultimately have ok: "groups_ok 5 (drop 1 data)"
    unfolding groups_ok_def symbols_ok_def by (metis in_set_dropD)
  show "length hrp + 1 \<le> 84" "length data \<le> 84" using len by auto
  show "length (snd (bech32_convert_bits 8 (drop 1 data) 5 False)) \<le> 40" if "length data \<le> 65"
    using length_convert_bits_5_8 [OF _ ok] that
    by (cases "bech32_convert_bits 8 (drop 1 data) 5 False") simp
qed


text \<open>What the decoder accepts, in terms of \<open>bech32_decode\<close>.\<close>

definition witness_lengths_ok :: "int \<Rightarrow> u8 list \<Rightarrow> bool" where
  "witness_lengths_ok v prog \<longleftrightarrow> 0 \<le> v \<and> v \<le> 16 \<and> 2 \<le> length prog \<and> length prog \<le> 40 \<and>
     (v = 0 \<longrightarrow> length prog = 20 \<or> length prog = 32)"

definition witness_encoding :: "int \<Rightarrow> bech32_encoding" where
  "witness_encoding v = (if v > 0 then BECH32_ENCODING_BECH32M else BECH32_ENCODING_BECH32)"

lemma uint_word_of_version: "0 \<le> v \<Longrightarrow> v \<le> 16 \<Longrightarrow> uint (word_of_int v :: u8) = v"
  by (simp add: unsigned_of_int take_bit_int_eq_self_iff)

lemma version_word_iff:
  "(w :: u8) > 16 \<longleftrightarrow> uint w > 16" "w = 0 \<longleftrightarrow> uint w = 0" "w > 0 \<longleftrightarrow> uint w > 0"
  by (simp_all add: word_less_def word_uint_eq_iff)

lemma segwit_addr_encode_valid:
  assumes "witness_lengths_ok v prog"
  shows "segwit_addr_encode hrp v prog = bech32_encode hrp
     (word_of_int v # snd (bech32_convert_bits 5 prog 8 True)) 90 (witness_encoding v)"
  using assms by (auto simp: segwit_addr_encode_def witness_lengths_ok_def witness_encoding_def Let_def)

lemma segwit_addr_decode_Some:
  assumes "length hrp < 84"
  shows "segwit_addr_decode hrp addr = Some (v, prog) \<longleftrightarrow>
    (\<exists>grps. bech32_decode addr 90 = (witness_encoding v, hrp, word_of_int v # grps) \<and>
       witness_lengths_ok v prog \<and> bech32_convert_bits 8 grps 5 False = (True, prog) \<and> length grps \<le> 64)"
  (is "_ \<longleftrightarrow> ?spec")
proof -
  obtain enc hrp' data where d: "bech32_decode addr 90 = (enc, hrp', data)"
    by (cases "bech32_decode addr 90")
  show ?thesis
  proof
    assume dec: "segwit_addr_decode hrp addr = Some (v, prog)"
    then have enc: "enc \<noteq> BECH32_ENCODING_NONE" and cmp: "strncmp_eq 84 hrp hrp'" and "data \<noteq> []"
      by (auto simp: segwit_addr_decode_def d split: if_splits)
    then obtain w grps where data: "data = w # grps" by (cases data) auto
    have "length hrp' < 84" using segwit_decode_fits(1) [OF d enc] by simp
    then have hrp: "hrp' = hrp" using cmp assms by (simp add: strncmp_eq_def)
    have *: "v = uint w" "\<not> w > 16" "w = 0 \<longrightarrow> enc = BECH32_ENCODING_BECH32" "w > 0 \<longrightarrow> enc = BECH32_ENCODING_BECH32M"
        "bech32_convert_bits 8 grps 5 False = (True, prog)" "length grps \<le> 64" "2 \<le> length prog" "length prog \<le> 40"
        "w = 0 \<longrightarrow> length prog = 20 \<or> length prog = 32"
      using dec by (auto simp: segwit_addr_decode_def d data split: if_splits prod.splits)
    moreover have "0 < uint w \<longleftrightarrow> uint w \<noteq> 0" by (simp add: less_le)
    ultimately have "witness_lengths_ok v prog" "enc = witness_encoding v" "word_of_int v = w"
      by (auto simp: witness_lengths_ok_def witness_encoding_def version_word_iff word_neq_0_conv)
    then show ?spec using * d data hrp by auto
  next
    assume ?spec
    then show "segwit_addr_decode hrp addr = Some (v, prog)"
      by (auto simp: segwit_addr_decode_def witness_lengths_ok_def witness_encoding_def strncmp_eq_def
          version_word_iff uint_word_of_version)
  qed
qed

section \<open>Properties\<close>

text \<open>C18 (refinement).  For an expected prefix of fewer than 84 characters,
  \<open>segwit_addr_decode\<close> returns a version and a program exactly when the address, up to case
  and not in mixed case, is the one \<open>segwit_addr_encode\<close> writes for them: the decoder
  accepts every address of the encoder and nothing else, and the two are inverse.\<close>

theorem segwit_addr_decode_iff:
  assumes "length hrp < 84"
  shows "segwit_addr_decode hrp addr = Some (v, prog) \<longleftrightarrow>
    segwit_addr_encode hrp v prog = Done (Some (map tolower_c addr)) \<and>
    0 \<le> v \<and> hrp \<noteq> [] \<and> \<not> mixed_case addr"
proof
  assume "segwit_addr_decode hrp addr = Some (v, prog)"
  then obtain grps where d: "bech32_decode addr 90 = (witness_encoding v, hrp, word_of_int v # grps)"
    and v: "witness_lengths_ok v prog" and c: "bech32_convert_bits 8 grps 5 False = (True, prog)"
    unfolding segwit_addr_decode_Some [OF assms] by blast
  have "witness_encoding v \<noteq> BECH32_ENCODING_NONE" by (simp add: witness_encoding_def)
  from bech32_decode_sound [OF d this]
  obtain k where k: "bech32_final_constant (witness_encoding v) = Done k"
    "map tolower_c addr = bech32_string k hrp (word_of_int v # grps)"
    "hrp \<noteq> []" "hrp_ok hrp" "symbols_ok (word_of_int v # grps)" "\<not> mixed_case addr" "length addr \<le> 90" by metis
  have "bech32_convert_bits 5 prog 8 True = (True, grps)"
    using c k(5) by (intro convert_bits_5_8) (simp_all add: groups_ok_def symbols_ok_def)
  moreover have "length hrp + 7 + length (word_of_int v # grps) \<le> 90"
    using k(2,7) by (metis length_map length_bech32_string)
  ultimately show "segwit_addr_encode hrp v prog = Done (Some (map tolower_c addr)) \<and> 0 \<le> v \<and> hrp \<noteq> [] \<and> \<not> mixed_case addr"
    using k v by (simp add: segwit_addr_encode_valid bech32_encode_eq witness_lengths_ok_def)
next
  assume *: "segwit_addr_encode hrp v prog = Done (Some (map tolower_c addr)) \<and> 0 \<le> v \<and> hrp \<noteq> [] \<and> \<not> mixed_case addr"
  then have v: "witness_lengths_ok v prog"
    by (auto simp: segwit_addr_encode_def witness_lengths_ok_def split: if_splits)
  obtain ok grps where c: "bech32_convert_bits 5 prog 8 True = (ok, grps)"
    by (cases "bech32_convert_bits 5 prog 8 True")
  let ?data = "word_of_int v # grps :: u8 list"
  have e: "bech32_encode hrp ?data 90 (witness_encoding v) = Done (Some (map tolower_c addr))"
    using * v c by (simp add: segwit_addr_encode_valid)
  then have ok: "hrp_ok hrp" "symbols_ok ?data" "length hrp + 7 + length ?data \<le> 90"
    unfolding bech32_encode_eq by (auto split: if_splits)
  obtain k where k: "bech32_final_constant (witness_encoding v) = Done k"
    "map tolower_c addr = bech32_string k hrp ?data"
    using e ok unfolding bech32_encode_eq by (auto simp: bind_outcome_Done_iff)
  have "length addr \<le> 90" using ok(3) arg_cong [OF k(2), of length] by (simp add: length_bech32_string)
  then have "bech32_decode addr 90 = (witness_encoding v, hrp, ?data)"
    using * k ok by (intro bech32_decode_complete [OF k]) auto
  moreover have "length grps \<le> 64"
    using segwit_encode_fits [of prog] v c by (simp add: witness_lengths_ok_def)
  ultimately show "segwit_addr_decode hrp addr = Some (v, prog)"
    unfolding segwit_addr_decode_Some [OF assms] using v convert_bits_8_5 [OF c] by blast
qed

section \<open>Witness\<close>

lemma example_groups: "snd (bech32_convert_bits 5 [0x75, 0x1e] 8 True) = [14, 20, 15, 0]"
  by (simp add: bech32_convert_bits_def convert_emit.simps Let_def)

lemma example_segwit_checksum:
  "bech32_checksum 0x2bc830a3 (cs ''bc'') [16, 14, 20, 15, 0] = [8, 13, 2, 10, 20, 18]"
proof -
  have "map hrp_high_symbol (cs ''bc'') = [3, 3]" "map hrp_low_symbol (cs ''bc'') = [2, 3]"
    by (simp_all add: hrp_high_symbol_ascii hrp_low_symbol_def low5_ucast)
  moreover have "replicate 6 x = [x, x, x, x, x, x]" for x :: u32
    by (simp add: numeral_eq_Suc)
  ultimately show ?thesis
    by (simp add: bech32_checksum_def hrp_expand_def polymod_step_gens del: cs_simps) (simp add: register_symbols_def upt_rec)
qed

lemma example_segwit_encode:
  "segwit_addr_encode (cs ''bc'') 16 [0x75, 0x1e] = Done (Some (map tolower_c (cs ''BC1SW50QGDZ25J'')))"
proof -
  have "hrp_ok (cs ''bc'')" "symbols_ok [16, 14, 20, 15, 0]"
    by (simp_all add: hrp_ok_def hrp_char_def is_upper_c_iff symbols_ok_def)
  moreover have "bech32_string 0x2bc830a3 (cs ''bc'') [16, 14, 20, 15, 0] = map tolower_c (cs ''BC1SW50QGDZ25J'')"
    by (simp add: bech32_string_def example_segwit_checksum del: cs_simps)
       (simp add: bech32_charset_def tolower_c_def is_upper_c_iff)
  ultimately show ?thesis
    by (simp add: segwit_addr_encode_valid witness_lengths_ok_def witness_encoding_def example_groups bech32_encode_eq
        del: cs_simps)
qed

lemma segwit_addr_decode_iff_witness:
  "segwit_addr_decode (cs ''bc'') (cs ''BC1SW50QGDZ25J'') = Some (16, [0x75, 0x1e])"
proof -
  have "\<not> mixed_case (cs ''BC1SW50QGDZ25J'')"
    by (simp add: mixed_case_def ctype_iff)
  moreover have "cs ''bc'' \<noteq> []" by simp
  ultimately show ?thesis
    using segwit_addr_decode_iff [of "cs ''bc''" "cs ''BC1SW50QGDZ25J''" 16 "[0x75, 0x1e]"] example_segwit_encode
    by (simp del: cs_simps)
qed

end
