(* ===== verification/Utf8.thy ===== *)
theory Utf8
  imports Prelude
begin

text \<open>
  \<open>utf8.c\<close>: the incremental decoder \<open>utf8_decode\<close> with its \<open>errno\<close>, the
  encoder and \<open>utf8_check\<close>.  \<open>errno\<close> is a component of the state that the functions
  take and return.  The pure function \<open>utf8_next\<close> reads one point off a byte string; the
  decoder is shown to implement it, and it is the inverse of the encoder.
\<close>

datatype errno = ENONE | EINVAL | EFBIG | ERANGE

record utf8_state =
  total_len :: u16
  used_len :: u16
  point :: u32

definition UTF8_STATE_INIT :: utf8_state where
  "UTF8_STATE_INIT = \<lparr>total_len = 0, used_len = 0, point = 0\<rparr>"

section \<open>The code\<close>

text \<open>The label \<open>finished_decoding\<close>; the \<open>switch\<close> aborts on other lengths.\<close>

definition min_bits :: "u16 \<Rightarrow> nat outcome" where
  "min_bits len =
     (if len = 1 then Done 0 else if len = 2 then Done 7 else if len = 3 then Done 11
      else if len = 4 then Done 16 else Abort)"

definition finished_decoding :: "utf8_state \<Rightarrow> (bool \<times> utf8_state \<times> errno) outcome" where
  "finished_decoding st =
     (if point st = 0 \<or> point st > 0x10FFFF then Done (True, st, ERANGE)
      else if total_len st = 3 \<and> point st AND 0xFFFFF800 = 0xD800 then Done (True, st, ERANGE)
      else bind_outcome (min_bits (total_len st)) (\<lambda>n.
        if drop_bit n (point st) = 0 then Done (True, st, EFBIG) else Done (True, st, ENONE)))"

definition bad_encoding :: "utf8_state \<Rightarrow> (bool \<times> utf8_state \<times> errno) outcome" where
  "bad_encoding st = Done (True, st\<lparr>total_len := used_len st\<rparr>, EINVAL)"

definition utf8_decode :: "utf8_state \<Rightarrow> errno \<Rightarrow> u8 \<Rightarrow> (bool \<times> utf8_state \<times> errno) outcome" where
  "utf8_decode st errno c =
     (if used_len st = total_len st then
        let st = st\<lparr>used_len := 1\<rparr> in
        if c AND 0x80 = 0 then
          if c = 0 then bad_encoding st
          else finished_decoding (st\<lparr>total_len := 1, point := ucast c\<rparr>)
        else if c AND 0xE0 = 0xC0 then Done (False, st\<lparr>total_len := 2, point := ucast (c AND 0x1F)\<rparr>, errno)
        else if c AND 0xF0 = 0xE0 then Done (False, st\<lparr>total_len := 3, point := ucast (c AND 0x0F)\<rparr>, errno)
        else if c AND 0xF8 = 0xF0 then Done (False, st\<lparr>total_len := 4, point := ucast (c AND 0x07)\<rparr>, errno)
        else bad_encoding st
      else if c AND 0xC0 \<noteq> 0x80 then bad_encoding st
      else
        let st = st\<lparr>point := push_bit 6 (point st) OR ucast (c AND 0x3F), used_len := used_len st + 1\<rparr>
        in if used_len st = total_len st then finished_decoding st else Done (False, st, errno))"

text \<open>The bytes written to \<open>dest\<close>; none, with \<open>errno\<close> set, for an invalid point.\<close>

definition utf8_encode :: "u32 \<Rightarrow> errno \<Rightarrow> u8 list \<times> errno" where
  "utf8_encode pt errno =
     (if drop_bit 7 pt = 0 then
        if pt = 0 then ([], ERANGE) else ([ucast pt], errno)
      else if drop_bit 11 pt = 0 then
        ([ucast (0xC0 OR drop_bit 6 pt), ucast (0x80 OR (pt AND 0x3F))], errno)
      else if drop_bit 16 pt = 0 then
        if pt \<ge> 0xD800 \<and> pt \<le> 0xDFFF then ([], ERANGE)
        else ([ucast (0xE0 OR drop_bit 12 pt), ucast (0x80 OR (drop_bit 6 pt AND 0x3F)),
               ucast (0x80 OR (pt AND 0x3F))], errno)
      else if pt > 0x10FFFF then ([], ERANGE)
      else ([ucast (0xF0 OR drop_bit 18 pt), ucast (0x80 OR (drop_bit 12 pt AND 0x3F)),
             ucast (0x80 OR (drop_bit 6 pt AND 0x3F)), ucast (0x80 OR (pt AND 0x3F))], errno))"

fun utf8_check_loop :: "utf8_state \<Rightarrow> errno \<Rightarrow> bool \<Rightarrow> u8 list \<Rightarrow> bool outcome" where
  "utf8_check_loop st errno need_more [] = Done (\<not> need_more)"
| "utf8_check_loop st errno need_more (b # bs) =
     bind_outcome (utf8_decode st errno b) (\<lambda>(finished, st, errno).
       if \<not> finished then utf8_check_loop st errno True bs
       else if errno \<noteq> ENONE then Done False
       else utf8_check_loop st errno False bs)"

definition utf8_check :: "errno \<Rightarrow> u8 list \<Rightarrow> bool outcome" where
  "utf8_check errno buf = utf8_check_loop UTF8_STATE_INIT errno False buf"

section \<open>Bytes and points, bit by bit\<close>

lemma u8_masks:
  "(c :: u8) AND 0x80 = 0 \<longleftrightarrow> \<not> bit c 7"
  "c AND 0xE0 = 0xC0 \<longleftrightarrow> bit c 7 \<and> bit c 6 \<and> \<not> bit c 5"
  "c AND 0xF0 = 0xE0 \<longleftrightarrow> bit c 7 \<and> bit c 6 \<and> bit c 5 \<and> \<not> bit c 4"
  "c AND 0xF8 = 0xF0 \<longleftrightarrow> bit c 7 \<and> bit c 6 \<and> bit c 5 \<and> bit c 4 \<and> \<not> bit c 3"
  "c AND 0xC0 = 0x80 \<longleftrightarrow> bit c 7 \<and> \<not> bit c 6"
  by (auto simp: u8_eq_iff bit_simps)

lemma u32_eqI: "(\<And>n. n \<in> set [0..<32] \<Longrightarrow> bit x n = bit y n) \<Longrightarrow> x = (y :: u32)"
  by (rule bit_word_eqI) simp

lemma drop_bit_0_high: "drop_bit k p = 0 \<longleftrightarrow> (\<forall>n\<ge>k. \<not> bit (p :: u32) n)"
proof
  assume *: "drop_bit k p = 0"
  show "\<forall>n\<ge>k. \<not> bit p n"
  proof (intro allI impI)
    fix n assume "k \<le> n"
    moreover have "\<not> bit (drop_bit k p) (n - k)" using * by simp
    ultimately show "\<not> bit p n" by (simp add: bit_simps)
  qed
next
  assume "\<forall>n\<ge>k. \<not> bit p n"
  then show "drop_bit k p = 0" by (intro bit_word_eqI) (simp add: bit_simps)
qed

text \<open>The point that a sequence of two, three or four bytes holds.\<close>

definition add_cont :: "u32 \<Rightarrow> u8 \<Rightarrow> u32" where
  "add_cont p c = push_bit 6 p OR ucast (c AND 0x3F)"

definition point2 :: "u8 \<Rightarrow> u8 \<Rightarrow> u32" where
  "point2 a b = add_cont (ucast (a AND 0x1F)) b"

definition point3 :: "u8 \<Rightarrow> u8 \<Rightarrow> u8 \<Rightarrow> u32" where
  "point3 a b c = add_cont (add_cont (ucast (a AND 0x0F)) b) c"

definition point4 :: "u8 \<Rightarrow> u8 \<Rightarrow> u8 \<Rightarrow> u8 \<Rightarrow> u32" where
  "point4 a b c d = add_cont (add_cont (add_cont (ucast (a AND 0x07)) b) c) d"

definition lead2 :: "u32 \<Rightarrow> u8" where "lead2 p = ucast (0xC0 OR drop_bit 6 p)"
definition lead3 :: "u32 \<Rightarrow> u8" where "lead3 p = ucast (0xE0 OR drop_bit 12 p)"
definition lead4 :: "u32 \<Rightarrow> u8" where "lead4 p = ucast (0xF0 OR drop_bit 18 p)"
definition cont :: "u32 \<Rightarrow> u8" where "cont p = ucast (0x80 OR (p AND 0x3F))"

lemma add_cont_cont: "add_cont (drop_bit 6 p) (cont p) = p"
proof -
  have "cont p AND 0x3F = ucast (take_bit 6 p)"
    unfolding u8_eq_iff cont_def by (simp add: bit_simps)
  then have "(ucast (cont p AND 0x3F) :: u32) = take_bit 6 p"
    by (simp only:) (auto intro!: bit_word_eqI simp: bit_simps)
  then show ?thesis
    unfolding add_cont_def by (intro bit_word_eqI) (auto simp: bit_simps)
qed

lemma lead_bits:
  "drop_bit 11 p = 0 \<Longrightarrow> (ucast (lead2 p AND 0x1F) :: u32) = drop_bit 6 p"
  "drop_bit 16 p = 0 \<Longrightarrow> (ucast (lead3 p AND 0x0F) :: u32) = drop_bit 12 p"
  "drop_bit 21 p = 0 \<Longrightarrow> (ucast (lead4 p AND 0x07) :: u32) = drop_bit 18 p"
proof -
  have "lead2 p AND 0x1F = ucast (take_bit 5 (drop_bit 6 p))" "lead3 p AND 0x0F = ucast (take_bit 4 (drop_bit 12 p))"
    "lead4 p AND 0x07 = ucast (take_bit 3 (drop_bit 18 p))"
    unfolding u8_eq_iff lead2_def lead3_def lead4_def by (simp_all add: bit_simps)
  then have *: "(ucast (lead2 p AND 0x1F) :: u32) = take_bit 5 (drop_bit 6 p)"
    "(ucast (lead3 p AND 0x0F) :: u32) = take_bit 4 (drop_bit 12 p)"
    "(ucast (lead4 p AND 0x07) :: u32) = take_bit 3 (drop_bit 18 p)"
    by (simp_all only:) (auto intro!: bit_word_eqI simp: bit_simps)
  have "take_bit k (drop_bit m p) = drop_bit m p" if "drop_bit (m + k) p = 0" for k m
    using that by (simp add: take_bit_eq_self_iff_drop_bit_eq_0 add.commute)
  from this [of 6 5] this [of 12 4] this [of 18 3] *
  show "drop_bit 11 p = 0 \<Longrightarrow> (ucast (lead2 p AND 0x1F) :: u32) = drop_bit 6 p"
    "drop_bit 16 p = 0 \<Longrightarrow> (ucast (lead3 p AND 0x0F) :: u32) = drop_bit 12 p"
    "drop_bit 21 p = 0 \<Longrightarrow> (ucast (lead4 p AND 0x07) :: u32) = drop_bit 18 p"
    by simp_all
qed

lemma point_of_encoding:
  "drop_bit 11 p = 0 \<Longrightarrow> point2 (lead2 p) (cont p) = p"
  "drop_bit 16 p = 0 \<Longrightarrow> point3 (lead3 p) (cont (drop_bit 6 p)) (cont p) = p"
  "drop_bit 21 p = 0 \<Longrightarrow> point4 (lead4 p) (cont (drop_bit 12 p)) (cont (drop_bit 6 p)) (cont p) = p"
  using add_cont_cont [of p] add_cont_cont [of "drop_bit 6 p"] add_cont_cont [of "drop_bit 12 p"]
  by (simp_all add: point2_def point3_def point4_def lead_bits)

lemma encoding_of_point:
  "a AND 0xE0 = 0xC0 \<Longrightarrow> b AND 0xC0 = 0x80 \<Longrightarrow> lead2 (point2 a b) = a \<and> cont (point2 a b) = b"
  "a AND 0xF0 = 0xE0 \<Longrightarrow> b AND 0xC0 = 0x80 \<Longrightarrow> c AND 0xC0 = 0x80 \<Longrightarrow>
     lead3 (point3 a b c) = a \<and> cont (drop_bit 6 (point3 a b c)) = b \<and> cont (point3 a b c) = c"
  "a AND 0xF8 = 0xF0 \<Longrightarrow> b AND 0xC0 = 0x80 \<Longrightarrow> c AND 0xC0 = 0x80 \<Longrightarrow> d AND 0xC0 = 0x80 \<Longrightarrow>
     lead4 (point4 a b c d) = a \<and> cont (drop_bit 12 (point4 a b c d)) = b \<and>
     cont (drop_bit 6 (point4 a b c d)) = c \<and> cont (point4 a b c d) = d"
  unfolding u8_masks unfolding u8_eq_iff point2_def point3_def point4_def add_cont_def lead2_def lead3_def lead4_def cont_def
  by (simp_all add: bit_simps)

lemma lead_masks:
  "drop_bit 11 p = 0 \<Longrightarrow> lead2 p AND 0xE0 = 0xC0"
  "drop_bit 16 p = 0 \<Longrightarrow> lead3 p AND 0xF0 = 0xE0"
  "drop_bit 21 p = 0 \<Longrightarrow> lead4 p AND 0xF8 = 0xF0"
  "cont p AND 0xC0 = 0x80"
  unfolding drop_bit_0_high u8_masks lead2_def lead3_def lead4_def cont_def
  by (simp_all add: bit_simps)

section \<open>Valid points and their bytes\<close>

definition surrogate :: "u32 \<Rightarrow> bool" where
  "surrogate p \<longleftrightarrow> 0xD800 \<le> p \<and> p \<le> 0xDFFF"

definition unicode_point :: "u32 \<Rightarrow> bool" where
  "unicode_point p \<longleftrightarrow> p \<noteq> 0 \<and> p \<le> 0x10FFFF \<and> \<not> surrogate p"

definition utf8_bytes :: "u32 \<Rightarrow> u8 list" where
  "utf8_bytes p =
     (if drop_bit 7 p = 0 then [ucast p]
      else if drop_bit 11 p = 0 then [lead2 p, cont p]
      else if drop_bit 16 p = 0 then [lead3 p, cont (drop_bit 6 p), cont p]
      else [lead4 p, cont (drop_bit 12 p), cont (drop_bit 6 p), cont p])"

definition utf8_next :: "u8 list \<Rightarrow> (u32 \<times> u8 list) option" where
  "utf8_next bs =
     (case bs of
        [] \<Rightarrow> None
      | a # r \<Rightarrow>
          if a AND 0x80 = 0 then if a = 0 then None else Some (ucast a, r)
          else if a AND 0xE0 = 0xC0 then
            (case r of b # r \<Rightarrow>
               if b AND 0xC0 = 0x80 \<and> drop_bit 7 (point2 a b) \<noteq> 0 then Some (point2 a b, r) else None
             | _ \<Rightarrow> None)
          else if a AND 0xF0 = 0xE0 then
            (case r of b # c # r \<Rightarrow>
               if b AND 0xC0 = 0x80 \<and> c AND 0xC0 = 0x80 \<and> drop_bit 11 (point3 a b c) \<noteq> 0 \<and>
                  \<not> surrogate (point3 a b c)
               then Some (point3 a b c, r) else None
             | _ \<Rightarrow> None)
          else if a AND 0xF8 = 0xF0 then
            (case r of b # c # d # r \<Rightarrow>
               if b AND 0xC0 = 0x80 \<and> c AND 0xC0 = 0x80 \<and> d AND 0xC0 = 0x80 \<and>
                  drop_bit 16 (point4 a b c d) \<noteq> 0 \<and> point4 a b c d \<le> 0x10FFFF
               then Some (point4 a b c d, r) else None
             | _ \<Rightarrow> None)
          else None)"

lemma drop_bit_0_iff: "k < 32 \<Longrightarrow> drop_bit k (p :: u32) = 0 \<longleftrightarrow> unat p < 2 ^ k"
  unfolding take_bit_eq_self_iff_drop_bit_eq_0 [symmetric]
  by (simp add: word_unat_eq_iff unsigned_take_bit_eq take_bit_nat_eq_self_iff)

lemma point_ranges:
  "drop_bit 7 p = 0 \<longleftrightarrow> unat p < 128" "drop_bit 11 p = 0 \<longleftrightarrow> unat p < 2048"
  "drop_bit 16 p = 0 \<longleftrightarrow> unat p < 65536" "drop_bit 21 p = 0 \<longleftrightarrow> unat (p :: u32) < 2097152"
  using drop_bit_0_iff [of 7 p] drop_bit_0_iff [of 11 p] drop_bit_0_iff [of 16 p] drop_bit_0_iff [of 21 p]
  by simp_all

lemma surrogate_mask: "p AND 0xFFFFF800 = 0xD800 \<longleftrightarrow> surrogate p"
proof -
  have "p AND NOT (mask 11) = push_bit 11 (drop_bit 11 p)"
    by (intro bit_word_eqI) (auto simp: bit_simps)
  moreover have "(0xFFFFF800 :: u32) = - 2048" by simp
  ultimately have "p AND 0xFFFFF800 = push_bit 11 (drop_bit 11 p)"
    by (simp only: mask_eq_exp_minus_1) simp
  also have "\<dots> = 0xD800 \<longleftrightarrow> drop_bit 11 p = 27"
  proof
    assume *: "push_bit 11 (drop_bit 11 p) = 0xD800"
    have "drop_bit 11 p = drop_bit 11 (push_bit 11 (drop_bit 11 p))"
      by (intro bit_word_eqI) (auto simp: bit_simps dest: bit_imp_le_length)
    then show "drop_bit 11 p = 27" unfolding * by simp
  qed simp
  also have "\<dots> \<longleftrightarrow> unat p div 2048 = 27"
    by (simp add: word_unat_eq_iff drop_bit_eq_div unat_div)
  also have "\<dots> \<longleftrightarrow> surrogate p"
    unfolding surrogate_def word_le_nat_alt by simp linarith
  finally show ?thesis .
qed

lemma point_sizes: "drop_bit 11 (point2 a b) = 0" "drop_bit 16 (point3 a b c) = 0" "drop_bit 21 (point4 a b c d) = 0"
  unfolding point2_def point3_def point4_def add_cont_def
  by (rule u32_eqI; auto simp: upt_rec bit_simps)+

lemma point_order: "drop_bit 7 p = 0 \<Longrightarrow> drop_bit 11 (p :: u32) = 0" "drop_bit 11 p = 0 \<Longrightarrow> drop_bit 16 (p :: u32) = 0"
  by (simp_all add: point_ranges)

lemma ascii_point:
  assumes "(a :: u8) AND 0x80 = 0"
  shows "drop_bit 7 (ucast a :: u32) = 0" and "ucast (ucast a :: u32) = a"
proof -
  have "\<not> bit a n" if "7 \<le> n" for n
  proof
    assume "bit a n"
    then have "n < 8" using bit_imp_le_length by fastforce
    then have "n = 7" using that by simp
    then show False using assms \<open>bit a n\<close> by (simp add: u8_masks)
  qed
  then show "drop_bit 7 (ucast a :: u32) = 0" unfolding drop_bit_0_high by (simp add: bit_simps)
  show "ucast (ucast a :: u32) = a" by (rule bit_word_eqI) (simp add: bit_simps)
qed

lemma ascii_ucast:
  assumes "drop_bit 7 p = 0"
  shows "(ucast p :: u8) AND 0x80 = 0" and "ucast (ucast p :: u8) = (p :: u32)"
proof -
  have high: "\<not> bit p n" if "7 \<le> n" for n
    using assms that unfolding drop_bit_0_high by blast
  then show "(ucast p :: u8) AND 0x80 = 0" unfolding u8_masks by (simp add: bit_simps)
  show "ucast (ucast p :: u8) = p"
  proof (rule bit_word_eqI)
    fix n
    have "bit p n \<Longrightarrow> n < 8" using high [of n] by linarith
    then show "bit (ucast (ucast p :: u8) :: u32) n = bit p n"
      by (auto simp: bit_simps dest: bit_imp_le_length)
  qed
qed

lemma unicode_pointI:
  "drop_bit 7 p = 0 \<Longrightarrow> p \<noteq> 0 \<Longrightarrow> unicode_point p"
  "drop_bit 11 p = 0 \<Longrightarrow> drop_bit 7 p \<noteq> 0 \<Longrightarrow> unicode_point p"
  "drop_bit 16 p = 0 \<Longrightarrow> drop_bit 11 p \<noteq> 0 \<Longrightarrow> \<not> surrogate p \<Longrightarrow> unicode_point p"
  "drop_bit 16 p \<noteq> 0 \<Longrightarrow> p \<le> 0x10FFFF \<Longrightarrow> unicode_point p"
  unfolding unicode_point_def surrogate_def point_ranges word_le_nat_alt by auto

lemma utf8_next_sound:
  assumes "utf8_next bs = Some (p, r)"
  shows "unicode_point p" and "bs = utf8_bytes p @ r"
proof -
  have nz: "a \<noteq> 0 \<Longrightarrow> a AND 0x80 = 0 \<Longrightarrow> (ucast a :: u32) \<noteq> 0" for a :: u8
    using ascii_point(2) [of a] by auto
  show "unicode_point p"
    using assms unfolding utf8_next_def
    by (auto simp: point_sizes ascii_point(1) nz intro: unicode_pointI split: list.splits if_splits)
  show "bs = utf8_bytes p @ r"
    using assms unfolding utf8_next_def utf8_bytes_def
    by (auto simp: point_sizes ascii_point encoding_of_point point_order split: list.splits if_splits)
qed

lemma utf8_next_complete:
  assumes "unicode_point p"
  shows "utf8_next (utf8_bytes p @ r) = Some (p, r)"
proof -
  have 21: "drop_bit 21 p = 0"
    using assms by (simp add: unicode_point_def point_ranges word_le_nat_alt)
  have not2: "\<not> lead2 p AND 0x80 = 0" "\<not> lead3 p AND 0x80 = 0" "\<not> lead4 p AND 0x80 = 0"
    "\<not> lead3 p AND 0xE0 = 0xC0" "\<not> lead4 p AND 0xE0 = 0xC0" "\<not> lead4 p AND 0xF0 = 0xE0"
    unfolding u8_masks lead2_def lead3_def lead4_def by (simp_all add: bit_simps)
  have "drop_bit 7 p = 0 \<Longrightarrow> (ucast p :: u8) AND 0x80 = 0 \<and> (ucast p :: u8) \<noteq> 0 \<and> ucast (ucast p :: u8) = p"
    using assms ascii_ucast [of p] by (auto simp: unicode_point_def)
  then show ?thesis
    using assms not2 lead_masks [of p] lead_masks(4) point_of_encoding [of p] 21
    by (auto simp: utf8_next_def utf8_bytes_def unicode_point_def)
qed

section \<open>The decoder reads one point at a time\<close>

abbreviation fresh :: "utf8_state \<Rightarrow> bool" where
  "fresh st \<equiv> used_len st = total_len st"

lemma finished_decoding_eq:
  assumes "total_len st \<in> {1, 2, 3, 4}"
  shows "finished_decoding st = Done (True, st,
     if point st = 0 \<or> point st > 0x10FFFF \<or> total_len st = 3 \<and> surrogate (point st) then ERANGE
     else if drop_bit (if total_len st = 1 then 0 else if total_len st = 2 then 7 else if total_len st = 3 then 11 else 16)
               (point st) = 0 then EFBIG
     else ENONE)"
  using assms by (auto simp: finished_decoding_def min_bits_def surrogate_mask)

text \<open>The lead byte, on each of its classes.\<close>

lemma decode_lead:
  assumes "fresh st"
  shows "a AND 0x80 = 0 \<Longrightarrow> a \<noteq> 0 \<Longrightarrow>
      utf8_decode st e a = Done (True, st\<lparr>used_len := 1, total_len := 1, point := ucast a\<rparr>, ENONE)"
    and "a = 0 \<Longrightarrow> utf8_decode st e a = Done (True, st\<lparr>used_len := 1, total_len := 1\<rparr>, EINVAL)"
    and "a AND 0xE0 = 0xC0 \<Longrightarrow>
      utf8_decode st e a = Done (False, st\<lparr>used_len := 1, total_len := 2, point := ucast (a AND 0x1F)\<rparr>, e)"
    and "a AND 0xF0 = 0xE0 \<Longrightarrow>
      utf8_decode st e a = Done (False, st\<lparr>used_len := 1, total_len := 3, point := ucast (a AND 0x0F)\<rparr>, e)"
    and "a AND 0xF8 = 0xF0 \<Longrightarrow>
      utf8_decode st e a = Done (False, st\<lparr>used_len := 1, total_len := 4, point := ucast (a AND 0x07)\<rparr>, e)"
    and "a AND 0x80 \<noteq> 0 \<Longrightarrow> a AND 0xE0 \<noteq> 0xC0 \<Longrightarrow> a AND 0xF0 \<noteq> 0xE0 \<Longrightarrow> a AND 0xF8 \<noteq> 0xF0 \<Longrightarrow>
      utf8_decode st e a = Done (True, st\<lparr>used_len := 1, total_len := 1\<rparr>, EINVAL)"
proof -
  have excl: "a AND 0xE0 = 0xC0 \<Longrightarrow> a AND 0x80 \<noteq> 0" "a AND 0xF0 = 0xE0 \<Longrightarrow> a AND 0x80 \<noteq> 0 \<and> a AND 0xE0 \<noteq> 0xC0"
      "a AND 0xF8 = 0xF0 \<Longrightarrow> a AND 0x80 \<noteq> 0 \<and> a AND 0xE0 \<noteq> 0xC0 \<and> a AND 0xF0 \<noteq> 0xE0"
    unfolding u8_masks by auto
  have "ucast a \<noteq> (0 :: u32)" "\<not> (ucast a :: u32) > 0x10FFFF" if "a AND 0x80 = 0" "a \<noteq> 0"
    using that ascii_point [of a] by (auto simp: point_ranges word_less_nat_alt)
  then show "a AND 0x80 = 0 \<Longrightarrow> a \<noteq> 0 \<Longrightarrow>
      utf8_decode st e a = Done (True, st\<lparr>used_len := 1, total_len := 1, point := ucast a\<rparr>, ENONE)"
    using assms by (simp add: utf8_decode_def Let_def finished_decoding_eq)
  show "a = 0 \<Longrightarrow> utf8_decode st e a = Done (True, st\<lparr>used_len := 1, total_len := 1\<rparr>, EINVAL)"
    using assms by (simp add: utf8_decode_def Let_def bad_encoding_def)
qed (use assms in \<open>simp_all add: utf8_decode_def Let_def bad_encoding_def\<close>, unfold u8_masks, auto)

text \<open>A later byte of a sequence.\<close>

lemma decode_next:
  assumes "\<not> fresh st"
  shows "c AND 0xC0 \<noteq> 0x80 \<Longrightarrow> utf8_decode st e c = Done (True, st\<lparr>total_len := used_len st\<rparr>, EINVAL)"
    and "c AND 0xC0 = 0x80 \<Longrightarrow> used_len st + 1 \<noteq> total_len st \<Longrightarrow> utf8_decode st e c =
      Done (False, st\<lparr>point := add_cont (point st) c, used_len := used_len st + 1\<rparr>, e)"
    and "c AND 0xC0 = 0x80 \<Longrightarrow> used_len st + 1 = total_len st \<Longrightarrow> utf8_decode st e c =
      finished_decoding (st\<lparr>point := add_cont (point st) c, used_len := used_len st + 1\<rparr>)"
  using assms by (simp_all add: utf8_decode_def Let_def bad_encoding_def add_cont_def)

lemmas decode_steps = decode_lead decode_next finished_decoding_eq

lemma check_loop_two:
  assumes "fresh st" and "a AND 0xE0 = 0xC0"
  shows "utf8_check_loop st e False (a # r) =
    (case r of b # r' \<Rightarrow>
       if b AND 0xC0 = 0x80 \<and> drop_bit 7 (point2 a b) \<noteq> 0
       then utf8_check_loop (st\<lparr>total_len := 2, point := point2 a b, used_len := 2\<rparr>) ENONE False r'
       else Done False
     | _ \<Rightarrow> Done False)"
proof (cases r)
  case (Cons b r')
  have "\<not> point2 a b > 0x10FFFF" using point_sizes(1) [of a b] by (simp add: point_ranges word_less_nat_alt)
  moreover have "drop_bit 7 (point2 a b) \<noteq> 0 \<Longrightarrow> point2 a b \<noteq> 0" by auto
  ultimately show ?thesis using assms
    by (cases "b AND 0xC0 = 0x80") (auto simp: Cons decode_steps point2_def [symmetric])
qed (use assms in \<open>simp add: decode_steps\<close>)

lemma check_loop_three:
  assumes "fresh st" and "a AND 0xF0 = 0xE0"
  shows "utf8_check_loop st e False (a # r) =
    (case r of b # c # r' \<Rightarrow>
       if b AND 0xC0 = 0x80 \<and> c AND 0xC0 = 0x80 \<and> drop_bit 11 (point3 a b c) \<noteq> 0 \<and> \<not> surrogate (point3 a b c)
       then utf8_check_loop (st\<lparr>total_len := 3, point := point3 a b c, used_len := 3\<rparr>) ENONE False r'
       else Done False
     | _ \<Rightarrow> Done False)"
proof (cases r)
  case r: (Cons b r1)
  show ?thesis
  proof (cases r1)
    case Nil
    then show ?thesis using assms by (cases "b AND 0xC0 = 0x80") (simp_all add: r decode_steps)
  next
    case (Cons c r2)
    have "\<not> point3 a b c > 0x10FFFF" using point_sizes(2) [of a b c] by (simp add: point_ranges word_less_nat_alt)
    moreover have "drop_bit 11 (point3 a b c) \<noteq> 0 \<Longrightarrow> point3 a b c \<noteq> 0" by auto
    ultimately show ?thesis using assms
      by (cases "b AND 0xC0 = 0x80"; cases "c AND 0xC0 = 0x80") (auto simp: r Cons decode_steps point3_def [symmetric])
  qed
qed (use assms in \<open>simp add: decode_steps\<close>)

lemma check_loop_four:
  assumes "fresh st" and "a AND 0xF8 = 0xF0"
  shows "utf8_check_loop st e False (a # r) =
    (case r of b # c # d # r' \<Rightarrow>
       if b AND 0xC0 = 0x80 \<and> c AND 0xC0 = 0x80 \<and> d AND 0xC0 = 0x80 \<and>
          drop_bit 16 (point4 a b c d) \<noteq> 0 \<and> point4 a b c d \<le> 0x10FFFF
       then utf8_check_loop (st\<lparr>total_len := 4, point := point4 a b c d, used_len := 4\<rparr>) ENONE False r'
       else Done False
     | _ \<Rightarrow> Done False)"
proof (cases r)
  case r: (Cons b r1)
  show ?thesis
  proof (cases r1)
    case Nil
    then show ?thesis using assms by (cases "b AND 0xC0 = 0x80") (simp_all add: r decode_steps)
  next
    case r1: (Cons c r2)
    show ?thesis
    proof (cases r2)
      case Nil
      then show ?thesis using assms
        by (cases "b AND 0xC0 = 0x80"; cases "c AND 0xC0 = 0x80") (simp_all add: r r1 decode_steps)
    next
      case (Cons d r3)
      have "drop_bit 16 (point4 a b c d) \<noteq> 0 \<Longrightarrow> point4 a b c d \<noteq> 0" by auto
      then show ?thesis using assms
        by (cases "b AND 0xC0 = 0x80"; cases "c AND 0xC0 = 0x80"; cases "d AND 0xC0 = 0x80")
           (auto simp: r r1 Cons decode_steps point4_def [symmetric] not_le)
    qed
  qed
qed (use assms in \<open>simp add: decode_steps\<close>)

lemma lead_classes:
  "a AND 0xE0 = 0xC0 \<Longrightarrow> a AND 0x80 \<noteq> 0"
  "a AND 0xF0 = 0xE0 \<Longrightarrow> a AND 0x80 \<noteq> 0 \<and> a AND 0xE0 \<noteq> 0xC0"
  "a AND 0xF8 = 0xF0 \<Longrightarrow> a AND 0x80 \<noteq> 0 \<and> a AND 0xE0 \<noteq> 0xC0 \<and> (a :: u8) AND 0xF0 \<noteq> 0xE0"
  unfolding u8_masks by auto

lemma check_loop_step:
  assumes "fresh st"
  shows "utf8_check_loop st e False bs =
    (case utf8_next bs of None \<Rightarrow> Done (bs = [])
     | Some (p, r) \<Rightarrow> utf8_check_loop
         (let n = (if drop_bit 7 p = 0 then 1 else if drop_bit 11 p = 0 then 2 else if drop_bit 16 p = 0 then 3 else 4)
          in st\<lparr>total_len := n, point := p, used_len := n\<rparr>) ENONE False r)"
proof (cases bs)
  case Nil
  then show ?thesis by (simp add: utf8_next_def)
next
  case (Cons a r)
  consider "a = 0" | "a AND 0x80 = 0" "a \<noteq> 0" | "a AND 0xE0 = 0xC0" | "a AND 0xF0 = 0xE0" | "a AND 0xF8 = 0xF0"
    | "a AND 0x80 \<noteq> 0" "a AND 0xE0 \<noteq> 0xC0" "a AND 0xF0 \<noteq> 0xE0" "a AND 0xF8 \<noteq> 0xF0" by blast
  then show ?thesis
  proof cases
    case 2
    then show ?thesis using assms ascii_point(1) [of a]
      by (simp add: Cons utf8_next_def decode_lead Let_def)
         (rule arg_cong [where f = "\<lambda>s. utf8_check_loop s ENONE False r"], simp)
  next
    case 3
    then show ?thesis using lead_classes(1) [OF 3]
      unfolding Cons check_loop_two [OF assms 3] utf8_next_def
      by (auto simp: point_sizes Let_def split: list.splits)
  next
    case 4
    then show ?thesis using lead_classes(2) [OF 4]
      unfolding Cons check_loop_three [OF assms 4] utf8_next_def
      by (auto simp: point_sizes Let_def dest: point_order split: list.splits)
  next
    case 5
    then show ?thesis using lead_classes(3) [OF 5]
      unfolding Cons check_loop_four [OF assms 5] utf8_next_def
      by (auto simp: point_sizes Let_def dest: point_order split: list.splits)
  qed (use assms in \<open>auto simp: Cons utf8_next_def decode_lead\<close>)
qed

lemma check_loop_next:
  assumes "fresh st"
  shows "utf8_next bs = None \<Longrightarrow> utf8_check_loop st e False bs = Done (bs = [])"
    and "utf8_next bs = Some (p, r) \<Longrightarrow>
      (\<And>st' e'. fresh st' \<Longrightarrow> utf8_check_loop st' e' False r = X) \<Longrightarrow> utf8_check_loop st e False bs = X"
  using check_loop_step [OF assms, of e bs] by (simp_all add: Let_def)

section \<open>Properties\<close>

lemma utf8_encode_eq:
  "utf8_encode p e = (if unicode_point p then (utf8_bytes p, e) else ([], ERANGE))"
proof -
  have "drop_bit 7 p = 0 \<Longrightarrow> p \<le> 0x10FFFF \<and> \<not> surrogate p" "drop_bit 11 p = 0 \<Longrightarrow> p \<le> 0x10FFFF \<and> \<not> surrogate p"
    "drop_bit 16 p = 0 \<Longrightarrow> p \<le> 0x10FFFF" "drop_bit 16 p \<noteq> 0 \<Longrightarrow> \<not> surrogate p"
    "drop_bit 7 p \<noteq> 0 \<Longrightarrow> p \<noteq> 0"
    by (auto simp: point_ranges surrogate_def word_le_nat_alt)
  then show ?thesis
    by (auto simp: utf8_encode_def utf8_bytes_def unicode_point_def surrogate_def lead2_def lead3_def lead4_def cont_def)
qed

lemma check_loop_iff:
  "fresh st \<Longrightarrow> utf8_check_loop st e False bs =
     Done (\<exists>ps. (\<forall>p\<in>set ps. unicode_point p) \<and> bs = concat (map utf8_bytes ps))"
proof (induction "length bs" arbitrary: bs st e rule: less_induct)
  case less
  show ?case
  proof (cases "utf8_next bs")
    case None
    have "\<not> ((\<forall>p\<in>set ps. unicode_point p) \<and> bs = concat (map utf8_bytes ps))" if "bs \<noteq> []" for ps
      using None utf8_next_complete that by (cases ps) auto
    then have "(\<exists>ps. (\<forall>p\<in>set ps. unicode_point p) \<and> bs = concat (map utf8_bytes ps)) \<longleftrightarrow> bs = []"
      by (auto intro: exI [of _ "[]"])
    then show ?thesis using check_loop_next(1) [OF less.prems None] by auto
  next
    case (Some pr)
    obtain p r where pr: "pr = (p, r)" by (cases pr)
    note p = utf8_next_sound [OF Some [unfolded pr]]
    have "length r < length bs"
      using p(2) by (auto simp: utf8_bytes_def)
    then have IH: "utf8_check_loop st' e' False r =
        Done (\<exists>ps. (\<forall>p\<in>set ps. unicode_point p) \<and> r = concat (map utf8_bytes ps))" if "fresh st'" for st' e'
      using less.hyps that by blast
    have "(\<exists>ps. (\<forall>p\<in>set ps. unicode_point p) \<and> r = concat (map utf8_bytes ps))
      \<longleftrightarrow> (\<exists>ps. (\<forall>p\<in>set ps. unicode_point p) \<and> bs = concat (map utf8_bytes ps))" (is "?l \<longleftrightarrow> ?r")
    proof
      assume ?l
      then obtain ps where "\<forall>p\<in>set ps. unicode_point p" "r = concat (map utf8_bytes ps)" by blast
      with p show ?r by (intro exI [of _ "p # ps"]) simp
    next
      assume ?r
      then obtain ps where ps: "\<forall>p\<in>set ps. unicode_point p" "bs = concat (map utf8_bytes ps)" by blast
      show ?l
      proof (cases ps)
        case Nil
        then show ?thesis using ps(2) Some by (simp add: utf8_next_def)
      next
        case (Cons q qs)
        then have "utf8_next bs = Some (q, concat (map utf8_bytes qs))"
          using ps utf8_next_complete by simp
        then show ?thesis using Some pr ps(1) Cons by auto
      qed
    qed
    then show ?thesis
      using check_loop_next(2) [OF less.prems Some [unfolded pr] IH] by simp
  qed
qed

text \<open>C22 (refinement).  \<open>utf8_check\<close> never aborts and accepts exactly the byte strings
  that are the concatenation of encodings, as \<open>utf8_encode\<close> writes them, of points that are
  neither zero, nor surrogates, nor above 0x10FFFF; overlong and truncated sequences are refused.\<close>

theorem utf8_check_iff:
  "utf8_check e buf = Done (\<exists>ps. list_all unicode_point ps \<and>
     buf = concat (map (\<lambda>p. fst (utf8_encode p ENONE)) ps))"
proof -
  have "concat (map (\<lambda>p. fst (utf8_encode p ENONE)) ps) = concat (map utf8_bytes ps)"
    if "\<forall>p\<in>set ps. unicode_point p" for ps
    using that by (intro arg_cong [where f = concat] map_cong) (simp_all add: utf8_encode_eq)
  then show ?thesis
    unfolding utf8_check_def list_all_iff by (subst check_loop_iff) (auto simp: UTF8_STATE_INIT_def)
qed

text \<open>Feeding bytes to the decoder: the flags it returns, the state and \<open>errno\<close> it leaves.\<close>

fun utf8_feed :: "utf8_state \<Rightarrow> errno \<Rightarrow> u8 list \<Rightarrow> (bool list \<times> utf8_state \<times> errno) outcome" where
  "utf8_feed st e [] = Done ([], st, e)"
| "utf8_feed st e (c # rest) =
     bind_outcome (utf8_decode st e c) (\<lambda>(finished, st, e).
     bind_outcome (utf8_feed st e rest) (\<lambda>(flags, st, e). Done (finished # flags, st, e)))"

text \<open>C24 (round trip).  Fed the bytes that \<open>utf8_encode\<close> writes for a point, a decoder that
  is not inside a sequence reports completion on the last byte and only there, with
  \<open>errno\<close> 0, the point in its state, and is again outside a sequence.\<close>

theorem utf8_decode_encode:
  assumes "fst (utf8_encode p e) = bytes" and "bytes \<noteq> []" and "used_len st = total_len st"
  shows "\<exists>st'. utf8_feed st e0 bytes = Done (replicate (length bytes - 1) False @ [True], st', ENONE) \<and>
    point st' = p \<and> used_len st' = total_len st'"
proof -
  have p: "unicode_point p" and bytes: "bytes = utf8_bytes p"
    using assms(1,2) by (auto simp: utf8_encode_eq split: if_splits)
  have 21: "drop_bit 21 p = 0" and le: "\<not> p > 0x10FFFF" and nz: "p \<noteq> 0" "\<not> surrogate p"
    using p by (simp_all add: unicode_point_def point_ranges word_le_nat_alt not_less)
  note pt = point_of_encoding [of p, unfolded point2_def point3_def point4_def]
  have masks: "drop_bit 11 p = 0 \<Longrightarrow> lead2 p AND 0xE0 = 0xC0" "drop_bit 16 p = 0 \<Longrightarrow> lead3 p AND 0xF0 = 0xE0"
    "lead4 p AND 0xF8 = 0xF0" "cont q AND 0xC0 = 0x80" for q
    using lead_masks 21 by blast+
  consider "drop_bit 7 p = 0" | "drop_bit 7 p \<noteq> 0" "drop_bit 11 p = 0" | "drop_bit 11 p \<noteq> 0" "drop_bit 16 p = 0"
    | "drop_bit 16 p \<noteq> 0" by blast
  then show ?thesis
  proof cases
    case 1
    then have "(ucast p :: u8) AND 0x80 = 0" "(ucast p :: u8) \<noteq> 0" "ucast (ucast p :: u8) = p"
      using ascii_ucast [OF 1] nz by auto
    then show ?thesis using 1 assms(3) by (simp add: bytes utf8_bytes_def decode_steps)
  next
    case 2
    then show ?thesis using assms(3) masks nz le pt(1)
      by (simp add: bytes utf8_bytes_def decode_steps)
  next
    case 3
    then have "drop_bit 7 p \<noteq> 0" using point_order by blast
    then show ?thesis using 3 assms(3) masks nz le pt(2)
      by (simp add: bytes utf8_bytes_def decode_steps numeral_2_eq_2)
  next
    case 4
    then have "drop_bit 7 p \<noteq> 0" "drop_bit 11 p \<noteq> 0" using point_order by blast+
    then show ?thesis using 4 21 assms(3) masks nz le pt(3)
      by (simp add: bytes utf8_bytes_def decode_steps numeral_3_eq_3)
  qed
qed

theorem utf8_decode_encode_witness:
  "\<exists>st'. utf8_feed UTF8_STATE_INIT ENONE [0xE2, 0x82, 0xAC] = Done ([False, False, True], st', ENONE) \<and>
    point st' = 0x20AC \<and> used_len st' = total_len st'"
proof -
  have "fst (utf8_encode 0x20AC ENONE) = [0xE2, 0x82, 0xAC]"
    by (simp add: utf8_encode_def)
  from utf8_decode_encode [OF this, of UTF8_STATE_INIT ENONE] show ?thesis
    by (simp add: UTF8_STATE_INIT_def numeral_2_eq_2)
qed

end
