(* ===== verification/Endian.thy ===== *)
theory Endian
  imports Prelude
begin

text \<open>
  \<open>endian.h\<close>: byte swapping and the conversions between native, little-endian and
  big-endian integers.  The byte order of the machine (\<open>HAVE_LITTLE_ENDIAN\<close> of the absent
  \<open>config.h\<close>) is the parameter \<open>le\<close> of every conversion and of the representation of
  an integer in memory; the lemmas hold for both orders.
\<close>

section \<open>Integers in memory\<close>

text \<open>The bytes of an integer, least significant first, and as the machine stores them.\<close>

definition le_bytes :: "nat \<Rightarrow> 'a::len word \<Rightarrow> u8 list" where
  "le_bytes n w = map (\<lambda>i. ucast (drop_bit (8 * i) w)) [0..<n]"

definition be_bytes :: "nat \<Rightarrow> 'a::len word \<Rightarrow> u8 list" where
  "be_bytes n w = rev (le_bytes n w)"

definition mem_bytes :: "bool \<Rightarrow> nat \<Rightarrow> 'a::len word \<Rightarrow> u8 list" where
  "mem_bytes le n w = (if le then le_bytes n w else be_bytes n w)"

text \<open>Reading an integer back from memory.\<close>

primrec le_word :: "u8 list \<Rightarrow> 'a::len word" where
  "le_word [] = 0"
| "le_word (b # bs) = ucast b OR push_bit 8 (le_word bs)"

definition mem_word :: "bool \<Rightarrow> u8 list \<Rightarrow> 'a::len word" where
  "mem_word le bs = (if le then le_word bs else le_word (rev bs))"

lemma length_bytes [simp]: "length (le_bytes n w) = n" "length (be_bytes n w) = n" "length (mem_bytes le n w) = n"
  by (simp_all add: le_bytes_def be_bytes_def mem_bytes_def)

lemma le_bytes_Suc: "le_bytes (Suc n) w = ucast w # le_bytes n (drop_bit 8 w)"
  by (simp add: le_bytes_def map_upt_Suc add.commute del: upt_Suc)

lemma bit_le_word:
  "bit (le_word bs :: 'a::len word) n \<longleftrightarrow> n < LENGTH('a) \<and> n div 8 < length bs \<and> bit (bs ! (n div 8)) (n mod 8)"
proof (induction bs arbitrary: n)
  case (Cons b bs)
  show ?case
  proof (cases "n < 8")
    case True
    then show ?thesis by (auto simp: bit_simps)
  next
    case False
    then have "n div 8 = Suc ((n - 8) div 8)" "n mod 8 = (n - 8) mod 8" by (auto simp: le_div_geq le_mod_geq)
    moreover have "\<not> bit b n" using False bit_imp_le_length [of b n] by auto
    ultimately show ?thesis using False by (auto simp: bit_simps Cons.IH)
  qed
qed simp

lemma bit_nth_le_bytes: "i < n \<Longrightarrow> k < 8 \<Longrightarrow> bit (le_bytes n w ! i) k = bit w (8 * i + k)"
  by (simp add: le_bytes_def bit_simps add.commute)

lemma le_word_le_bytes:
  assumes "LENGTH('a) = 8 * n"
  shows "le_word (le_bytes n w) = (w :: 'a::len word)"
proof (rule bit_word_eqI)
  fix k assume "k < LENGTH('a)"
  then show "bit (le_word (le_bytes n w) :: 'a word) k = bit w k"
    using assms by (simp add: bit_le_word bit_nth_le_bytes less_mult_imp_div_less mult.commute)
qed

lemma le_bytes_le_word:
  assumes "LENGTH('a) = 8 * length bs"
  shows "le_bytes (length bs) (le_word bs :: 'a::len word) = bs"
proof (rule nth_equalityI)
  fix i assume "i < length (le_bytes (length bs) (le_word bs :: 'a word))"
  then have i: "i < length bs" by simp
  show "le_bytes (length bs) (le_word bs :: 'a word) ! i = bs ! i"
  proof (rule bit_word_eqI)
    fix k :: nat assume "k < LENGTH(8)"
    then have "8 * i + k < LENGTH('a)" "(8 * i + k) div 8 = i" "(8 * i + k) mod 8 = k" "k < 8"
      using i assms by auto
    then show "bit (le_bytes (length bs) (le_word bs :: 'a word) ! i) k = bit (bs ! i) k"
      using i by (simp add: bit_nth_le_bytes bit_le_word)
  qed
qed simp

lemma mem_word_mem_bytes: "LENGTH('a) = 8 * n \<Longrightarrow> mem_word le (mem_bytes le n w) = (w :: 'a::len word)"
  by (simp add: mem_word_def mem_bytes_def be_bytes_def le_word_le_bytes)

lemma mem_bytes_mem_word:
  "LENGTH('a) = 8 * length bs \<Longrightarrow> mem_bytes le (length bs) (mem_word le bs :: 'a::len word) = bs"
  using le_bytes_le_word [of bs, where 'a = 'a] le_bytes_le_word [of "rev bs", where 'a = 'a]
  by (simp add: mem_word_def mem_bytes_def be_bytes_def)

section \<open>The conversions of endian.h\<close>

definition BSWAP_16 :: "u16 \<Rightarrow> u16" where
  "BSWAP_16 val = push_bit 8 (val AND 0x00ff) OR drop_bit 8 (val AND 0xff00)"

definition BSWAP_32 :: "u32 \<Rightarrow> u32" where
  "BSWAP_32 val = push_bit 24 (val AND 0x000000ff) OR push_bit 8 (val AND 0x0000ff00)
     OR drop_bit 8 (val AND 0x00ff0000) OR drop_bit 24 (val AND 0xff000000)"

definition BSWAP_64 :: "u64 \<Rightarrow> u64" where
  "BSWAP_64 val = push_bit 56 (val AND 0x00000000000000ff) OR push_bit 40 (val AND 0x000000000000ff00)
     OR push_bit 24 (val AND 0x0000000000ff0000) OR push_bit 8 (val AND 0x00000000ff000000)
     OR drop_bit 8 (val AND 0x000000ff00000000) OR drop_bit 24 (val AND 0x0000ff0000000000)
     OR drop_bit 40 (val AND 0x00ff000000000000) OR drop_bit 56 (val AND 0xff00000000000000)"

definition cpu_to_le16 :: "bool \<Rightarrow> u16 \<Rightarrow> u16" where "cpu_to_le16 le w = (if le then w else BSWAP_16 w)"
definition cpu_to_le32 :: "bool \<Rightarrow> u32 \<Rightarrow> u32" where "cpu_to_le32 le w = (if le then w else BSWAP_32 w)"
definition cpu_to_le64 :: "bool \<Rightarrow> u64 \<Rightarrow> u64" where "cpu_to_le64 le w = (if le then w else BSWAP_64 w)"
definition le16_to_cpu :: "bool \<Rightarrow> u16 \<Rightarrow> u16" where "le16_to_cpu le w = (if le then w else BSWAP_16 w)"
definition le32_to_cpu :: "bool \<Rightarrow> u32 \<Rightarrow> u32" where "le32_to_cpu le w = (if le then w else BSWAP_32 w)"
definition le64_to_cpu :: "bool \<Rightarrow> u64 \<Rightarrow> u64" where "le64_to_cpu le w = (if le then w else BSWAP_64 w)"
definition cpu_to_be16 :: "bool \<Rightarrow> u16 \<Rightarrow> u16" where "cpu_to_be16 le w = (if le then BSWAP_16 w else w)"
definition cpu_to_be32 :: "bool \<Rightarrow> u32 \<Rightarrow> u32" where "cpu_to_be32 le w = (if le then BSWAP_32 w else w)"
definition cpu_to_be64 :: "bool \<Rightarrow> u64 \<Rightarrow> u64" where "cpu_to_be64 le w = (if le then BSWAP_64 w else w)"
definition be16_to_cpu :: "bool \<Rightarrow> u16 \<Rightarrow> u16" where "be16_to_cpu le w = (if le then BSWAP_16 w else w)"
definition be32_to_cpu :: "bool \<Rightarrow> u32 \<Rightarrow> u32" where "be32_to_cpu le w = (if le then BSWAP_32 w else w)"
definition be64_to_cpu :: "bool \<Rightarrow> u64 \<Rightarrow> u64" where "be64_to_cpu le w = (if le then BSWAP_64 w else w)"

lemma le_bytes_BSWAP:
  "le_bytes 2 (BSWAP_16 x) = be_bytes 2 x"
  "le_bytes 4 (BSWAP_32 y) = be_bytes 4 y"
  "le_bytes 8 (BSWAP_64 z) = be_bytes 8 z"
  by (simp_all add: le_bytes_def be_bytes_def BSWAP_16_def BSWAP_32_def BSWAP_64_def upt_rec u8_eq_iff bit_simps)

text \<open>Two integers with the same bytes are equal; so swapping is undone by swapping.\<close>

lemma le_bytes_inj:
  "LENGTH('a) = 8 * n \<Longrightarrow> le_bytes n v = le_bytes n (w :: 'a::len word) \<Longrightarrow> v = w"
  by (metis le_word_le_bytes)

lemma BSWAP_BSWAP [simp]: "BSWAP_16 (BSWAP_16 x) = x" "BSWAP_32 (BSWAP_32 y) = y" "BSWAP_64 (BSWAP_64 z) = z"
  by (rule le_bytes_inj [of 2] le_bytes_inj [of 4] le_bytes_inj [of 8]; simp add: le_bytes_BSWAP be_bytes_def flip: rev_swap)+

end
