(* ===== verification/Mem.thy ===== *)
theory Mem
  imports Endian
begin

text \<open>
  \<open>mem.c\<close> and \<open>mem.h\<close>: searching, comparing, swapping and filling memory.  A pointer
  and a length are the list of the bytes there; a returned pointer is the offset from the
  first argument, \<open>None\<close> for NULL.  \<open>memswap\<close> and its loop work
  on a memory, a map from addresses to bytes; \<open>memtaint\<close> gives the bytes that it fills a region with.
\<close>

section \<open>Comparing\<close>

text \<open>\<open>memcmp\<close> on two buffers of the same length: the sign of the first difference.\<close>

fun memcmp :: "u8 list \<Rightarrow> u8 list \<Rightarrow> int" where
  "memcmp (a # as) (b # bs) = (if a < b then -1 else if b < a then 1 else memcmp as bs)"
| "memcmp _ _ = 0"

lemma memcmp_0_iff: "length a = length b \<Longrightarrow> memcmp a b = 0 \<longleftrightarrow> a = b"
  by (induction a b rule: memcmp.induct) auto

lemma memcmp_swap: "memcmp b a = - memcmp a b"
  by (induction a b rule: memcmp.induct) auto

lemma memcmp_trans: "length a = length b \<Longrightarrow> length b = length c \<Longrightarrow> memcmp a b < 0 \<Longrightarrow> memcmp b c < 0 \<Longrightarrow> memcmp a c < 0"
proof (induction a b arbitrary: c rule: memcmp.induct)
  case (1 a as b bs)
  then show ?case by (cases c) (auto split: if_splits)
qed auto

definition memeq :: "u8 list \<Rightarrow> u8 list \<Rightarrow> bool" where
  "memeq a b \<longleftrightarrow> length a = length b \<and> memcmp a b = 0"

definition memstarts :: "u8 list \<Rightarrow> u8 list \<Rightarrow> bool" where
  "memstarts data prefix \<longleftrightarrow>
     (if length prefix > length data then False else memeq (take (length prefix) data) prefix)"

definition memeqstr :: "u8 list \<Rightarrow> cstr \<Rightarrow> bool" where
  "memeqstr data s = memeq data s"

definition memstarts_str :: "u8 list \<Rightarrow> cstr \<Rightarrow> bool" where
  "memstarts_str a s = memstarts a s"

definition memends :: "u8 list \<Rightarrow> u8 list \<Rightarrow> bool" where
  "memends s suffix \<longleftrightarrow> length s \<ge> length suffix \<and> memcmp (drop (length s - length suffix) s) suffix = 0"

definition memends_str :: "u8 list \<Rightarrow> cstr \<Rightarrow> bool" where
  "memends_str a s = memends a s"

text \<open>On the addresses of two regions.\<close>

definition memoverlaps :: "nat \<Rightarrow> nat \<Rightarrow> nat \<Rightarrow> nat \<Rightarrow> bool" where
  "memoverlaps a al b bl \<longleftrightarrow> a < b + bl \<and> b < a + al"

lemma memeq_iff: "memeq a b \<longleftrightarrow> a = b"
  by (auto simp: memeq_def memcmp_0_iff)

lemma memstarts_iff: "memstarts data prefix \<longleftrightarrow> (\<exists>r. data = prefix @ r)"
proof
  assume "memstarts data prefix"
  then have "take (length prefix) data = prefix" by (auto simp: memstarts_def memeq_iff split: if_splits)
  then show "\<exists>r. data = prefix @ r" by (metis append_take_drop_id)
qed (auto simp: memstarts_def memeq_iff)

lemma memends_iff: "memends s suffix \<longleftrightarrow> (\<exists>r. s = r @ suffix)"
proof
  assume "memends s suffix"
  then have "drop (length s - length suffix) s = suffix"
    by (auto simp: memends_def intro: memcmp_0_iff [THEN iffD1, rotated])
  then show "\<exists>r. s = r @ suffix" by (metis append_take_drop_id)
qed (auto simp: memends_def memcmp_0_iff)

section \<open>Searching\<close>

function memmem_from :: "u8 list \<Rightarrow> u8 list \<Rightarrow> nat \<Rightarrow> nat option" where
  "memmem_from haystack needle p =
     (if p + length needle \<le> length haystack then
        if memcmp (take (length needle) (drop p haystack)) needle = 0 then Some p
        else memmem_from haystack needle (Suc p)
      else None)"
  by pat_completeness auto
termination by (relation "measure (\<lambda>(h, n, p). Suc (length h) - p)") auto

declare memmem_from.simps [simp del]

definition memmem :: "u8 list \<Rightarrow> u8 list \<Rightarrow> nat option" where
  "memmem haystack needle =
     (if length needle > length haystack then None else memmem_from haystack needle 0)"

text \<open>The comparisons of \<open>memrchr\<close> and \<open>memcchr\<close> are of an (unsigned or plain) char with an int.\<close>

fun memrchr_from :: "u8 list \<Rightarrow> int \<Rightarrow> nat \<Rightarrow> nat option" where
  "memrchr_from s c 0 = None"
| "memrchr_from s c (Suc n) = (if uint (s ! n) = c then Some n else memrchr_from s c n)"

definition memrchr :: "u8 list \<Rightarrow> int \<Rightarrow> nat option" where
  "memrchr s c = memrchr_from s c (length s)"

fun accepts :: "u8 list \<Rightarrow> u8 \<Rightarrow> bool" where
  "accepts [] d = False"
| "accepts (a # as) d = (if a = d then True else accepts as d)"

fun mempbrkm_from :: "nat \<Rightarrow> u8 list \<Rightarrow> u8 list \<Rightarrow> nat option" where
  "mempbrkm_from i [] acc = None"
| "mempbrkm_from i (d # ds) acc = (if accepts acc d then Some i else mempbrkm_from (Suc i) ds acc)"

definition mempbrkm :: "u8 list \<Rightarrow> u8 list \<Rightarrow> nat option" where
  "mempbrkm data acc = mempbrkm_from 0 data acc"

definition mempbrk :: "u8 list \<Rightarrow> cstr \<Rightarrow> nat option" where
  "mempbrk data acc = mempbrkm data acc"

fun memcchr_from :: "nat \<Rightarrow> u8 list \<Rightarrow> int \<Rightarrow> nat option" where
  "memcchr_from i [] c = None"
| "memcchr_from i (d # ds) c = (if char_int d \<noteq> c then Some i else memcchr_from (Suc i) ds c)"

definition memcchr :: "u8 list \<Rightarrow> int \<Rightarrow> nat option" where
  "memcchr data c = memcchr_from 0 data c"

section \<open>Swapping, testing, filling\<close>

text \<open>Memory is a map from addresses to bytes, undefined outside of the objects of the program.\<close>

type_synonym memory = "nat \<rightharpoonup> u8"

definition read_block :: "memory \<Rightarrow> nat \<Rightarrow> nat \<Rightarrow> u8 list outcome" where
  "read_block mem p n =
     (if \<forall>i<n. mem (p + i) \<noteq> None then Done (map (\<lambda>i. the (mem (p + i))) [0..<n]) else Undefined)"

definition write_block :: "memory \<Rightarrow> nat \<Rightarrow> u8 list \<Rightarrow> memory outcome" where
  "write_block mem p bs =
     (if \<forall>i<length bs. mem (p + i) \<noteq> None
      then Done (\<lambda>x. if p \<le> x \<and> x < p + length bs then Some (bs ! (x - p)) else mem x) else Undefined)"

text \<open>\<open>memcpy\<close> of the memory into itself, undefined on overlapping blocks.  The temporary buffer is
  an object of its own.\<close>

definition memcpy :: "memory \<Rightarrow> nat \<Rightarrow> nat \<Rightarrow> nat \<Rightarrow> memory outcome" where
  "memcpy mem dst src n =
     (if memoverlaps dst n src n then Undefined else bind_outcome (read_block mem src n) (write_block mem dst))"

function memswap_loop :: "memory \<Rightarrow> nat \<Rightarrow> nat \<Rightarrow> nat \<Rightarrow> memory outcome" where
  "memswap_loop mem ap bp n =
     (if n = 0 then Done mem
      else let m = (if n > 256 then 256 else n) in
        bind_outcome (read_block mem bp m) (\<lambda>tmp.
        bind_outcome (memcpy mem bp ap m) (\<lambda>mem.
        bind_outcome (write_block mem ap tmp) (\<lambda>mem.
        memswap_loop mem (ap + m) (bp + m) (n - m)))))"
  by pat_completeness auto
termination by (relation "measure (\<lambda>(_, _, _, n). n)") auto

declare memswap_loop.simps [simp del]

definition memswap :: "memory \<Rightarrow> nat \<Rightarrow> nat \<Rightarrow> nat \<Rightarrow> memory outcome" where
  "memswap mem a b n = (if memoverlaps a n b n then Abort else memswap_loop mem a b n)"

text \<open>The first 16 bytes one by one, then the buffer against itself moved by 16.\<close>

fun memeqzero_head :: "nat \<Rightarrow> u8 list \<Rightarrow> (bool + u8 list)" where
  "memeqzero_head 0 p = Inr p"
| "memeqzero_head (Suc n) [] = Inl True"
| "memeqzero_head (Suc n) (c # p) = (if c \<noteq> 0 then Inl False else memeqzero_head n p)"

definition memeqzero :: "u8 list \<Rightarrow> bool" where
  "memeqzero data =
     (case memeqzero_head 16 data of
        Inl r \<Rightarrow> r
      | Inr p \<Rightarrow> memcmp (take (length p) data) p = 0)"

definition tainter :: "bool \<Rightarrow> u8 list" where
  "tainter le = concat (replicate 4 (mem_bytes le 4 (0xdeadbeef :: u32)))"

function memtaint :: "bool \<Rightarrow> nat \<Rightarrow> u8 list" where
  "memtaint le len = (if len \<ge> 16 then tainter le @ memtaint le (len - 16) else take len (tainter le))"
  by pat_completeness auto
termination by (relation "measure snd") auto

declare memtaint.simps [simp del]

section \<open>Lemmas\<close>

lemma memmem_from_spec:
  "case memmem_from h n p of
     None \<Rightarrow> (\<forall>q\<ge>p. q + length n \<le> length h \<longrightarrow> take (length n) (drop q h) \<noteq> n)
   | Some q \<Rightarrow> p \<le> q \<and> q + length n \<le> length h \<and> take (length n) (drop q h) = n \<and>
       (\<forall>r. p \<le> r \<and> r < q \<longrightarrow> take (length n) (drop r h) \<noteq> n)"
proof (induction h n p rule: memmem_from.induct)
  case (1 h n p)
  show ?case
  proof (cases "p + length n \<le> length h")
    case True
    then have cmp: "memcmp (take (length n) (drop p h)) n = 0 \<longleftrightarrow> take (length n) (drop p h) = n"
      by (intro memcmp_0_iff) simp
    show ?thesis
    proof (cases "take (length n) (drop p h) = n")
      case True
      then show ?thesis using \<open>p + length n \<le> length h\<close> cmp by (auto simp: memmem_from.simps [of h n p])
    next
      case False
      have le: "p \<le> q \<Longrightarrow> q \<noteq> p \<Longrightarrow> Suc p \<le> q" for q by simp
      from "1.IH" [OF True] False cmp show ?thesis
        using True le by (simp add: memmem_from.simps [of h n p] split: option.splits) (metis Suc_leD Suc_le_eq le_neq_implies_less)+
    qed
  next
    case False
    then show ?thesis by (simp add: memmem_from.simps [of h n p])
  qed
qed

text \<open>The memory with the blocks at \<open>a\<close> and \<open>b\<close> exchanged.\<close>

definition exchanged :: "memory \<Rightarrow> nat \<Rightarrow> nat \<Rightarrow> nat \<Rightarrow> memory" where
  "exchanged mem a b n =
     (\<lambda>x. if a \<le> x \<and> x < a + n then mem (b + (x - a)) else if b \<le> x \<and> x < b + n then mem (a + (x - b)) else mem x)"

lemma exchanged_at:
  "a \<le> x \<Longrightarrow> x < a + n \<Longrightarrow> exchanged mem a b n x = mem (b + (x - a))"
  "b \<le> x \<Longrightarrow> x < b + n \<Longrightarrow> \<not> (a \<le> x \<and> x < a + n) \<Longrightarrow> exchanged mem a b n x = mem (a + (x - b))"
  "\<not> (a \<le> x \<and> x < a + n) \<Longrightarrow> \<not> (b \<le> x \<and> x < b + n) \<Longrightarrow> exchanged mem a b n x = mem x"
  by (auto simp: exchanged_def)

lemma exchange_chunk:
  assumes "\<forall>i<m. mem (a + i) \<noteq> None" and "\<forall>i<m. mem (b + i) \<noteq> None" and "\<not> memoverlaps a m b m"
  shows "bind_outcome (read_block mem b m) (\<lambda>tmp. bind_outcome (memcpy mem b a m) (\<lambda>mem. bind_outcome (write_block mem a tmp) f)) =
    f (exchanged mem a b m)"
proof -
  let ?tmp = "map (\<lambda>i. the (mem (b + i))) [0..<m]" and ?as = "map (\<lambda>i. the (mem (a + i))) [0..<m]"
  define mem1 where "mem1 = (\<lambda>x. if b \<le> x \<and> x < b + m then Some (?as ! (x - b)) else mem x)"
  have "\<not> memoverlaps b m a m" using assms(3) by (auto simp: memoverlaps_def)
  then have "read_block mem b m = Done ?tmp" "memcpy mem b a m = Done mem1"
    using assms(1,2) by (simp_all add: read_block_def memcpy_def write_block_def mem1_def)
  moreover have "\<forall>i<m. mem1 (a + i) \<noteq> None" using assms(1) by (simp add: mem1_def)
  then have "write_block mem1 a ?tmp = Done (\<lambda>x. if a \<le> x \<and> x < a + m then Some (?tmp ! (x - a)) else mem1 x)" by (simp add: write_block_def)
  moreover have "(\<lambda>x. if a \<le> x \<and> x < a + m then Some (?tmp ! (x - a)) else mem1 x) = exchanged mem a b m"
  proof
    fix x
    have "Some (the (mem (b + (x - a)))) = mem (b + (x - a))" if "a \<le> x" "x < a + m"
      using assms(2) [rule_format, of "x - a"] that by auto
    moreover have "Some (the (mem (a + (x - b)))) = mem (a + (x - b))" if "b \<le> x" "x < b + m"
      using assms(1) [rule_format, of "x - b"] that by auto
    ultimately show "(if a \<le> x \<and> x < a + m then Some (?tmp ! (x - a)) else mem1 x) = exchanged mem a b m x"
      by (auto simp: mem1_def exchanged_def)
  qed
  ultimately show ?thesis by simp
qed

lemma exchanged_step:
  assumes "a + n \<le> b \<or> b + n \<le> a" and "m \<le> n"
  shows "exchanged (exchanged mem a b m) (a + m) (b + m) (n - m) = exchanged mem a b n"
    (is "exchanged ?mem' _ _ _ = _")
proof
  fix x
  consider "a \<le> x" "x < a + m" "\<not> (b \<le> x \<and> x < b + n)" | "a + m \<le> x" "x < a + n" "\<not> (b \<le> x \<and> x < b + n)"
    | "b \<le> x" "x < b + m" "\<not> (a \<le> x \<and> x < a + n)" | "b + m \<le> x" "x < b + n" "\<not> (a \<le> x \<and> x < a + n)"
    | "\<not> (a \<le> x \<and> x < a + n)" "\<not> (b \<le> x \<and> x < b + n)" using assms(1) by linarith
  then show "exchanged ?mem' (a + m) (b + m) (n - m) x = exchanged mem a b n x"
  proof cases
    case 1
    then have "exchanged ?mem' (a + m) (b + m) (n - m) x = ?mem' x" using assms(2) by (intro exchanged_at(3)) auto
    also have "\<dots> = mem (b + (x - a))" using 1 by (intro exchanged_at(1))
    finally show ?thesis using 1 assms(2) by (simp add: exchanged_at(1))
  next
    case 2
    then have "exchanged ?mem' (a + m) (b + m) (n - m) x = ?mem' (b + m + (x - (a + m)))" using assms(2) by (intro exchanged_at(1)) auto
    also have "\<dots> = mem (b + m + (x - (a + m)))" using 2 assms(1) by (intro exchanged_at(3)) auto
    finally show ?thesis using 2 assms(2) by (simp add: exchanged_at(1))
  next
    case 3
    then have "exchanged ?mem' (a + m) (b + m) (n - m) x = ?mem' x" using assms(2) by (intro exchanged_at(3)) auto
    also have "\<dots> = mem (a + (x - b))" using 3 assms(2) by (intro exchanged_at(2)) auto
    finally show ?thesis using 3 assms(2) by (simp add: exchanged_at(2))
  next
    case 4
    then have "exchanged ?mem' (a + m) (b + m) (n - m) x = ?mem' (a + m + (x - (b + m)))" using assms(2) by (intro exchanged_at(2)) auto
    also have "\<dots> = mem (a + m + (x - (b + m)))" using 4 assms(1) by (intro exchanged_at(3)) auto
    finally show ?thesis using 4 assms(2) by (simp add: exchanged_at(2))
  next
    case 5
    then have "exchanged ?mem' (a + m) (b + m) (n - m) x = ?mem' x" using assms(2) by (intro exchanged_at(3)) auto
    also have "\<dots> = mem x" using 5 assms(2) by (intro exchanged_at(3)) auto
    finally show ?thesis using 5 by (simp add: exchanged_at(3))
  qed
qed

lemma memswap_loop_swaps:
  assumes "\<forall>i<n. mem (a + i) \<noteq> None" and "\<forall>i<n. mem (b + i) \<noteq> None" and "\<not> memoverlaps a n b n"
  shows "memswap_loop mem a b n = Done (exchanged mem a b n)"
  using assms
proof (induction n arbitrary: mem a b rule: less_induct)
  case (less n)
  show ?case
  proof (cases "n = 0")
    case True
    then show ?thesis by (subst memswap_loop.simps) (auto simp: exchanged_def fun_eq_iff)
  next
    case False
    define m where "m = (if n > 256 then 256 else n)"
    have m: "m \<le> n" "0 < m" using False by (simp_all add: m_def)
    define mem' where "mem' = exchanged mem a b m"
    have dom: "mem' x \<noteq> None" if "mem x \<noteq> None" for x
    proof -
      have "mem (b + (x - a)) \<noteq> None" if "a \<le> x" "x < a + m" using less.prems(2) [rule_format, of "x - a"] m(1) that by simp
      moreover have "mem (a + (x - b)) \<noteq> None" if "b \<le> x" "x < b + m" using less.prems(1) [rule_format, of "x - b"] m(1) that by simp
      ultimately show ?thesis using that by (simp add: mem'_def exchanged_def)
    qed
    have "memswap_loop mem a b n = memswap_loop mem' (a + m) (b + m) (n - m)"
      using exchange_chunk [of m mem a b "\<lambda>mem. memswap_loop mem (a + m) (b + m) (n - m)"] less.prems m False
      by (subst memswap_loop.simps) (auto simp: m_def [symmetric] Let_def memoverlaps_def mem'_def)
    also have "\<dots> = Done (exchanged mem' (a + m) (b + m) (n - m))"
    proof (rule less.IH)
      have "mem' (c + m + i) \<noteq> None" if "\<forall>i<n. mem (c + i) \<noteq> None" "i < n - m" for c i
        using dom [of "c + m + i"] that(1) [rule_format, of "m + i"] that(2) by (simp add: add.assoc)
      then show "\<forall>i<n - m. mem' (a + m + i) \<noteq> None" "\<forall>i<n - m. mem' (b + m + i) \<noteq> None"
        using less.prems(1,2) by blast+
      show "\<not> memoverlaps (a + m) (n - m) (b + m) (n - m)" using less.prems(3) by (auto simp: memoverlaps_def)
    qed (use m in simp)
    also have "exchanged mem' (a + m) (b + m) (n - m) = exchanged mem a b n"
      unfolding mem'_def using less.prems(3) m(1) by (intro exchanged_step) (auto simp: memoverlaps_def)
    finally show ?thesis .
  qed
qed

lemma memeqzero_head_spec:
  "memeqzero_head n data = (if \<exists>c\<in>set (take n data). c \<noteq> 0 then Inl False
     else if length data < n then Inl True else Inr (drop n data))"
  by (induction n data rule: memeqzero_head.induct) auto

text \<open>A buffer that starts with \<open>k > 0\<close> zeros and equals itself moved by \<open>k\<close> is all zero.\<close>

lemma shifted_equal_zero:
  assumes "0 < k" and "\<forall>i<k. i < length xs \<longrightarrow> xs ! i = z"
    and "take (length xs - k) xs = drop k xs"
  shows "\<forall>i<length xs. xs ! i = z"
proof (intro allI impI)
  fix i assume "i < length xs"
  then show "xs ! i = z"
  proof (induction i rule: less_induct)
    case (less i)
    show ?case
    proof (cases "i < k")
      case True
      then show ?thesis using assms(2) less.prems by blast
    next
      case False
      have "take (length xs - k) xs ! (i - k) = drop k xs ! (i - k)" using assms(3) by simp
      then have "xs ! (i - k) = xs ! i" using False less.prems by simp
      then show ?thesis using less.IH [of "i - k"] less.prems False assms(1) by simp
    qed
  qed
qed

lemma length_tainter [simp]: "length (tainter le) = 16"
  by (simp add: tainter_def length_concat sum_list_replicate)

lemma length_memtaint [simp]: "length (memtaint le len) = len"
proof (induction le len rule: memtaint.induct)
  case (1 le len)
  then show ?case by (simp add: memtaint.simps [of le len])
qed

section \<open>Properties\<close>

text \<open>C37 (equivalence).  \<open>memeqzero\<close>, which looks at sixteen bytes and then compares the
  buffer with itself, says whether every byte is zero.\<close>

theorem memeqzero_iff: "memeqzero data \<longleftrightarrow> data = replicate (length data) 0"
proof -
  have z: "data = replicate (length data) 0 \<longleftrightarrow> (\<forall>i<length data. data ! i = 0)"
    by (auto simp: list_eq_iff_nth_eq)
  consider "\<exists>c\<in>set (take 16 data). c \<noteq> 0" | "\<forall>c\<in>set (take 16 data). c = 0" "length data < 16"
    | "\<forall>c\<in>set (take 16 data). c = 0" "\<not> length data < 16" by blast
  then show ?thesis
  proof cases
    case 1
    then obtain c where c: "c \<in> set data" "c \<noteq> 0" using in_set_takeD by fast
    then have "data \<noteq> replicate (length data) 0" by (metis in_set_replicate)
    then show ?thesis using 1 by (simp add: memeqzero_def memeqzero_head_spec)
  next
    case 2
    then show ?thesis by (simp add: memeqzero_def memeqzero_head_spec z all_set_conv_all_nth)
  next
    case 3
    then have head: "memeqzero data \<longleftrightarrow> take (length data - 16) data = drop 16 data"
      by (simp add: memeqzero_def memeqzero_head_spec memcmp_0_iff)
    have "\<forall>i<16. i < length data \<longrightarrow> data ! i = 0" using 3(1) by (auto simp: all_set_conv_all_nth)
    then show ?thesis
      unfolding head z using shifted_equal_zero [of 16 data 0] by (auto intro!: nth_equalityI)
  qed
qed

text \<open>C38 (functional).  \<open>memmem\<close> returns the first offset at which the needle occurs, and
  NULL exactly when it does not occur.\<close>

theorem memmem_first:
  "memmem h n = Some q \<longleftrightarrow> (\<exists>u v. h = u @ n @ v \<and> length u = q) \<and>
     \<not> (\<exists>u v. h = u @ n @ v \<and> length u < q)"
proof -
  have occ: "(\<exists>u v. h = u @ n @ v \<and> length u = p) \<longleftrightarrow> p + length n \<le> length h \<and> take (length n) (drop p h) = n" for p
  proof
    assume "p + length n \<le> length h \<and> take (length n) (drop p h) = n"
    then have "h = take p h @ n @ drop (length n) (drop p h)" "length (take p h) = p"
      by (metis append_take_drop_id, simp)
    then show "\<exists>u v. h = u @ n @ v \<and> length u = p" by blast
  qed auto
  have occ_less: "(\<exists>u v. h = u @ n @ v \<and> length u < q) \<longleftrightarrow> (\<exists>p<q. \<exists>u v. h = u @ n @ v \<and> length u = p)" by blast
  have mm: "memmem h n = memmem_from h n 0"
    by (simp add: memmem_def memmem_from.simps [of h n 0])
  note spec = memmem_from_spec [where h = h and n = n and p = 0]
  show ?thesis
  proof (cases "memmem_from h n 0")
    case None
    then show ?thesis using spec unfolding occ_less occ mm by auto
  next
    case (Some a)
    then have "a + length n \<le> length h \<and> take (length n) (drop a h) = n" "\<forall>r<a. take (length n) (drop r h) \<noteq> n"
      using spec by auto
    then have "a = q \<longleftrightarrow> (q + length n \<le> length h \<and> take (length n) (drop q h) = n) \<and>
       \<not> (\<exists>p<q. p + length n \<le> length h \<and> take (length n) (drop p h) = n)"
      using linorder_neqE_nat by blast
    then show ?thesis using Some unfolding occ_less occ mm by simp
  qed
qed

text \<open>C40 (safety).  \<open>memswap\<close> of two blocks of the program's memory aborts exactly when they overlap.
  Otherwise it exchanges them, whatever their length is to the 256 bytes of its buffer, and every
  byte of the memory outside of the two is as before.\<close>

theorem memswap_swaps:
  assumes "\<forall>i<n. mem (a + i) \<noteq> None \<and> mem (b + i) \<noteq> None"
  shows "memswap mem a b n =
    (if a < b + n \<and> b < a + n then Abort
     else Done (\<lambda>x. if a \<le> x \<and> x < a + n then mem (b + (x - a))
       else if b \<le> x \<and> x < b + n then mem (a + (x - b)) else mem x))"
  using memswap_loop_swaps [of n mem a b] assms by (simp add: memswap_def memoverlaps_def exchanged_def)

lemma memswap_swaps_witness:
  "\<exists>mem'. memswap (\<lambda>x. if x < 5 then Some (word_of_nat x) else None) 0 3 2 = Done mem' \<and>
     map mem' [0..<5] = [Some 3, Some 4, Some 2, Some 0, Some 1]"
  by (subst memswap_swaps) (simp_all add: upt_rec)

end
