(* ===== verification/Hex.thy ===== *)
theory Hex
  imports Mem
begin

text \<open>
  \<open>hex.c\<close> and \<open>node_id.c\<close>: hexadecimal strings of byte buffers and the 33-byte node ids.
  Output buffers are returned lists; \<open>hex_decode\<close> also returns the bytes that it had
  written when it gave up.
\<close>

section \<open>Hexadecimal digits\<close>

definition char_to_hex :: "u8 \<Rightarrow> u8 option" where
  "char_to_hex c =
     (let c' = char_int c in
      if c' \<ge> 48 \<and> c' \<le> 57 then Some (word_of_int (c' - 48))
      else if c' \<ge> 97 \<and> c' \<le> 102 then Some (word_of_int (c' - 97 + 10))
      else if c' \<ge> 65 \<and> c' \<le> 70 then Some (word_of_int (c' - 65 + 10))
      else None)"

definition hexchar :: "u32 \<Rightarrow> u8 outcome" where
  "hexchar val =
     (if val < 10 then Done (ucast (48 + val))
      else if val < 16 then Done (ucast (97 + val - 10))
      else Abort)"

section \<open>Decoding and encoding\<close>

text \<open>The loop of \<open>hex_decode\<close>; the string is the \<open>slen\<close> characters at \<open>str\<close>.\<close>

fun hex_decode :: "cstr \<Rightarrow> nat \<Rightarrow> bool \<times> u8 list" where
  "hex_decode (c1 # c2 # str) bufsize =
     (case (char_to_hex c1, char_to_hex c2) of
        (Some v1, Some v2) \<Rightarrow>
          if bufsize = 0 then (False, [])
          else let (ok, out) = hex_decode str (bufsize - 1)
               in (ok, (push_bit 4 v1 OR v2) # out)
      | _ \<Rightarrow> (False, []))"
| "hex_decode str bufsize = (str = [] \<and> bufsize = 0, [])"

definition hex_str_size :: "nat \<Rightarrow> nat" where
  "hex_str_size bytes = 2 * bytes + 1"

definition hex_data_size :: "nat \<Rightarrow> nat" where
  "hex_data_size strlen = strlen div 2"

fun hex_encode_loop :: "u8 list \<Rightarrow> cstr outcome" where
  "hex_encode_loop [] = Done []"
| "hex_encode_loop (b # bs) =
     (let c = (ucast b :: u32) in
      bind_outcome (hexchar (drop_bit 4 c)) (\<lambda>h.
      bind_outcome (hexchar (c AND 0xF)) (\<lambda>l.
      bind_outcome (hex_encode_loop bs) (\<lambda>rest. Done (h # l # rest)))))"

definition hex_encode :: "u8 list \<Rightarrow> nat \<Rightarrow> cstr option outcome" where
  "hex_encode buf destsize =
     (if destsize < hex_str_size (length buf) then Done None
      else bind_outcome (hex_encode_loop buf) (\<lambda>s. Done (Some s)))"

section \<open>Facts about digits\<close>

definition hex_digit :: "nat \<Rightarrow> u8" where
  "hex_digit n = (if n < 10 then word_of_nat (48 + n) else word_of_nat (87 + n))"

definition hex_value :: "u8 \<Rightarrow> nat option" where
  "hex_value c =
     (if 48 \<le> unat c \<and> unat c \<le> 57 then Some (unat c - 48)
      else if 97 \<le> unat c \<and> unat c \<le> 102 then Some (unat c - 87)
      else if 65 \<le> unat c \<and> unat c \<le> 70 then Some (unat c - 55) else None)"

lemma hex_value_less: "hex_value c = Some n \<Longrightarrow> n < 16"
  by (auto simp: hex_value_def split: if_splits)

lemma char_to_hex_value: "char_to_hex c = map_option word_of_nat (hex_value c)"
proof -
  obtain n where n: "n < 256" "unat c = n" by (rule u8_cases)
  have "char_int c = (if n < 128 then int n else int n - 256)" using n(2) char_int_unat [of c] by simp
  then show ?thesis
    using n(1) unfolding char_to_hex_def hex_value_def n(2) Let_def by (auto simp: of_nat_diff)
qed

lemma hexchar_digit: "n < 16 \<Longrightarrow> hexchar (word_of_nat n) = Done (hex_digit n)"
proof -
  assume "n < 16"
  then have "n \<in> set [0..<16]" by simp
  moreover have "list_all (\<lambda>n. hexchar (word_of_nat n) = Done (hex_digit n)) [0..<16]"
    by (simp add: upt_rec hexchar_def hex_digit_def)
  ultimately show ?thesis by (simp only: list_all_iff)
qed

lemma unat_hex_digit: "n < 16 \<Longrightarrow> unat (hex_digit n) = (if n < 10 then 48 + n else 87 + n)"
  using unat_u8 [of "48 + n"] unat_u8 [of "87 + n"] unfolding hex_digit_def by auto

lemma hex_value_digit: "n < 16 \<Longrightarrow> hex_value (hex_digit n) = Some n"
  by (auto simp: hex_value_def unat_hex_digit)

lemma hex_value_tolower: "hex_value (tolower_c c) = Some n \<Longrightarrow> hex_value c = Some n"
  unfolding hex_value_def unat_tolower_c by (auto split: if_splits)

lemma hex_digit_value: "hex_value c = Some n \<Longrightarrow> hex_digit n = tolower_c c"
  unfolding word_unat_eq_iff unat_tolower_c using hex_value_less [of c n]
  by (auto simp: unat_hex_digit hex_value_def split: if_splits)

text \<open>The two digits of a byte.\<close>

lemma nibbles: "unat (b :: u8) div 16 < 16" "unat b mod 16 < 16"
  using unsigned_less [of b, where 'a = nat] by auto

lemma u32_nibbles:
  "drop_bit 4 (ucast b :: u32) = word_of_nat (unat (b :: u8) div 16)"
  "(ucast b :: u32) AND 0xF = word_of_nat (unat b mod 16)"
proof -
  have u: "unat (ucast b :: u32) = unat b" by (simp add: unsigned_ucast_eq take_bit_nat_eq_self_iff order.strict_trans [OF unsigned_less])
  show "drop_bit 4 (ucast b :: u32) = word_of_nat (unat b div 16)"
    using nibbles(1) [of b] by (simp add: word_unat_eq_iff drop_bit_eq_div unat_div u unat_of_nat)
  have "(ucast b :: u32) AND 0xF = take_bit 4 (ucast b)"
    by (simp add: take_bit_eq_mask mask_eq_exp_minus_1)
  then have "unat ((ucast b :: u32) AND 0xF) = unat b mod 16"
    unfolding u [symmetric] by (simp only: unsigned_take_bit_eq) (simp add: take_bit_eq_mod)
  then show "(ucast b :: u32) AND 0xF = word_of_nat (unat b mod 16)"
    by (metis of_nat_unat ucast_id)
qed

lemma join_nibbles:
  assumes "h < 16" and "l < 16"
  shows "push_bit 4 (word_of_nat h) OR word_of_nat l = (word_of_nat (16 * h + l) :: u8)"
    and "push_bit 4 (word_of_nat (unat b div 16)) OR word_of_nat (unat b mod 16) = (b :: u8)"
proof -
  have *: "push_bit 4 (word_of_nat h) OR word_of_nat l = (word_of_nat (16 * h + l) :: u8)"
    if "h < 16" "l < 16" for h l :: nat
  proof -
    have "take_bit 4 (word_of_nat l :: u8) = word_of_nat l"
      using that(2) by (simp add: word_unat_eq_iff unsigned_take_bit_eq unat_of_nat take_bit_nat_eq_self_iff)
    then have "\<not> bit (word_of_nat l :: u8) n" if "4 \<le> n" for n
      using that by (metis bit_take_bit_iff leD)
    then have "push_bit 4 (word_of_nat h) AND word_of_nat l = (0 :: u8)"
      by (intro bit_word_eqI) (auto simp: bit_simps)
    then have "push_bit 4 (word_of_nat h) OR word_of_nat l = push_bit 4 (word_of_nat h) + (word_of_nat l :: u8)"
      by (simp add: disjunctive_add_eq_or)
    then show ?thesis by (simp add: push_bit_eq_mult)
  qed
  show "push_bit 4 (word_of_nat h) OR word_of_nat l = (word_of_nat (16 * h + l) :: u8)"
    by (rule * [OF assms])
  show "push_bit 4 (word_of_nat (unat b div 16)) OR word_of_nat (unat b mod 16) = b"
    unfolding * [OF nibbles [of b]] by simp
qed

section \<open>What the two functions compute\<close>

definition hex_string :: "u8 list \<Rightarrow> cstr" where
  "hex_string buf = concat (map (\<lambda>b. [hex_digit (unat b div 16), hex_digit (unat b mod 16)]) buf)"

lemma length_hex_string [simp]: "length (hex_string buf) = 2 * length buf"
  by (induction buf) (simp_all add: hex_string_def)

lemma hex_encode_loop_eq: "hex_encode_loop buf = Done (hex_string buf)"
  by (induction buf) (simp_all add: hex_string_def Let_def u32_nibbles hexchar_digit nibbles)

lemma hex_encode_eq:
  "hex_encode buf destsize = Done (if destsize < 2 * length buf + 1 then None else Some (hex_string buf))"
  by (simp add: hex_encode_def hex_encode_loop_eq hex_str_size_def)

lemma Nil_hex_string: "[] = hex_string buf \<longleftrightarrow> buf = []" "hex_string [] = []"
  by (cases buf; simp add: hex_string_def)+

lemma odd_hex_string: "[c] = hex_string buf \<Longrightarrow> False"
  using length_hex_string [of buf] by (metis One_nat_def length_Cons list.size(3) odd_one dvd_triv_left)

lemma hex_decode_iff:
  "hex_decode str n = (True, buf) \<longleftrightarrow> length buf = n \<and> map tolower_c str = hex_string buf"
proof (induction str n arbitrary: buf rule: hex_decode.induct)
  case (1 c1 c2 str n)
  show ?case
  proof
    assume dec: "hex_decode (c1 # c2 # str) n = (True, buf)"
    then obtain v1 v2 rest where v: "hex_value c1 = Some v1" "hex_value c2 = Some v2" "n \<noteq> 0"
      and r: "hex_decode str (n - 1) = (True, rest)"
      and buf: "buf = (push_bit 4 (word_of_nat v1) OR word_of_nat v2) # rest"
      by (auto simp: char_to_hex_value split: option.splits if_splits prod.splits)
    have IH: "length rest = n - 1 \<and> map tolower_c str = hex_string rest"
      using "1.IH" [of "Some (word_of_nat v1)" "Some (word_of_nat v2)" "word_of_nat v1" "word_of_nat v2"] r v by (auto simp: char_to_hex_value)
    note h = hex_value_less [OF v(1)] hex_value_less [OF v(2)]
    have "unat (word_of_nat (16 * v1 + v2) :: u8) = 16 * v1 + v2"
      using h by (intro unat_u8) simp
    then show "length buf = n \<and> map tolower_c (c1 # c2 # str) = hex_string buf"
      using IH v h hex_digit_value [OF v(1)] hex_digit_value [OF v(2)]
      by (simp add: buf join_nibbles(1) hex_string_def del: of_nat_add of_nat_mult)
  next
    assume *: "length buf = n \<and> map tolower_c (c1 # c2 # str) = hex_string buf"
    then obtain b rest where buf: "buf = b # rest" by (cases buf) (auto simp: hex_string_def)
    then have t: "tolower_c c1 = hex_digit (unat b div 16)" "tolower_c c2 = hex_digit (unat b mod 16)"
      "map tolower_c str = hex_string rest" "length rest = n - 1" "n \<noteq> 0"
      using * by (auto simp: hex_string_def)
    have v: "hex_value c1 = Some (unat b div 16)" "hex_value c2 = Some (unat b mod 16)"
      using t(1,2) nibbles [of b] hex_value_tolower hex_value_digit by metis+
    have "hex_decode str (n - 1) = (True, rest)"
      using "1.IH" [of "Some (word_of_nat (unat b div 16))" "Some (word_of_nat (unat b mod 16))"
        "word_of_nat (unat b div 16)" "word_of_nat (unat b mod 16)"] v t(3-5)
      by (auto simp: char_to_hex_value)
    then show "hex_decode (c1 # c2 # str) n = (True, buf)"
      using v t(5) by (simp add: char_to_hex_value buf join_nibbles(2) [OF zero_less_numeral zero_less_numeral])
  qed
qed (auto simp: Nil_hex_string dest: odd_hex_string)

section \<open>Node ids\<close>

text \<open>\<open>u8 k[33]\<close>\<close>

type_synonym node_id = "u8 list"

definition node_id_ok :: "node_id \<Rightarrow> bool" where
  "node_id_ok k \<longleftrightarrow> length k = 33"

definition node_id_eq :: "node_id \<Rightarrow> node_id \<Rightarrow> bool" where
  "node_id_eq a b \<longleftrightarrow> memcmp a b = 0"

definition node_id_cmp :: "node_id \<Rightarrow> node_id \<Rightarrow> int" where
  "node_id_cmp a b = memcmp a b"

definition node_id_idx :: "node_id \<Rightarrow> node_id \<Rightarrow> int" where
  "node_id_idx id1 id2 = of_bool (node_id_cmp id1 id2 > 0)"

text \<open>\<open>tal_hexstr\<close>: the result of \<open>hex_encode\<close> is ignored, the string is what it wrote.\<close>

definition tal_hexstr :: "u8 list \<Rightarrow> cstr outcome" where
  "tal_hexstr data = bind_outcome (hex_encode data (hex_str_size (length data))) (\<lambda>r.
     case r of None \<Rightarrow> Undefined | Some s \<Rightarrow> Done s)"

definition node_id_to_hexstr :: "node_id \<Rightarrow> cstr outcome" where
  "node_id_to_hexstr k = tal_hexstr k"

definition node_id_from_hexstr :: "cstr \<Rightarrow> bool \<times> node_id" where
  "node_id_from_hexstr str = hex_decode str 33"

section \<open>Properties\<close>

text \<open>C34 (functional).  \<open>hex_decode\<close> succeeds exactly when the string is, up to the case
  of its letters, the string that \<open>hex_encode\<close> writes for a buffer of exactly
  \<open>bufsize\<close> bytes, and then it has stored that buffer; the encoder never aborts.\<close>

theorem hex_decode_encode_iff:
  "hex_decode str bufsize = (True, buf) \<longleftrightarrow>
     length buf = bufsize \<and> hex_encode buf (hex_str_size bufsize) = Done (Some (map tolower_c str))"
  by (auto simp: hex_decode_iff hex_encode_eq hex_str_size_def)

text \<open>The hexadecimal string of a node id has 66 characters and reads back
  as the node id, and two ids have the same string only if \<open>node_id_eq\<close> holds of them.\<close>

theorem node_id_hexstr_roundtrip:
  assumes "node_id_ok a" and "node_id_ok b"
  shows "\<exists>s. node_id_to_hexstr a = Done s \<and> length s = 66 \<and> node_id_from_hexstr s = (True, a) \<and>
    (node_id_to_hexstr b = Done s \<longleftrightarrow> node_id_eq a b)"
proof -
  have to: "node_id_to_hexstr k = Done (hex_string k)" for k
    by (simp add: node_id_to_hexstr_def tal_hexstr_def hex_encode_eq hex_str_size_def)
  have low: "map tolower_c (hex_string k) = hex_string k" for k
  proof -
    have "tolower_c (hex_digit n) = hex_digit n" if "n < 16" for n
      using that by (simp add: word_unat_eq_iff unat_tolower_c unat_hex_digit)
    then show ?thesis by (induction k) (simp_all add: hex_string_def nibbles)
  qed
  have from_str: "node_id_from_hexstr (hex_string k) = (True, k)" if "node_id_ok k" for k
    using that by (simp add: node_id_from_hexstr_def hex_decode_iff low node_id_ok_def)
  have "hex_string b = hex_string a \<longleftrightarrow> a = b"
    using from_str [OF assms(1)] from_str [OF assms(2)] by auto
  then show ?thesis
    using assms by (simp add: to from_str node_id_eq_def memcmp_0_iff node_id_ok_def)
qed

lemma node_id_hexstr_roundtrip_witness:
  "\<exists>s. node_id_to_hexstr (replicate 33 2) = Done s \<and> length s = 66 \<and>
    node_id_from_hexstr s = (True, replicate 33 2) \<and>
    (node_id_to_hexstr (replicate 33 3) = Done s \<longleftrightarrow> node_id_eq (replicate 33 2) (replicate 33 3))"
  by (rule node_id_hexstr_roundtrip) (simp_all add: node_id_ok_def)

end
