(* ===== verification/Sha256.thy ===== *)
theory Sha256
  imports Endian
begin

text \<open>
  \<open>sha256.c\<close> (without OpenSSL).  \<open>Transform\<close> is modelled as the code computes it:
  eight register variables that are not moved but whose roles rotate, and sixteen message
  words overwritten in place.  It is shown equal to the compression function of FIPS 180-4,
  with its 64-word schedule.  The streaming interface keeps a context (chaining value, buffer,
  byte count); a context represents a message, every update appends to it, and the final hash
  is that of the padded message.  The platform's byte order and its alignment rule are
  parameters: no result depends on them.
\<close>

record platform =
  little_endian :: bool
  unaligned_access :: bool

record sha256_ctx =
  ctx_s :: "u32 list"
  ctx_buf :: "u8 list"
  ctx_bytes :: u64

definition SHA256_INIT :: sha256_ctx where
  "SHA256_INIT = \<lparr>
     ctx_s = [0x6a09e667, 0xbb67ae85, 0x3c6ef372, 0xa54ff53a, 0x510e527f, 0x9b05688c, 0x1f83d9ab, 0x5be0cd19],
     ctx_buf = replicate 64 0, ctx_bytes = 0\<rparr>"

definition invalidate_sha256 :: "sha256_ctx \<Rightarrow> sha256_ctx" where
  "invalidate_sha256 ctx = ctx\<lparr>ctx_bytes := - 1\<rparr>"

definition check_sha256 :: "sha256_ctx \<Rightarrow> unit outcome" where
  "check_sha256 ctx = (if ctx_bytes ctx \<noteq> - 1 then Done () else Abort)"

section \<open>The compression function of the code\<close>

definition Ch :: "u32 \<Rightarrow> u32 \<Rightarrow> u32 \<Rightarrow> u32" where
  "Ch x y z = z XOR (x AND (y XOR z))"

definition Maj :: "u32 \<Rightarrow> u32 \<Rightarrow> u32 \<Rightarrow> u32" where
  "Maj x y z = (x AND y) OR (z AND (x OR y))"

definition Sigma0 :: "u32 \<Rightarrow> u32" where
  "Sigma0 x = (drop_bit 2 x OR push_bit 30 x) XOR (drop_bit 13 x OR push_bit 19 x) XOR (drop_bit 22 x OR push_bit 10 x)"

definition Sigma1 :: "u32 \<Rightarrow> u32" where
  "Sigma1 x = (drop_bit 6 x OR push_bit 26 x) XOR (drop_bit 11 x OR push_bit 21 x) XOR (drop_bit 25 x OR push_bit 7 x)"

definition sigma0 :: "u32 \<Rightarrow> u32" where
  "sigma0 x = (drop_bit 7 x OR push_bit 25 x) XOR (drop_bit 18 x OR push_bit 14 x) XOR drop_bit 3 x"

definition sigma1 :: "u32 \<Rightarrow> u32" where
  "sigma1 x = (drop_bit 17 x OR push_bit 15 x) XOR (drop_bit 19 x OR push_bit 13 x) XOR drop_bit 10 x"

text \<open>\<open>Round\<close> returns the new values of \<open>*d\<close> and \<open>*h\<close>.\<close>

definition Round :: "u32 \<Rightarrow> u32 \<Rightarrow> u32 \<Rightarrow> u32 \<Rightarrow> u32 \<Rightarrow> u32 \<Rightarrow> u32 \<Rightarrow> u32 \<Rightarrow> u32 \<Rightarrow> u32 \<Rightarrow> u32 \<times> u32" where
  "Round a b c d e f g h k w =
     (let t1 = h + Sigma1 e + Ch e f g + k + w;
          t2 = Sigma0 a + Maj a b c
      in (d + t1, t1 + t2))"

definition round_constants :: "u32 list" where
  "round_constants = [
     0x428a2f98, 0x71374491, 0xb5c0fbcf, 0xe9b5dba5, 0x3956c25b, 0x59f111f1, 0x923f82a4, 0xab1c5ed5,
     0xd807aa98, 0x12835b01, 0x243185be, 0x550c7dc3, 0x72be5d74, 0x80deb1fe, 0x9bdc06a7, 0xc19bf174,
     0xe49b69c1, 0xefbe4786, 0x0fc19dc6, 0x240ca1cc, 0x2de92c6f, 0x4a7484aa, 0x5cb0a9dc, 0x76f988da,
     0x983e5152, 0xa831c66d, 0xb00327c8, 0xbf597fc7, 0xc6e00bf3, 0xd5a79147, 0x06ca6351, 0x14292967,
     0x27b70a85, 0x2e1b2138, 0x4d2c6dfc, 0x53380d13, 0x650a7354, 0x766a0abb, 0x81c2c92e, 0x92722c85,
     0xa2bfe8a1, 0xa81a664b, 0xc24b8b70, 0xc76c51a3, 0xd192e819, 0xd6990624, 0xf40e3585, 0x106aa070,
     0x19a4c116, 0x1e376c08, 0x2748774c, 0x34b0bcb5, 0x391c0cb3, 0x4ed8aa4a, 0x5b9cca4f, 0x682e6ff3,
     0x748f82ee, 0x78a5636f, 0x84c87814, 0x8cc70208, 0x90befffa, 0xa4506ceb, 0xbef9a3f7, 0xc67178f2]"

text \<open>
  The slot of the variable that plays role \<open>j\<close> (0 for \<open>a\<close>, 7 for \<open>h\<close>) in the
  \<open>i\<close>-th line \<open>Round (...)\<close>: each line shifts the roles by one.
\<close>

definition slot :: "nat \<Rightarrow> nat \<Rightarrow> nat" where
  "slot i j = (j + 8 - i mod 8) mod 8"

definition round_line :: "nat \<Rightarrow> u32 \<Rightarrow> u32 list \<Rightarrow> u32 list" where
  "round_line i w v =
     (let r = (\<lambda>j. v ! slot i j);
          (d, h) = Round (r 0) (r 1) (r 2) (r 3) (r 4) (r 5) (r 6) (r 7) (round_constants ! i) w
      in v[slot i 3 := d, slot i 7 := h])"

text \<open>The word of the \<open>i\<close>-th line: loaded from the chunk, later updated in place.\<close>

definition message_word :: "(nat \<Rightarrow> u32) \<Rightarrow> nat \<Rightarrow> u32 list \<Rightarrow> u32" where
  "message_word chunk i w =
     (if i < 16 then chunk i
      else w ! (i mod 16) + sigma1 (w ! ((i + 14) mod 16)) + w ! ((i + 9) mod 16) + sigma0 (w ! ((i + 1) mod 16)))"

fun transform_lines :: "(nat \<Rightarrow> u32) \<Rightarrow> nat \<Rightarrow> nat \<Rightarrow> u32 list \<times> u32 list \<Rightarrow> u32 list \<times> u32 list" where
  "transform_lines chunk i 0 (v, w) = (v, w)"
| "transform_lines chunk i (Suc n) (v, w) =
     (let x = message_word chunk i w
      in transform_lines chunk (Suc i) n (round_line i x v, w[i mod 16 := x]))"

definition Transform :: "platform \<Rightarrow> u32 list \<Rightarrow> u8 list \<Rightarrow> u32 list" where
  "Transform pf s chunk =
     (let word = (\<lambda>i. be32_to_cpu (little_endian pf) (mem_word (little_endian pf) (take 4 (drop (4 * i) chunk))));
          (v, w) = transform_lines word 0 64 (s, replicate 16 0)
      in map2 (+) s v)"

section \<open>The compression function of FIPS 180-4\<close>

definition fips_Ch :: "u32 \<Rightarrow> u32 \<Rightarrow> u32 \<Rightarrow> u32" where
  "fips_Ch x y z = (x AND y) XOR (NOT x AND z)"

definition fips_Maj :: "u32 \<Rightarrow> u32 \<Rightarrow> u32 \<Rightarrow> u32" where
  "fips_Maj x y z = (x AND y) XOR (x AND z) XOR (y AND z)"

definition fips_Sigma0 :: "u32 \<Rightarrow> u32" where
  "fips_Sigma0 x = word_rotr 2 x XOR word_rotr 13 x XOR word_rotr 22 x"

definition fips_Sigma1 :: "u32 \<Rightarrow> u32" where
  "fips_Sigma1 x = word_rotr 6 x XOR word_rotr 11 x XOR word_rotr 25 x"

definition fips_sigma0 :: "u32 \<Rightarrow> u32" where
  "fips_sigma0 x = word_rotr 7 x XOR word_rotr 18 x XOR drop_bit 3 x"

definition fips_sigma1 :: "u32 \<Rightarrow> u32" where
  "fips_sigma1 x = word_rotr 17 x XOR word_rotr 19 x XOR drop_bit 10 x"

function fips_W :: "(nat \<Rightarrow> u32) \<Rightarrow> nat \<Rightarrow> u32" where
  "fips_W m t = (if t < 16 then m t
     else fips_sigma1 (fips_W m (t - 2)) + fips_W m (t - 7) + fips_sigma0 (fips_W m (t - 15)) + fips_W m (t - 16))"
  by pat_completeness auto
termination by (relation "measure snd") auto

declare fips_W.simps [simp del]

definition fips_round :: "(nat \<Rightarrow> u32) \<Rightarrow> nat \<Rightarrow> u32 list \<Rightarrow> u32 list" where
  "fips_round m t v =
     (let T1 = v ! 7 + fips_Sigma1 (v ! 4) + fips_Ch (v ! 4) (v ! 5) (v ! 6) + round_constants ! t + fips_W m t;
          T2 = fips_Sigma0 (v ! 0) + fips_Maj (v ! 0) (v ! 1) (v ! 2)
      in [T1 + T2, v ! 0, v ! 1, v ! 2, v ! 3 + T1, v ! 4, v ! 5, v ! 6])"

definition fips_compress :: "u32 list \<Rightarrow> u8 list \<Rightarrow> u32 list" where
  "fips_compress H block =
     map2 (+) H (fold (fips_round (\<lambda>i. le_word (rev (take 4 (drop (4 * i) block))))) [0..<64] H)"

section \<open>The two agree\<close>

lemma rotr32:
  assumes "n < 32"
  shows "drop_bit n x OR push_bit (32 - n) x = word_rotr n (x :: u32)"
proof (rule bit_word_eqI)
  fix k :: nat assume "k < LENGTH(32)"
  then have "k < 32" by simp
  then have "(k + n) mod 32 = (if k + n < 32 then k + n else k + n - 32)"
    using assms by (simp add: mod_if)
  then show "bit (drop_bit n x OR push_bit (32 - n) x) k = bit (word_rotr n x) k"
    using \<open>k < 32\<close> assms
    by (auto simp: bit_word_rotr_iff bit_drop_bit_eq bit_push_bit_iff bit_or_iff add.commute
        dest: bit_imp_le_length)
qed

lemma fips_functions:
  "Ch = fips_Ch" "Maj = fips_Maj" "Sigma0 = fips_Sigma0" "Sigma1 = fips_Sigma1"
  "sigma0 = fips_sigma0" "sigma1 = fips_sigma1"
proof -
  show "Ch = fips_Ch" "Maj = fips_Maj"
    by (intro ext bit_word_eqI; auto simp: Ch_def fips_Ch_def Maj_def fips_Maj_def bit_simps)+
  show "Sigma0 = fips_Sigma0" "Sigma1 = fips_Sigma1" "sigma0 = fips_sigma0" "sigma1 = fips_sigma1"
    using rotr32 [of 2] rotr32 [of 13] rotr32 [of 22] rotr32 [of 6] rotr32 [of 11] rotr32 [of 25]
      rotr32 [of 7] rotr32 [of 18] rotr32 [of 17] rotr32 [of 19]
    by (simp_all add: fun_eq_iff Sigma0_def fips_Sigma0_def Sigma1_def fips_Sigma1_def sigma0_def fips_sigma0_def
        sigma1_def fips_sigma1_def)
qed

text \<open>The registers in the order of their roles in line \<open>i\<close>.\<close>

definition roles :: "nat \<Rightarrow> u32 list \<Rightarrow> u32 list" where
  "roles i v = map (\<lambda>j. v ! slot i j) [0..<8]"

lemma list8_cases:
  assumes "length v = 8"
  obtains a b c d e f g h where "v = [a, b, c, d, e, f, g, h]"
proof -
  have "v = map ((!) v) [0..<8]" using assms by (auto intro: nth_equalityI)
  then have "v = [v ! 0, v ! 1, v ! 2, v ! 3, v ! 4, v ! 5, v ! 6, v ! 7]" by (simp add: upt_rec numeral_eq_Suc)
  then show thesis by (rule that)
qed

lemma roles_round_line:
  assumes "length v = 8" and "x = fips_W m i"
  shows "roles (Suc i) (round_line i x v) = fips_round m i (roles i v)"
proof -
  obtain a b c d e f g h where v: "v = [a, b, c, d, e, f, g, h]" by (rule list8_cases [OF assms(1)])
  have "i mod 8 < 8" by simp
  then have "i mod 8 \<in> {0, 1, 2, 3, 4, 5, 6, 7}" by auto
  moreover have "slot (Suc i) j = (j + 8 - (if i mod 8 = 7 then 0 else Suc (i mod 8))) mod 8" for j
    by (simp add: slot_def mod_Suc)
  ultimately show ?thesis
    by (elim insertE emptyE)
       (simp_all add: roles_def round_line_def fips_round_def Round_def fips_functions v assms(2) Let_def slot_def upt_rec ac_simps)
qed

definition ring :: "(nat \<Rightarrow> u32) \<Rightarrow> nat \<Rightarrow> u32 list \<Rightarrow> bool" where
  "ring m i w \<longleftrightarrow> length w = 16 \<and> (\<forall>t<i. i \<le> t + 16 \<longrightarrow> w ! (t mod 16) = fips_W m t)"

lemma message_word_W:
  assumes "ring m i w"
  shows "message_word m i w = fips_W m i"
proof (cases "i < 16")
  case True
  then show ?thesis by (simp add: message_word_def fips_W.simps)
next
  case False
  have r: "w ! ((i + 16 - k) mod 16) = fips_W m (i - k)" if "0 < k" "k \<le> 16" for k
  proof -
    have "(i + 16 - k) mod 16 = (i - k) mod 16"
      using that False by (metis Nat.add_diff_assoc2 diff_diff_cancel mod_add_self2 le_trans not_less)
    then show ?thesis using assms that False by (simp add: ring_def)
  qed
  from r [of 16] r [of 2] r [of 7] r [of 15] show ?thesis
    using False by (simp add: message_word_def fips_W.simps [of m i] fips_functions ac_simps)
qed

lemma ring_update:
  assumes "ring m i w"
  shows "ring m (Suc i) (w[i mod 16 := fips_W m i])"
  unfolding ring_def
proof (intro conjI allI impI)
  show "length (w[i mod 16 := fips_W m i]) = 16" using assms by (simp add: ring_def)
  fix t assume t: "t < Suc i" "Suc i \<le> t + 16"
  show "w[i mod 16 := fips_W m i] ! (t mod 16) = fips_W m t"
  proof (cases "t = i")
    case True
    then show ?thesis using assms by (simp add: ring_def)
  next
    case False
    then have lt: "0 < i - t" "i - t < 16" using t by auto
    have "t mod 16 \<noteq> i mod 16"
    proof
      assume "t mod 16 = i mod 16"
      then have "16 dvd i - t" using t by (simp add: mod_eq_dvd_iff_nat [symmetric])
      then show False using lt dvd_imp_le by fastforce
    qed
    then show ?thesis using assms t False by (simp add: ring_def)
  qed
qed

lemma length_round_line [simp]: "length (round_line i x v) = length v"
  by (simp add: round_line_def Let_def split: prod.splits)

lemma transform_lines_fips:
  assumes "ring m i w" and "length v = 8"
  shows "\<exists>v' w'. transform_lines m i n (v, w) = (v', w') \<and> length v' = 8 \<and>
    roles (i + n) v' = fold (fips_round m) [i..<i + n] (roles i v)"
  using assms
proof (induction n arbitrary: i v w)
  case (Suc n)
  let ?x = "fips_W m i"
  have "ring m (Suc i) (w[i mod 16 := ?x])" "length (round_line i ?x v) = 8"
    using ring_update [OF Suc.prems(1)] Suc.prems(2) by simp_all
  from Suc.IH [OF this] obtain v' w' where *: "transform_lines m (Suc i) n (round_line i ?x v, w[i mod 16 := ?x]) = (v', w')"
    "length v' = 8" "roles (Suc i + n) v' = fold (fips_round m) [Suc i..<Suc i + n] (roles (Suc i) (round_line i ?x v))"
    by blast
  have "[i..<i + Suc n] = i # [Suc i..<Suc i + n]" by (simp add: upt_conv_Cons)
  then show ?case
    using * by (simp add: message_word_W [OF Suc.prems(1)] roles_round_line [OF Suc.prems(2) refl] Let_def)
qed simp

lemma roles_full: "length v = 8 \<Longrightarrow> i mod 8 = 0 \<Longrightarrow> roles i v = v"
  by (rule nth_equalityI) (auto simp: roles_def slot_def)

lemma be32_of_memory:
  assumes "length bs = 4"
  shows "be32_to_cpu le (mem_word le bs) = le_word (rev bs)"
proof (cases le)
  case True
  have "BSWAP_32 (le_word bs) = (le_word (rev bs) :: u32)"
  proof (rule le_bytes_inj [of 4])
    show "le_bytes 4 (BSWAP_32 (le_word bs)) = le_bytes 4 (le_word (rev bs) :: u32)"
      using le_bytes_le_word [of bs, where 'a = 32] le_bytes_le_word [of "rev bs", where 'a = 32] assms
      by (simp add: le_bytes_BSWAP be_bytes_def)
  qed simp
  then show ?thesis using True by (simp add: be32_to_cpu_def mem_word_def)
qed (simp add: be32_to_cpu_def mem_word_def)

lemma fips_W_cong:
  "(\<And>i. i < 16 \<Longrightarrow> m i = m' i) \<Longrightarrow> fips_W m t = fips_W m' t"
proof (induction t rule: less_induct)
  case (less t)
  then show ?case by (simp add: fips_W.simps [of m t] fips_W.simps [of m' t])
qed

lemma Transform_fips:
  assumes "length s = 8" and "length chunk = 64"
  shows "Transform pf s chunk = fips_compress s chunk"
proof -
  define m where "m i = be32_to_cpu (little_endian pf) (mem_word (little_endian pf) (take 4 (drop (4 * i) chunk)))" for i
  define m' where "m' i = (le_word (rev (take 4 (drop (4 * i) chunk))) :: u32)" for i
  have "m i = m' i" if "i < 16" for i
    using that assms(2) unfolding m_def m'_def by (intro be32_of_memory) simp
  then have "fips_W m = fips_W m'" using fips_W_cong by blast
  then have rnd: "fips_round m = fips_round m'" by (simp add: fun_eq_iff fips_round_def)
  have "ring m 0 (replicate 16 0)" by (simp add: ring_def)
  from transform_lines_fips [OF this assms(1), of 64]
  obtain v' w' where t: "transform_lines m 0 64 (s, replicate 16 0) = (v', w')" "length v' = 8"
    "roles 64 v' = fold (fips_round m) [0..<64] (roles 0 s)" by auto
  then have "v' = fold (fips_round m) [0..<64] s"
    using roles_full [of v' 64] roles_full [of s 0] assms(1) by simp
  then show ?thesis
    using t(1) unfolding Transform_def fips_compress_def Let_def m_def [symmetric] m'_def [symmetric] rnd by simp
qed

section \<open>The streaming interface\<close>

definition alignment_ok :: "platform \<Rightarrow> nat \<Rightarrow> nat \<Rightarrow> bool" where
  "alignment_ok pf p n \<longleftrightarrow> unaligned_access pf \<or> p mod n = 0"

text \<open>\<open>while (len >= 64)\<close>; \<open>p\<close> is the address of the remaining \<open>data\<close>.\<close>

function add_chunks :: "platform \<Rightarrow> sha256_ctx \<Rightarrow> nat \<Rightarrow> u8 list \<Rightarrow> sha256_ctx \<times> u8 list" where
  "add_chunks pf ctx p data =
     (if length data \<ge> 64 then
        let ctx = (if alignment_ok pf p 4
                   then ctx\<lparr>ctx_s := Transform pf (ctx_s ctx) (take 64 data)\<rparr>
                   else let ctx = ctx\<lparr>ctx_buf := take 64 data\<rparr>
                        in ctx\<lparr>ctx_s := Transform pf (ctx_s ctx) (ctx_buf ctx)\<rparr>)
        in add_chunks pf (ctx\<lparr>ctx_bytes := ctx_bytes ctx + 64\<rparr>) (p + 64) (drop 64 data)
      else (ctx, data))"
  by pat_completeness auto
termination by (relation "measure (\<lambda>(pf, ctx, p, data). length data)") auto

declare add_chunks.simps [simp del]

definition sha_add :: "platform \<Rightarrow> sha256_ctx \<Rightarrow> nat \<Rightarrow> u8 list \<Rightarrow> sha256_ctx" where
  "sha_add pf ctx p data =
     (let bufsize = unat (ctx_bytes ctx mod 64);
          (ctx, p, data, bufsize) =
            (if bufsize + length data \<ge> 64 then
               let n = 64 - bufsize;
                   ctx = ctx\<lparr>ctx_buf := take bufsize (ctx_buf ctx) @ take n data,
                             ctx_bytes := ctx_bytes ctx + of_nat n\<rparr>
               in (ctx\<lparr>ctx_s := Transform pf (ctx_s ctx) (ctx_buf ctx)\<rparr>, p + n, drop n data, 0)
             else (ctx, p, data, bufsize));
          (ctx, data) = add_chunks pf ctx p data
      in if data \<noteq> []
         then ctx\<lparr>ctx_buf := take bufsize (ctx_buf ctx) @ data @ drop (bufsize + length data) (ctx_buf ctx),
                  ctx_bytes := ctx_bytes ctx + of_nat (length data)\<rparr>
         else ctx)"

definition sha256_init :: "sha256_ctx" where
  "sha256_init = SHA256_INIT"

definition sha256_update :: "platform \<Rightarrow> sha256_ctx \<Rightarrow> nat \<Rightarrow> u8 list \<Rightarrow> sha256_ctx outcome" where
  "sha256_update pf ctx p data = bind_outcome (check_sha256 ctx) (\<lambda>_. Done (sha_add pf ctx p data))"

text \<open>
  The addresses of the static \<open>pad\<close> and of the local \<open>sizedesc\<close> are arguments; the
  32 bytes of \<open>res\<close> are returned with the invalidated context.
\<close>

definition sha256_done :: "platform \<Rightarrow> sha256_ctx \<Rightarrow> nat \<Rightarrow> nat \<Rightarrow> u8 list \<times> sha256_ctx" where
  "sha256_done pf ctx p_pad p_desc =
     (let le = little_endian pf;
          sizedesc = cpu_to_be64 le (push_bit 3 (ctx_bytes ctx));
          pad = 0x80 # replicate 63 0;
          ctx1 = sha_add pf ctx p_pad (take (1 + (128 - 8 - unat (ctx_bytes ctx mod 64) - 1) mod 64) pad);
          ctx2 = sha_add pf ctx1 p_desc (mem_bytes le 8 sizedesc);
          res = concat (map (\<lambda>w. mem_bytes le 4 (cpu_to_be32 le w)) (ctx_s ctx2))
      in (res, invalidate_sha256 ctx2))"

definition sha256 :: "platform \<Rightarrow> nat \<Rightarrow> nat \<Rightarrow> nat \<Rightarrow> u8 list \<Rightarrow> u8 list outcome" where
  "sha256 pf p_pad p_desc p data =
     bind_outcome (sha256_update pf sha256_init p data) (\<lambda>ctx. Done (fst (sha256_done pf ctx p_pad p_desc)))"

text \<open>The helpers that hash one integer, in native, little-endian or big-endian order.\<close>

definition sha256_u8 :: "platform \<Rightarrow> sha256_ctx \<Rightarrow> nat \<Rightarrow> u8 \<Rightarrow> sha256_ctx outcome" where
  "sha256_u8 pf ctx p v = sha256_update pf ctx p (mem_bytes (little_endian pf) 1 v)"
definition sha256_u16 :: "platform \<Rightarrow> sha256_ctx \<Rightarrow> nat \<Rightarrow> u16 \<Rightarrow> sha256_ctx outcome" where
  "sha256_u16 pf ctx p v = sha256_update pf ctx p (mem_bytes (little_endian pf) 2 v)"
definition sha256_u32 :: "platform \<Rightarrow> sha256_ctx \<Rightarrow> nat \<Rightarrow> u32 \<Rightarrow> sha256_ctx outcome" where
  "sha256_u32 pf ctx p v = sha256_update pf ctx p (mem_bytes (little_endian pf) 4 v)"
definition sha256_u64 :: "platform \<Rightarrow> sha256_ctx \<Rightarrow> nat \<Rightarrow> u64 \<Rightarrow> sha256_ctx outcome" where
  "sha256_u64 pf ctx p v = sha256_update pf ctx p (mem_bytes (little_endian pf) 8 v)"
definition sha256_le16 :: "platform \<Rightarrow> sha256_ctx \<Rightarrow> nat \<Rightarrow> u16 \<Rightarrow> sha256_ctx outcome" where
  "sha256_le16 pf ctx p v = (let le = little_endian pf in sha256_update pf ctx p (mem_bytes le 2 (cpu_to_le16 le v)))"
definition sha256_le32 :: "platform \<Rightarrow> sha256_ctx \<Rightarrow> nat \<Rightarrow> u32 \<Rightarrow> sha256_ctx outcome" where
  "sha256_le32 pf ctx p v = (let le = little_endian pf in sha256_update pf ctx p (mem_bytes le 4 (cpu_to_le32 le v)))"
definition sha256_le64 :: "platform \<Rightarrow> sha256_ctx \<Rightarrow> nat \<Rightarrow> u64 \<Rightarrow> sha256_ctx outcome" where
  "sha256_le64 pf ctx p v = (let le = little_endian pf in sha256_update pf ctx p (mem_bytes le 8 (cpu_to_le64 le v)))"
definition sha256_be16 :: "platform \<Rightarrow> sha256_ctx \<Rightarrow> nat \<Rightarrow> u16 \<Rightarrow> sha256_ctx outcome" where
  "sha256_be16 pf ctx p v = (let le = little_endian pf in sha256_update pf ctx p (mem_bytes le 2 (cpu_to_be16 le v)))"
definition sha256_be32 :: "platform \<Rightarrow> sha256_ctx \<Rightarrow> nat \<Rightarrow> u32 \<Rightarrow> sha256_ctx outcome" where
  "sha256_be32 pf ctx p v = (let le = little_endian pf in sha256_update pf ctx p (mem_bytes le 4 (cpu_to_be32 le v)))"
definition sha256_be64 :: "platform \<Rightarrow> sha256_ctx \<Rightarrow> nat \<Rightarrow> u64 \<Rightarrow> sha256_ctx outcome" where
  "sha256_be64 pf ctx p v = (let le = little_endian pf in sha256_update pf ctx p (mem_bytes le 8 (cpu_to_be64 le v)))"

section \<open>A context represents a message\<close>

text \<open>The complete blocks of a message, compressed in turn, and the hash of FIPS 180-4.\<close>

function fips_blocks :: "u32 list \<Rightarrow> u8 list \<Rightarrow> u32 list" where
  "fips_blocks H msg = (if length msg \<ge> 64 then fips_blocks (fips_compress H (take 64 msg)) (drop 64 msg) else H)"
  by pat_completeness auto
termination by (relation "measure (\<lambda>(H, msg). length msg)") auto

declare fips_blocks.simps [simp del]

definition fips_pad :: "u8 list \<Rightarrow> u8 list" where
  "fips_pad msg = msg @ 0x80 # replicate ((119 - length msg mod 64) mod 64) 0 @ be_bytes 8 (of_nat (8 * length msg) :: u64)"

definition fips_sha256 :: "u8 list \<Rightarrow> u8 list" where
  "fips_sha256 msg = concat (map (be_bytes 4) (fips_blocks (ctx_s SHA256_INIT) (fips_pad msg)))"

definition represents :: "sha256_ctx \<Rightarrow> u8 list \<Rightarrow> bool" where
  "represents ctx msg \<longleftrightarrow>
     length (ctx_s ctx) = 8 \<and> length (ctx_buf ctx) = 64 \<and> ctx_bytes ctx = of_nat (length msg) \<and>
     ctx_s ctx = fips_blocks (ctx_s SHA256_INIT) msg \<and>
     take (length msg mod 64) (ctx_buf ctx) = drop (64 * (length msg div 64)) msg"

lemma length_fips_compress: "length H = 8 \<Longrightarrow> length (fips_compress H b) = 8"
proof -
  assume H: "length H = 8"
  have "length (fips_round m t v) = 8" for m t v by (simp add: fips_round_def Let_def)
  then have "length (fold (fips_round m) ts H) = 8" for m ts
    using H by (induction ts arbitrary: H) simp_all
  then show ?thesis by (simp add: fips_compress_def H)
qed

lemma fips_blocks_append:
  "length msg mod 64 = 0 \<Longrightarrow> fips_blocks H (msg @ rest) = fips_blocks (fips_blocks H msg) rest"
proof (induction H msg rule: fips_blocks.induct)
  case (1 H msg)
  show ?case
  proof (cases "length msg \<ge> 64")
    case True
    then have "(length msg - 64) mod 64 = 0" using "1.prems" by (simp add: le_mod_geq)
    then show ?thesis using "1.IH" [OF True] True
      by (simp add: fips_blocks.simps [of H "msg @ rest"] fips_blocks.simps [of H msg])
  next
    case False
    then have "msg = []" using "1.prems" by simp
    then show ?thesis by (simp add: fips_blocks.simps [of H "[]"])
  qed
qed

lemma length_fips_blocks: "length H = 8 \<Longrightarrow> length (fips_blocks H msg) = 8"
proof (induction H msg rule: fips_blocks.induct)
  case (1 H msg)
  then show ?case by (simp add: fips_blocks.simps [of H msg] length_fips_compress)
qed

lemma length_init [simp]: "length (ctx_s SHA256_INIT) = 8" "length (ctx_buf SHA256_INIT) = 64"
  by (simp_all add: SHA256_INIT_def)

lemma mod_div_short: "a mod 64 + d < 64 \<Longrightarrow> (a + d) mod 64 = a mod 64 + d \<and> (a + d) div 64 = a div 64" for a d :: nat
proof -
  assume *: "a mod 64 + d < 64"
  have "a + d = (a mod 64 + d) + (a div 64) * 64" by simp
  then have "(a + d) mod 64 = (a mod 64 + d) mod 64" "(a + d) div 64 = a div 64 + (a mod 64 + d) div 64"
    by (metis mod_mult_self1, metis add.commute div_mult_self1 zero_neq_numeral)
  then show ?thesis using * by simp
qed

lemma fips_blocks_short: "length msg < 64 \<Longrightarrow> fips_blocks H msg = H"
  by (simp add: fips_blocks.simps [of H msg])

lemma fips_blocks_one: "length msg = 64 \<Longrightarrow> fips_blocks H msg = fips_compress H msg"
  by (simp add: fips_blocks.simps [of H msg] fips_blocks_short)

lemma message_split:
  fixes msg :: "u8 list"
  obtains hd tl where "msg = hd @ tl" and "length hd mod 64 = 0" and "length tl = length msg mod 64"
    and "tl = drop (64 * (length msg div 64)) msg"
proof -
  have "64 * (length msg div 64) \<le> length msg" by simp
  moreover have "length msg - 64 * (length msg div 64) = length msg mod 64"
    by (simp add: minus_mult_div_eq_mod)
  ultimately show thesis
    using that [of "take (64 * (length msg div 64)) msg" "drop (64 * (length msg div 64)) msg"] by simp
qed

lemma unat_bytes_mod: "unat ((of_nat n :: u64) mod 64) = n mod 64"
  by (simp add: unat_mod unat_of_nat mod_mod_cancel)

text \<open>When the message has only complete blocks, the buffer does not matter.\<close>

lemma represents_blocks:
  assumes "length msg mod 64 = 0"
  shows "represents ctx msg \<longleftrightarrow> length (ctx_s ctx) = 8 \<and> length (ctx_buf ctx) = 64 \<and>
    ctx_bytes ctx = of_nat (length msg) \<and> ctx_s ctx = fips_blocks (ctx_s SHA256_INIT) msg"
proof -
  have "64 * (length msg div 64) = length msg" using assms by presburger
  then show ?thesis using assms by (auto simp: represents_def length_fips_blocks)
qed

lemma add_chunks_represents:
  assumes "represents ctx msg" and "length msg mod 64 = 0"
  shows "\<exists>pre ctx' rest. add_chunks pf ctx p data = (ctx', rest) \<and> data = pre @ rest \<and> length rest < 64 \<and>
    length pre mod 64 = 0 \<and> represents ctx' (msg @ pre)"
  using assms
proof (induction "length data" arbitrary: data ctx p msg rule: less_induct)
  case less
  show ?case
  proof (cases "length data \<ge> 64")
    case True
    let ?b = "take 64 data"
    define ctx1 where "ctx1 = (if alignment_ok pf p 4 then ctx\<lparr>ctx_s := Transform pf (ctx_s ctx) ?b\<rparr>
       else let ctx = ctx\<lparr>ctx_buf := ?b\<rparr> in ctx\<lparr>ctx_s := Transform pf (ctx_s ctx) (ctx_buf ctx)\<rparr>)"
    have s: "length (ctx_s ctx) = 8" using less.prems(1) unfolding represents_def by blast
    have "ctx_s ctx1 = fips_compress (ctx_s ctx) ?b" "length (ctx_buf ctx1) = 64" "ctx_bytes ctx1 = ctx_bytes ctx"
      using True Transform_fips [OF s, of ?b pf] less.prems(1)
      by (simp_all add: ctx1_def Let_def represents_def)
    moreover have "fips_blocks H (msg @ ?b) = fips_compress (fips_blocks H msg) ?b" for H
      using fips_blocks_append [OF less.prems(2)] True by (simp add: fips_blocks_one)
    ultimately have rep: "represents (ctx1\<lparr>ctx_bytes := ctx_bytes ctx1 + 64\<rparr>) (msg @ ?b)"
      using less.prems True s by (simp add: represents_blocks length_fips_compress length_fips_blocks)
    have "length (drop 64 data) < length data" "length (msg @ ?b) mod 64 = 0"
      using True less.prems(2) by simp_all
    from less.hyps [OF this(1) rep this(2), of "p + 64"]
    obtain pre ctx' rest where IH: "add_chunks pf (ctx1\<lparr>ctx_bytes := ctx_bytes ctx1 + 64\<rparr>) (p + 64) (drop 64 data) = (ctx', rest)"
      "drop 64 data = pre @ rest" "length rest < 64" "length pre mod 64 = 0" "represents ctx' ((msg @ ?b) @ pre)"
      by metis
    have "data = (?b @ pre) @ rest" using IH(2) by (metis append.assoc append_take_drop_id)
    moreover have "add_chunks pf ctx p data = (ctx', rest)"
      using True IH(1) by (simp add: add_chunks.simps [of pf ctx p data] Let_def ctx1_def)
    moreover have "length (?b @ pre) mod 64 = 0" using True IH(4) by simp
    ultimately show ?thesis using IH(3,5) by (intro exI [of _ "?b @ pre"]) auto
  next
    case False
    then show ?thesis using less.prems by (simp add: add_chunks.simps [of pf ctx p data])
  qed
qed

text \<open>Storing fewer bytes than fill the buffer.\<close>

lemma represents_store:
  assumes "represents ctx msg" and "length msg mod 64 + length data < 64"
  shows "represents (ctx\<lparr>ctx_buf := take (length msg mod 64) (ctx_buf ctx) @ data @
      drop (length msg mod 64 + length data) (ctx_buf ctx), ctx_bytes := ctx_bytes ctx + of_nat (length data)\<rparr>) (msg @ data)"
proof -
  obtain h t where m: "msg = h @ t" "length h mod 64 = 0" "length t = length msg mod 64"
    "t = drop (64 * (length msg div 64)) msg" by (rule message_split)
  have "length t + length data < 64" unfolding m(3) by (rule assms(2))
  then have "fips_blocks H (msg @ data) = fips_blocks H msg" for H
    unfolding m(1) using m(2) by (simp add: fips_blocks_append fips_blocks_short)
  then show ?thesis
    using assms mod_div_short [OF assms(2)] m(4) minus_mult_div_eq_mod [of "length msg" 64]
    unfolding represents_def by (simp add: length_fips_blocks)
qed

lemma represents_fill:
  assumes rep: "represents ctx msg" and r: "r = length msg mod 64" and full: "r + length data \<ge> 64"
    and buf: "buf = take r (ctx_buf ctx) @ take (64 - r) data"
  shows "represents (ctx\<lparr>ctx_buf := buf, ctx_bytes := ctx_bytes ctx + of_nat (64 - r), ctx_s := Transform pf (ctx_s ctx) buf\<rparr>)
      (msg @ take (64 - r) data)"
    and "length (msg @ take (64 - r) data) mod 64 = 0"
proof -
  obtain h t where m: "msg = h @ t" "length h mod 64 = 0" "length t = r"
    "t = drop (64 * (length msg div 64)) msg" unfolding r by (rule message_split)
  have "r < 64" unfolding r by simp
  have take_n: "length (take (64 - r) data) = 64 - r" using full by simp
  have "take r (ctx_buf ctx) = t" using rep m(4) unfolding represents_def r by simp
  then have buf_t: "buf = t @ take (64 - r) data" using buf by simp
  then have len: "length buf = 64" using take_n m(3) \<open>r < 64\<close> by simp
  have total: "length (msg @ take (64 - r) data) = length h + 64"
    unfolding m(1) using m(3) take_n \<open>r < 64\<close> by simp
  then show mod0: "length (msg @ take (64 - r) data) mod 64 = 0" using m(2) by simp
  have "fips_blocks H (msg @ take (64 - r) data) = fips_compress (fips_blocks H msg) buf" for H
    unfolding m(1) using m(2,3) len buf_t \<open>r < 64\<close>
    by (simp add: fips_blocks_append fips_blocks_one fips_blocks_short)
  moreover have "(of_nat (length msg) + of_nat (64 - r) :: u64) = of_nat (length (msg @ take (64 - r) data))"
    using take_n by simp
  ultimately show "represents (ctx\<lparr>ctx_buf := buf, ctx_bytes := ctx_bytes ctx + of_nat (64 - r),
      ctx_s := Transform pf (ctx_s ctx) buf\<rparr>) (msg @ take (64 - r) data)"
    unfolding represents_blocks [OF mod0] using rep len
    by (simp add: represents_def Transform_fips length_fips_compress length_fips_blocks)
qed

lemma sha_add_represents:
  assumes "represents ctx msg"
  shows "represents (sha_add pf ctx p data) (msg @ data)"
proof -
  define r where "r = length msg mod 64"
  have bufsize: "unat (ctx_bytes ctx mod 64) = r"
    using assms by (simp add: represents_def unat_bytes_mod r_def)
  show ?thesis
  proof (cases "r + length data \<ge> 64")
    case True
    define buf where "buf = take r (ctx_buf ctx) @ take (64 - r) data"
    define ctx1 where "ctx1 = ctx\<lparr>ctx_buf := buf, ctx_bytes := ctx_bytes ctx + of_nat (64 - r), ctx_s := Transform pf (ctx_s ctx) buf\<rparr>"
    note fill = represents_fill(1) [OF assms r_def True buf_def, of pf, folded ctx1_def]
      represents_fill(2) [OF assms r_def True buf_def]
    obtain pre ctx' rest where c: "add_chunks pf ctx1 (p + (64 - r)) (drop (64 - r) data) = (ctx', rest)"
      "drop (64 - r) data = pre @ rest" "length rest < 64" "length pre mod 64 = 0" "represents ctx' ((msg @ take (64 - r) data) @ pre)"
      using add_chunks_represents [OF fill] by metis
    define msg' where "msg' = (msg @ take (64 - r) data) @ pre"
    have data: "msg @ data = msg' @ rest"
      unfolding msg'_def using c(2) by (metis append.assoc append_take_drop_id)
    have z: "length msg' mod 64 = 0" unfolding msg'_def using fill(2) c(4) by (metis length_append mod_0 mod_add_eq add_0)
    have "sha_add pf ctx p data = (if rest \<noteq> [] then ctx'\<lparr>ctx_buf := take 0 (ctx_buf ctx') @ rest @ drop (0 + length rest) (ctx_buf ctx'),
        ctx_bytes := ctx_bytes ctx' + of_nat (length rest)\<rparr> else ctx')"
      using True c(1) unfolding sha_add_def bufsize Let_def by (simp add: ctx1_def buf_def)
    then show ?thesis
      using represents_store [OF c(5) [folded msg'_def], of rest] c(3) c(5) [folded msg'_def] unfolding data z by auto
  next
    case False
    then have "length data < 64" by simp
    then have "sha_add pf ctx p data = (if data \<noteq> [] then ctx\<lparr>ctx_buf := take r (ctx_buf ctx) @ data @ drop (r + length data) (ctx_buf ctx),
        ctx_bytes := ctx_bytes ctx + of_nat (length data)\<rparr> else ctx)"
      using False unfolding sha_add_def bufsize Let_def by (simp add: add_chunks.simps [of pf ctx p data])
    then show ?thesis using represents_store [OF assms, of data] False assms unfolding r_def by auto
  qed
qed

section \<open>Byte sinks\<close>

text \<open>
  What a client of a hash relies on: a context stands for the bytes it was given, and an
  update appends to them.
\<close>

locale byte_sink =
  fixes start :: 'c and put :: "'c \<Rightarrow> nat \<Rightarrow> u8 list \<Rightarrow> 'c" and holds :: "'c \<Rightarrow> u8 list \<Rightarrow> bool"
  assumes holds_start: "holds start []"
    and holds_put: "holds c msg \<Longrightarrow> holds (put c p data) (msg @ data)"
begin

lemma holds_fold:
  "holds c msg \<Longrightarrow> holds (fold (\<lambda>(p, data) c. put c p data) ds c) (msg @ concat (map snd ds))"
proof (induction ds arbitrary: c msg)
  case (Cons d ds)
  show ?case using Cons.IH [OF holds_put [OF Cons.prems, of "fst d" "snd d"]] by (simp add: case_prod_beta)
qed simp

lemma holds_start_fold: "holds (fold (\<lambda>(p, data) c. put c p data) ds start) (concat (map snd ds))"
  using holds_fold [OF holds_start, of ds] by simp

end

interpretation sha: byte_sink SHA256_INIT "sha_add pf" represents for pf
proof
  show "represents SHA256_INIT []"
    by (simp add: represents_def fips_blocks_short) (simp add: SHA256_INIT_def)
  show "represents c msg \<Longrightarrow> represents (sha_add pf c p data) (msg @ data)" for c msg p data
    by (rule sha_add_represents)
qed

lemma check_sha256_represents:
  assumes "represents ctx msg" and "length msg < 2 ^ 61"
  shows "check_sha256 ctx = Done ()"
proof -
  have "unat (ctx_bytes ctx) = length msg"
    using assms by (simp add: represents_def unat_of_nat)
  moreover have "unat (- 1 :: u64) = 2 ^ 64 - 1" by (simp add: unsigned_minus_1_eq_mask mask_eq_exp_minus_1)
  ultimately have "ctx_bytes ctx \<noteq> - 1" using assms(2) by auto
  then show ?thesis by (simp add: check_sha256_def)
qed

lemma sha256_update_represents:
  assumes "represents ctx msg" and "length msg < 2 ^ 61"
  shows "\<exists>ctx'. sha256_update pf ctx p data = Done ctx' \<and> represents ctx' (msg @ data)"
  using check_sha256_represents [OF assms] sha_add_represents [OF assms(1), of pf p data]
  by (simp add: sha256_update_def)

lemma be_bytes_cpu_to_be:
  "mem_bytes le 2 (cpu_to_be16 le x) = be_bytes 2 x"
  "mem_bytes le 4 (cpu_to_be32 le y) = be_bytes 4 y"
  "mem_bytes le 8 (cpu_to_be64 le z) = be_bytes 8 z"
  by (simp_all add: mem_bytes_def cpu_to_be16_def cpu_to_be32_def cpu_to_be64_def le_bytes_BSWAP)

lemma le_bytes_cpu_to_le:
  "mem_bytes le 2 (cpu_to_le16 le x) = le_bytes 2 x"
  "mem_bytes le 4 (cpu_to_le32 le y) = le_bytes 4 y"
  "mem_bytes le 8 (cpu_to_le64 le z) = le_bytes 8 z"
  by (simp_all add: mem_bytes_def cpu_to_le16_def cpu_to_le32_def cpu_to_le64_def be_bytes_def le_bytes_BSWAP)

lemma sha256_done_represents:
  assumes "represents ctx msg"
  shows "fst (sha256_done pf ctx p q) = fips_sha256 msg"
proof -
  define r where "r = length msg mod 64"
  have r: "unat (ctx_bytes ctx mod 64) = r" "r < 64"
    using assms by (simp_all add: represents_def unat_bytes_mod r_def)
  have "1 + (128 - 8 - r - 1) mod 64 \<le> 64" using r(2) by (simp add: Suc_le_eq)
  then have pad: "take (1 + (128 - 8 - r - 1) mod 64) (0x80 # replicate 63 0) = (0x80 :: u8) # replicate ((119 - r) mod 64) 0"
    by (simp add: min_def)
  have size: "push_bit 3 (ctx_bytes ctx) = (of_nat (8 * length msg) :: u64)"
    using assms by (simp add: represents_def push_bit_eq_mult)
  have "represents (sha_add pf (sha_add pf ctx p (0x80 # replicate ((119 - r) mod 64) 0)) q (be_bytes 8 (of_nat (8 * length msg) :: u64)))
      (fips_pad msg)"
    using sha_add_represents [OF sha_add_represents [OF assms, of pf p "0x80 # replicate ((119 - r) mod 64) 0"],
        of pf q "be_bytes 8 (of_nat (8 * length msg) :: u64)"]
    by (simp add: fips_pad_def r_def)
  then show ?thesis
    unfolding sha256_done_def Let_def r(1) pad size be_bytes_cpu_to_be fips_sha256_def represents_def by simp
qed

section \<open>Properties\<close>

text \<open>C19 (equivalence).  \<open>Transform\<close>, with its rotating register variables and its sixteen
  words updated in place, computes the compression function of FIPS 180-4 on every platform.\<close>

theorem Transform_equals_fips:
  assumes "length s = 8" and "length chunk = 64"
  shows "Transform pf s chunk = fips_compress s chunk"
  using assms by (rule Transform_fips)

text \<open>C20 (refinement).  Hashing a message in any number of pieces, at any addresses, never
  trips the assertion and gives the FIPS 180-4 hash of the whole message.\<close>

theorem sha256_streaming:
  assumes "length (concat (map snd ds)) < 2 ^ 61"
  shows "\<exists>ctx. fold (\<lambda>(p, data) c. bind_outcome c (\<lambda>c. sha256_update pf c p data)) ds (Done sha256_init) = Done ctx \<and>
    fst (sha256_done pf ctx q r) = fips_sha256 (concat (map snd ds))"
proof -
  have "\<exists>ctx. fold (\<lambda>(p, data) c. bind_outcome c (\<lambda>c. sha256_update pf c p data)) ds (Done c) = Done ctx \<and>
      represents ctx (msg @ concat (map snd ds))"
    if "represents c msg" "length (msg @ concat (map snd ds)) < 2 ^ 61" for c msg
    using that
  proof (induction ds arbitrary: c msg)
    case (Cons d ds)
    obtain c' where c': "sha256_update pf c (fst d) (snd d) = Done c'" "represents c' (msg @ snd d)"
      using sha256_update_represents [OF Cons.prems(1), of pf "fst d" "snd d"] Cons.prems(2) by auto
    show ?case using Cons.IH [OF c'(2)] Cons.prems(2) c'(1) by (simp add: case_prod_beta add.assoc)
  qed simp
  from this [OF sha.holds_start] assms sha256_done_represents show ?thesis
    by (fastforce simp: sha256_init_def)
qed

lemma sha256_eq:
  assumes "length data < 2 ^ 61"
  shows "sha256 pf q r p data = Done (fips_sha256 data)"
proof -
  obtain c where "sha256_update pf sha256_init p data = Done c" "represents c data"
    using sha256_update_represents [OF sha.holds_start, of pf p data] by (auto simp: sha256_init_def)
  then show ?thesis by (simp add: sha256_def sha256_done_represents)
qed

text \<open>A context that \<open>sha256_done\<close> has consumed cannot be used again: every
  further update aborts.\<close>

theorem sha256_done_invalidates:
  "sha256_update pf (snd (sha256_done pf ctx q r)) p data = Abort"
  by (simp add: sha256_done_def Let_def sha256_update_def check_sha256_def invalidate_sha256_def)

lemma Transform_equals_fips_witness:
  "Transform \<lparr>little_endian = True, unaligned_access = False\<rparr> (ctx_s SHA256_INIT) (replicate 64 0) = fips_compress (ctx_s SHA256_INIT) (replicate 64 0)"
  by (rule Transform_equals_fips) simp_all

lemma sha256_streaming_witness:
  "\<exists>ctx. fold (\<lambda>(p, data) c. bind_outcome c (\<lambda>c. sha256_update \<lparr>little_endian = True, unaligned_access = False\<rparr> c p data)) [(0, [0x61]), (7, replicate 64 0x62)] (Done sha256_init) = Done ctx \<and>
    fst (sha256_done \<lparr>little_endian = True, unaligned_access = False\<rparr> ctx 0 64) = fips_sha256 (0x61 # replicate 64 0x62)"
  using sha256_streaming [of "[(0, [0x61]), (7, replicate 64 0x62)]" "\<lparr>little_endian = True, unaligned_access = False\<rparr>" 0 64] by simp

end
