(* ===== verification/HashU5.thy ===== *)
theory HashU5
  imports Sha256 Segwit
begin

text \<open>
  \<open>hash_u5.c\<close>: the hash that a BOLT11 signature covers, of a prefix followed by five-bit
  values packed into bytes.  The packer keeps at most 31 pending bits and hands 32 at a time to
  the SHA-256 context.  It is shown to hash what \<open>bech32_convert_bits\<close> would produce.
\<close>

record hash_u5 =
  hu5_buf :: u64
  hu5_num_bits :: nat
  hu5_hash :: sha256_ctx

definition hash_u5_init :: "platform \<Rightarrow> nat \<Rightarrow> cstr \<Rightarrow> hash_u5 outcome" where
  "hash_u5_init pf p hrp =
     bind_outcome (sha256_update pf sha256_init p hrp) (\<lambda>h.
       Done \<lparr>hu5_buf = 0, hu5_num_bits = 0, hu5_hash = h\<rparr>)"

text \<open>\<open>while (bits)\<close>; \<open>p\<close> is the address of the local \<open>be32\<close>.\<close>

function hash_u5_loop :: "platform \<Rightarrow> nat \<Rightarrow> hash_u5 \<Rightarrow> nat \<Rightarrow> u5 list \<Rightarrow> hash_u5 outcome" where
  "hash_u5_loop pf p hu5 bits u5s =
     (if bits = 0 then Done hu5
      else case u5s of [] \<Rightarrow> Undefined
      | u # us \<Rightarrow>
          let n = (if bits < 5 then bits else 5);
              buf = push_bit n (hu5_buf hu5) OR ucast (drop_bit (5 - n) u);
              num_bits = hu5_num_bits hu5 + n;
              u5s' = (if n = 5 then us else u5s)
          in if num_bits \<ge> 32 then
               bind_outcome (sha256_update pf (hu5_hash hu5) p
                   (mem_bytes (little_endian pf) 4
                     (cpu_to_be32 (little_endian pf) (ucast (drop_bit (num_bits - 32) buf))))) (\<lambda>h.
                 hash_u5_loop pf p \<lparr>hu5_buf = buf, hu5_num_bits = num_bits - 32, hu5_hash = h\<rparr> (bits - n) u5s')
             else hash_u5_loop pf p \<lparr>hu5_buf = buf, hu5_num_bits = num_bits, hu5_hash = hu5_hash hu5\<rparr> (bits - n) u5s')"
  by pat_completeness auto
termination
  by (relation "measure (\<lambda>(pf, p, hu5, bits, u5s). bits)") (auto split: if_splits)

declare hash_u5_loop.simps [simp del]

definition hash_u5 :: "platform \<Rightarrow> nat \<Rightarrow> hash_u5 \<Rightarrow> u5 list \<Rightarrow> hash_u5 outcome" where
  "hash_u5 pf p hu5 u5s = hash_u5_loop pf p hu5 (length u5s * 5) u5s"

definition hash_u5_done :: "platform \<Rightarrow> nat \<Rightarrow> nat \<Rightarrow> nat \<Rightarrow> hash_u5 \<Rightarrow> u8 list outcome" where
  "hash_u5_done pf p q r hu5 =
     bind_outcome
       (if hu5_num_bits hu5 \<noteq> 0 then
          sha256_update pf (hu5_hash hu5) p
            (take ((hu5_num_bits hu5 + 7) div 8)
              (mem_bytes (little_endian pf) 4
                (cpu_to_be32 (little_endian pf) (ucast (push_bit (32 - hu5_num_bits hu5) (hu5_buf hu5))))))
        else Done (hu5_hash hu5))
       (\<lambda>h. Done (fst (sha256_done pf h q r)))"

section \<open>The bits that were hashed\<close>

text \<open>The state stands for a prefix of bytes and the bits packed after it.\<close>

definition packs :: "hash_u5 \<Rightarrow> u8 list \<Rightarrow> bool list \<Rightarrow> bool" where
  "packs hu5 pre bits \<longleftrightarrow> hu5_num_bits hu5 < 32 \<and>
     (\<exists>msg. represents (hu5_hash hu5) (pre @ msg) \<and>
        group_bits 8 msg @ msb_bits (hu5_num_bits hu5) (hu5_buf hu5) = bits)"

lemma le_bytes_take_bits: "group_bits 8 (be_bytes 4 w) = msb_bits 32 (w :: u32)"
proof -
  have m: "msb_bits 8 (ucast (drop_bit k w) :: u8) = msb_bits 8 (drop_bit k w)" for k
    by (auto simp: msb_bits_eq_iff msb_bits_def bit_simps)
  have "be_bytes 4 w = [ucast (drop_bit 24 w), ucast (drop_bit 16 w), ucast (drop_bit 8 w), ucast w]"
    by (simp add: be_bytes_def le_bytes_def upt_rec)
  then show ?thesis
    using msb_bits_split [of 24 32 w] msb_bits_split [of 16 24 w] msb_bits_split [of 8 16 w] m [of 0]
    by (simp add: m)
qed

lemma msb_bits_ucast_drop:
  "k \<le> 32 \<Longrightarrow> m + k \<le> 64 \<Longrightarrow> msb_bits k (ucast (drop_bit m (b :: u64)) :: u32) = msb_bits k (drop_bit m b)"
  by (auto simp: msb_bits_eq_iff msb_bits_def bit_simps)

lemma hash_u5_loop_packs:
  assumes "packs hu5 pre bits" and "groups_ok 5 us" and "length pre + length bits + 5 * length us < 2 ^ 61"
  shows "\<exists>hu5'. hash_u5_loop pf p hu5 (length us * 5) us = Done hu5' \<and> packs hu5' pre (bits @ group_bits 5 us)"
  using assms
proof (induction us arbitrary: hu5 bits)
  case Nil
  then show ?case by (simp add: hash_u5_loop.simps)
next
  case (Cons u us)
  let ?n = "hu5_num_bits hu5" and ?b = "push_bit 5 (hu5_buf hu5) OR ucast u"
  obtain msg where msg: "represents (hu5_hash hu5) (pre @ msg)" "group_bits 8 msg @ msb_bits ?n (hu5_buf hu5) = bits"
    and n: "?n < 32" using Cons.prems(1) by (auto simp: packs_def)
  have u: "take_bit 5 u = u" using Cons.prems(2) by simp
  then have "take_bit 5 (ucast u :: u64) = ucast u" by (simp flip: unsigned_take_bit_eq)
  then have new: "msb_bits (?n + 5) ?b = msb_bits ?n (hu5_buf hu5) @ msb_bits 5 (ucast u :: u64)"
    using n by (subst msb_bits_push_or) auto
  have mu: "msb_bits 5 (ucast u :: u64) = msb_bits 5 u"
    by (auto simp: msb_bits_eq_iff msb_bits_def bit_simps)
  have len: "8 * length msg + ?n = length bits" using arg_cong [OF msg(2), of length] by simp
  show ?case
  proof (cases "?n + 5 \<ge> 32")
    case False
    have "packs \<lparr>hu5_buf = ?b, hu5_num_bits = ?n + 5, hu5_hash = hu5_hash hu5\<rparr> pre (bits @ msb_bits 5 u)"
      using msg new mu False unfolding packs_def by (intro conjI exI [of _ msg]) auto
    from Cons.IH [OF this] Cons.prems(2,3) False show ?thesis
      by (simp add: hash_u5_loop.simps [of pf p hu5] Let_def)
  next
    case True
    let ?w = "ucast (drop_bit (?n + 5 - 32) ?b) :: u32"
    have "length (pre @ msg) < 2 ^ 61" using Cons.prems(3) len by simp
    from sha256_update_represents [OF msg(1) this, of pf p "be_bytes 4 ?w"]
    obtain h where h: "sha256_update pf (hu5_hash hu5) p (be_bytes 4 ?w) = Done h" "represents h (pre @ msg @ be_bytes 4 ?w)"
      by auto
    have "group_bits 8 (be_bytes 4 ?w) @ msb_bits (?n + 5 - 32) ?b = msb_bits (?n + 5) ?b"
      using True n msb_bits_split [of "?n + 5 - 32" "?n + 5" ?b] msb_bits_ucast_drop [of 32 "?n + 5 - 32" ?b]
      by (simp add: le_bytes_take_bits)
    then have "packs \<lparr>hu5_buf = ?b, hu5_num_bits = ?n + 5 - 32, hu5_hash = h\<rparr> pre (bits @ msb_bits 5 u)"
      using h(2) msg(2) new mu n unfolding packs_def
      by (intro conjI exI [of _ "msg @ be_bytes 4 ?w"]) auto
    from Cons.IH [OF this] Cons.prems(2,3) True h(1) show ?thesis
      by (simp add: hash_u5_loop.simps [of pf p hu5] Let_def be_bytes_cpu_to_be)
  qed
qed

lemma hash_u5_packs:
  assumes "packs hu5 pre bits" and "groups_ok 5 us" and "length pre + length bits + 5 * length us < 2 ^ 61"
  shows "\<exists>hu5'. hash_u5 pf p hu5 us = Done hu5' \<and> packs hu5' pre (bits @ group_bits 5 us)"
  using hash_u5_loop_packs [OF assms] by (simp add: hash_u5_def)

lemma hash_u5_init_packs:
  "\<exists>hu5. hash_u5_init pf p hrp = Done hu5 \<and> packs hu5 hrp []"
proof -
  obtain h where "sha256_update pf SHA256_INIT p hrp = Done h" "represents h hrp"
    using sha256_update_represents [OF sha.holds_start, of pf p hrp] by auto
  then show ?thesis
    by (auto simp: hash_u5_init_def sha256_init_def packs_def intro!: exI [of "\<lambda>msg. represents h (hrp @ msg) \<and> group_bits 8 msg = []" "[]"])
qed

text \<open>The bytes written for the last, incomplete word.\<close>

lemma take_be_bytes_bits:
  assumes "m \<le> 4"
  shows "group_bits 8 (take m (be_bytes 4 w)) = take (8 * m) (msb_bits 32 (w :: u32))"
proof -
  have "group_bits 8 (take m bs) = take (8 * m) (group_bits 8 bs)" for bs
  proof (induction bs arbitrary: m)
    case (Cons b bs)
    then show ?case by (cases m) simp_all
  qed simp
  then show ?thesis by (simp add: le_bytes_take_bits)
qed

lemma hash_u5_done_packs:
  assumes "packs hu5 pre bits" and "length pre + length bits < 2 ^ 61"
  shows "\<exists>msg k. hash_u5_done pf p q r hu5 = Done (fips_sha256 (pre @ msg)) \<and> k < 8 \<and>
    group_bits 8 msg = bits @ replicate k False"
proof -
  obtain msg where msg: "represents (hu5_hash hu5) (pre @ msg)" "group_bits 8 msg @ msb_bits (hu5_num_bits hu5) (hu5_buf hu5) = bits"
    and n: "hu5_num_bits hu5 < 32" using assms(1) by (auto simp: packs_def)
  show ?thesis
  proof (cases "hu5_num_bits hu5 = 0")
    case True
    then show ?thesis using msg by (intro exI [of _ msg] exI [of _ 0]) (simp add: hash_u5_done_def sha256_done_represents)
  next
    case False
    define n where "n = hu5_num_bits hu5"
    define m where "m = (n + 7) div 8"
    define w where "w = (ucast (push_bit (32 - n) (hu5_buf hu5)) :: u32)"
    have m: "m \<le> 4" "n \<le> 8 * m" "8 * m < n + 8" "8 * m \<le> 32" using \<open>hu5_num_bits hu5 < 32\<close> unfolding m_def n_def by auto
    have "length (pre @ msg) < 2 ^ 61" using assms(2) arg_cong [OF msg(2), of length] by simp
    from sha256_update_represents [OF msg(1) this, of pf p "take m (be_bytes 4 w)"]
    obtain h where h: "sha256_update pf (hu5_hash hu5) p (take m (be_bytes 4 w)) = Done h"
      "represents h ((pre @ msg) @ take m (be_bytes 4 w))" by auto
    have "msb_bits 32 w = msb_bits n (hu5_buf hu5) @ replicate (32 - n) False"
      using \<open>hu5_num_bits hu5 < 32\<close> unfolding w_def n_def
      by (intro nth_equalityI) (auto simp: nth_msb_bits nth_append bit_simps)
    then have "take (8 * m) (msb_bits 32 w) = msb_bits n (hu5_buf hu5) @ replicate (8 * m - n) False"
      using m by simp
    then have "group_bits 8 (msg @ take m (be_bytes 4 w)) = bits @ replicate (8 * m - n) False"
      using msg(2) m(1) by (simp add: take_be_bytes_bits n_def flip: append_assoc)
    moreover have "hash_u5_done pf p q r hu5 = Done (fips_sha256 (pre @ msg @ take m (be_bytes 4 w)))"
      using False h(1) sha256_done_represents [OF h(2), of pf q r]
      by (simp add: hash_u5_done_def be_bytes_cpu_to_be m_def w_def n_def)
    ultimately show ?thesis using m(3) by (intro exI [of _ "msg @ take m (be_bytes 4 w)"] exI [of _ "8 * m - n"]) simp
  qed
qed

lemma padded_bytes_unique:
  assumes "group_bits 8 a = bits @ replicate j False" "j < 8" "group_bits 8 b = bits @ replicate k False" "k < 8"
  shows "a = b"
proof -
  have l: "8 * length a = length bits + j" "8 * length b = length bits + k"
    using arg_cong [OF assms(1), of length] arg_cong [OF assms(3), of length] by simp_all
  then have "length a = length b" using assms(2,4) by linarith
  moreover from this have "j = k" using l by simp
  ultimately show ?thesis using assms(1,3) by (intro group_bits_inj [of a b 8]) simp_all
qed

section \<open>Properties\<close>

text \<open>C26 (equivalence).  Fed a prefix and then any sequence of five-bit arrays,
  \<open>hash_u5\<close> computes the SHA-256 hash of the prefix followed by the bytes that
  \<open>bech32_convert_bits\<close> produces, with padding, from all the five-bit values: splitting
  the values over several calls makes no difference.\<close>

theorem hash_u5_packs_bytes:
  assumes "groups_ok 5 (concat uss)" and "length hrp + 5 * length (concat uss) < 2 ^ 61"
  shows "bind_outcome (hash_u5_init pf p hrp) (\<lambda>h.
      bind_outcome (fold (\<lambda>us h. bind_outcome h (\<lambda>h. hash_u5 pf p h us)) uss (Done h)) (hash_u5_done pf p q r))
    = Done (fips_sha256 (hrp @ snd (bech32_convert_bits 8 (concat uss) 5 True)))"
proof -
  obtain hu5 where i: "hash_u5_init pf p hrp = Done hu5" "packs hu5 hrp []"
    using hash_u5_init_packs by blast
  have "\<exists>h'. fold (\<lambda>us h. bind_outcome h (\<lambda>h. hash_u5 pf p h us)) uss (Done h) = Done h' \<and> packs h' hrp (bits @ group_bits 5 (concat uss))"
    if "packs h hrp bits" "groups_ok 5 (concat uss)" "length hrp + length bits + 5 * length (concat uss) < 2 ^ 61" for h bits
    using that
  proof (induction uss arbitrary: h bits)
    case (Cons us uss)
    obtain h1 where h1: "hash_u5 pf p h us = Done h1" "packs h1 hrp (bits @ group_bits 5 us)"
      using hash_u5_packs [OF Cons.prems(1), of us pf p] Cons.prems(2,3) by auto
    show ?case using Cons.IH [OF h1(2)] Cons.prems(2,3) h1(1) by simp
  qed simp
  from this [OF i(2) assms(1)] assms(2) obtain h'
    where f: "fold (\<lambda>us h. bind_outcome h (\<lambda>h. hash_u5 pf p h us)) uss (Done hu5) = Done h'"
      "packs h' hrp (group_bits 5 (concat uss))" by auto
  obtain msg k where d: "hash_u5_done pf p q r h' = Done (fips_sha256 (hrp @ msg))" "k < 8"
    "group_bits 8 msg = group_bits 5 (concat uss) @ replicate k False"
    using hash_u5_done_packs [OF f(2), of pf p q r] assms(2) by auto
  obtain ok out where c: "bech32_convert_bits 8 (concat uss) 5 True = (ok, out)"
    by (cases "bech32_convert_bits 8 (concat uss) 5 True")
  obtain j where "j < 8" "group_bits 8 out = group_bits 5 (concat uss) @ replicate j False"
    using convert_bits_pad(3) [OF _ _ _ assms(1) c] by auto
  then have "msg = out" using d(2,3) padded_bytes_unique by blast
  then show ?thesis using i(1) f(1) d(1) c by simp
qed

lemma hash_u5_packs_bytes_witness:
  "bind_outcome (hash_u5_init \<lparr>little_endian = True, unaligned_access = False\<rparr> 0 (cs ''lnbc'')) (\<lambda>h.
      bind_outcome (fold (\<lambda>us h. bind_outcome h (\<lambda>h. hash_u5 \<lparr>little_endian = True, unaligned_access = False\<rparr> 0 h us)) [[1, 2], [31]] (Done h)) (hash_u5_done \<lparr>little_endian = True, unaligned_access = False\<rparr> 0 8 16))
    = Done (fips_sha256 (cs ''lnbc'' @ snd (bech32_convert_bits 8 [1, 2, 31] 5 True)))"
  using hash_u5_packs_bytes [of "[[1, 2], [31]]" "cs ''lnbc''" "\<lparr>little_endian = True, unaligned_access = False\<rparr>" 0 8 16]
  by (simp add: take_bit_eq_mod del: cs_simps)

end
