(* ===== verification/Amount.thy ===== *)
theory Amount
  imports Mem
begin

text \<open>
  \<open>overflows.h\<close> and \<open>amount.c\<close>: amounts of satoshis and millisatoshis in 64 bits,
  with checked arithmetic, conversions, fees, parsing and formatting.  A function that returns
  \<open>bool\<close> and stores its result through a pointer returns an option here.  The functions
  over \<open>double\<close> (\<open>amount_msat_scale\<close>, \<open>amount_sat_scale\<close>, \<open>amount_msat_ratio\<close>)
  are not modelled.
\<close>

section \<open>Overflow checks\<close>

text \<open>\<open>size_t\<close> has 64 bits: the casts of \<open>add_overflows_size_t\<close> change nothing.\<close>

definition add_overflows_size_t :: "u64 \<Rightarrow> u64 \<Rightarrow> bool" where
  "add_overflows_size_t a b \<longleftrightarrow> (ucast a :: 64 word) \<noteq> a \<or> (ucast b :: 64 word) \<noteq> b \<or> a + b < ucast a"

definition add_overflows_u64 :: "u64 \<Rightarrow> u64 \<Rightarrow> bool" where
  "add_overflows_u64 a b \<longleftrightarrow> a + b < a"

definition mul_overflows_u64 :: "u64 \<Rightarrow> u64 \<Rightarrow> bool" where
  "mul_overflows_u64 a b \<longleftrightarrow> (if a = 0 then False else a * b div a \<noteq> b)"

text \<open>The value stored in \<open>*dst\<close>, and the returned flag.\<close>

definition assign_overflow_u8 :: "u64 \<Rightarrow> u8 \<times> bool" where
  "assign_overflow_u8 v = (let dst = ucast v in (dst, ucast dst = v))"
definition assign_overflow_u16 :: "u64 \<Rightarrow> u16 \<times> bool" where
  "assign_overflow_u16 v = (let dst = ucast v in (dst, ucast dst = v))"
definition assign_overflow_u32 :: "u64 \<Rightarrow> u32 \<times> bool" where
  "assign_overflow_u32 v = (let dst = ucast v in (dst, ucast dst = v))"

lemma u64_less: "unat (a :: u64) < 18446744073709551616"
  using unsigned_less [of a, where 'a = nat] by simp

lemma add_overflows_iff: "add_overflows_u64 a b \<longleftrightarrow> unat a + unat b \<ge> 2 ^ 64"
proof -
  have "unat (a + b) = (if unat a + unat b < 2 ^ 64 then unat a + unat b else unat a + unat b - 2 ^ 64)"
    using unat_plus_if' [of a b] by simp
  then show ?thesis
    using u64_less [of b] by (auto simp: add_overflows_u64_def word_less_nat_alt split: if_splits)
qed

lemma add_overflows_size_t_eq: "add_overflows_size_t a b = add_overflows_u64 a b"
  by (simp add: add_overflows_size_t_def add_overflows_u64_def)

lemma mul_overflows_iff: "mul_overflows_u64 a b \<longleftrightarrow> unat a * unat b \<ge> 2 ^ 64"
proof (cases "a = 0")
  case False
  then have a: "0 < unat a" by (simp add: unat_gt_0)
  show ?thesis
  proof
    assume o: "mul_overflows_u64 a b"
    show "unat a * unat b \<ge> 2 ^ 64"
    proof (rule ccontr)
      assume "\<not> unat a * unat b \<ge> 2 ^ 64"
      then have "unat (a * b) = unat a * unat b" by (simp add: unat_word_ariths)
      then have "unat (a * b div a) = unat b" using a by (simp add: unat_div)
      then show False using o False by (simp add: mul_overflows_u64_def word_unat_eq_iff)
    qed
  next
    assume o: "unat a * unat b \<ge> 2 ^ 64"
    have "a * b div a \<noteq> b"
    proof
      assume "a * b div a = b"
      then have "unat (a * b) div unat a = unat b" by (metis unat_div)
      then have "unat a * unat b \<le> unat (a * b)" by (metis times_div_less_eq_dividend)
      then show False using o u64_less [of "a * b"] by simp
    qed
    then show "mul_overflows_u64 a b" using False by (simp add: mul_overflows_u64_def)
  qed
qed (simp add: mul_overflows_u64_def)

lemma unat_add_no_overflow: "\<not> add_overflows_u64 a b \<Longrightarrow> unat (a + b) = unat a + unat b"
  by (simp add: add_overflows_iff unat_word_ariths)

lemma unat_mult_no_overflow: "\<not> mul_overflows_u64 a b \<Longrightarrow> unat (a * b) = unat a * unat b"
  by (simp add: mul_overflows_iff unat_word_ariths)

section \<open>Amounts\<close>

datatype amount_sat = AMOUNT_SAT (satoshis: u64)
datatype amount_msat = AMOUNT_MSAT (millisatoshis: u64)

definition MSAT_PER_SAT :: u64 where "MSAT_PER_SAT = 1000"
definition SAT_PER_BTC :: u64 where "SAT_PER_BTC = 100000000"
definition MSAT_PER_BTC :: u64 where "MSAT_PER_BTC = MSAT_PER_SAT * SAT_PER_BTC"

definition amount_msat :: "u64 \<Rightarrow> amount_msat" where "amount_msat v = AMOUNT_MSAT v"
definition amount_sat :: "u64 \<Rightarrow> amount_sat" where "amount_sat v = AMOUNT_SAT v"

definition amount_sat_to_msat :: "amount_sat \<Rightarrow> amount_msat option" where
  "amount_sat_to_msat sat =
     (if mul_overflows_u64 (satoshis sat) MSAT_PER_SAT then None
      else Some (AMOUNT_MSAT (satoshis sat * MSAT_PER_SAT)))"

definition amount_msat_to_sat :: "amount_msat \<Rightarrow> amount_sat option" where
  "amount_msat_to_sat msat =
     (if millisatoshis msat mod MSAT_PER_SAT \<noteq> 0 then None
      else Some (AMOUNT_SAT (millisatoshis msat div MSAT_PER_SAT)))"

definition amount_msat_to_sat_round_down :: "amount_msat \<Rightarrow> amount_sat" where
  "amount_msat_to_sat_round_down msat = AMOUNT_SAT (millisatoshis msat div MSAT_PER_SAT)"

definition amount_msat_add :: "amount_msat \<Rightarrow> amount_msat \<Rightarrow> amount_msat option" where
  "amount_msat_add a b =
     (if add_overflows_u64 (millisatoshis a) (millisatoshis b) then None
      else Some (AMOUNT_MSAT (millisatoshis a + millisatoshis b)))"

definition amount_msat_sub :: "amount_msat \<Rightarrow> amount_msat \<Rightarrow> amount_msat option" where
  "amount_msat_sub a b =
     (if millisatoshis a < millisatoshis b then None
      else Some (AMOUNT_MSAT (millisatoshis a - millisatoshis b)))"

definition amount_sat_add :: "amount_sat \<Rightarrow> amount_sat \<Rightarrow> amount_sat option" where
  "amount_sat_add a b =
     (if add_overflows_u64 (satoshis a) (satoshis b) then None
      else Some (AMOUNT_SAT (satoshis a + satoshis b)))"

definition amount_sat_sub :: "amount_sat \<Rightarrow> amount_sat \<Rightarrow> amount_sat option" where
  "amount_sat_sub a b =
     (if satoshis a < satoshis b then None else Some (AMOUNT_SAT (satoshis a - satoshis b)))"

definition amount_msat_sub_sat :: "amount_msat \<Rightarrow> amount_sat \<Rightarrow> amount_msat option" where
  "amount_msat_sub_sat a b =
     (case amount_sat_to_msat b of None \<Rightarrow> None | Some msatb \<Rightarrow> amount_msat_sub a msatb)"

definition amount_sat_sub_msat :: "amount_sat \<Rightarrow> amount_msat \<Rightarrow> amount_msat option" where
  "amount_sat_sub_msat a b =
     (case amount_sat_to_msat a of None \<Rightarrow> None | Some msata \<Rightarrow> amount_msat_sub msata b)"

definition amount_msat_add_sat :: "amount_msat \<Rightarrow> amount_sat \<Rightarrow> amount_msat option" where
  "amount_msat_add_sat a b =
     (case amount_sat_to_msat b of None \<Rightarrow> None | Some msatb \<Rightarrow> amount_msat_add a msatb)"

definition amount_sat_eq :: "amount_sat \<Rightarrow> amount_sat \<Rightarrow> bool" where
  "amount_sat_eq a b \<longleftrightarrow> satoshis a = satoshis b"
definition amount_sat_zero :: "amount_sat \<Rightarrow> bool" where
  "amount_sat_zero a \<longleftrightarrow> satoshis a = 0"
definition amount_msat_zero :: "amount_msat \<Rightarrow> bool" where
  "amount_msat_zero a \<longleftrightarrow> millisatoshis a = 0"
definition amount_msat_eq :: "amount_msat \<Rightarrow> amount_msat \<Rightarrow> bool" where
  "amount_msat_eq a b \<longleftrightarrow> millisatoshis a = millisatoshis b"
definition amount_sat_greater :: "amount_sat \<Rightarrow> amount_sat \<Rightarrow> bool" where
  "amount_sat_greater a b \<longleftrightarrow> satoshis a > satoshis b"
definition amount_msat_greater :: "amount_msat \<Rightarrow> amount_msat \<Rightarrow> bool" where
  "amount_msat_greater a b \<longleftrightarrow> millisatoshis a > millisatoshis b"
definition amount_sat_greater_eq :: "amount_sat \<Rightarrow> amount_sat \<Rightarrow> bool" where
  "amount_sat_greater_eq a b \<longleftrightarrow> satoshis a \<ge> satoshis b"
definition amount_msat_greater_eq :: "amount_msat \<Rightarrow> amount_msat \<Rightarrow> bool" where
  "amount_msat_greater_eq a b \<longleftrightarrow> millisatoshis a \<ge> millisatoshis b"
definition amount_sat_less :: "amount_sat \<Rightarrow> amount_sat \<Rightarrow> bool" where
  "amount_sat_less a b \<longleftrightarrow> satoshis a < satoshis b"
definition amount_msat_less :: "amount_msat \<Rightarrow> amount_msat \<Rightarrow> bool" where
  "amount_msat_less a b \<longleftrightarrow> millisatoshis a < millisatoshis b"
definition amount_sat_less_eq :: "amount_sat \<Rightarrow> amount_sat \<Rightarrow> bool" where
  "amount_sat_less_eq a b \<longleftrightarrow> satoshis a \<le> satoshis b"
definition amount_msat_less_eq :: "amount_msat \<Rightarrow> amount_msat \<Rightarrow> bool" where
  "amount_msat_less_eq a b \<longleftrightarrow> millisatoshis a \<le> millisatoshis b"

definition amount_msat_greater_sat :: "amount_msat \<Rightarrow> amount_sat \<Rightarrow> bool" where
  "amount_msat_greater_sat msat sat =
     (case amount_sat_to_msat sat of None \<Rightarrow> False | Some m \<Rightarrow> millisatoshis msat > millisatoshis m)"
definition amount_msat_greater_eq_sat :: "amount_msat \<Rightarrow> amount_sat \<Rightarrow> bool" where
  "amount_msat_greater_eq_sat msat sat =
     (case amount_sat_to_msat sat of None \<Rightarrow> False | Some m \<Rightarrow> millisatoshis msat \<ge> millisatoshis m)"
definition amount_msat_less_sat :: "amount_msat \<Rightarrow> amount_sat \<Rightarrow> bool" where
  "amount_msat_less_sat msat sat =
     (case amount_sat_to_msat sat of None \<Rightarrow> False | Some m \<Rightarrow> millisatoshis msat < millisatoshis m)"
definition amount_msat_less_eq_sat :: "amount_msat \<Rightarrow> amount_sat \<Rightarrow> bool" where
  "amount_msat_less_eq_sat msat sat =
     (case amount_sat_to_msat sat of None \<Rightarrow> False | Some m \<Rightarrow> millisatoshis msat \<le> millisatoshis m)"
definition amount_msat_eq_sat :: "amount_msat \<Rightarrow> amount_sat \<Rightarrow> bool" where
  "amount_msat_eq_sat msat sat =
     (case amount_sat_to_msat sat of None \<Rightarrow> False | Some m \<Rightarrow> millisatoshis msat = millisatoshis m)"

definition amount_msat_to_u32 :: "amount_msat \<Rightarrow> u32 option" where
  "amount_msat_to_u32 msat =
     (if amount_msat_greater_eq msat (AMOUNT_MSAT 0x100000000) then None else Some (ucast (millisatoshis msat)))"

text \<open>Division by zero is undefined in C.\<close>

definition amount_msat_div :: "amount_msat \<Rightarrow> u64 \<Rightarrow> amount_msat outcome" where
  "amount_msat_div msat d = (if d = 0 then Undefined else Done (AMOUNT_MSAT (millisatoshis msat div d)))"
definition amount_sat_div :: "amount_sat \<Rightarrow> u64 \<Rightarrow> amount_sat outcome" where
  "amount_sat_div sat d = (if d = 0 then Undefined else Done (AMOUNT_SAT (satoshis sat div d)))"

definition amount_msat_fee :: "amount_msat \<Rightarrow> u32 \<Rightarrow> u32 \<Rightarrow> amount_msat option" where
  "amount_msat_fee amt fee_base_msat fee_proportional_millionths =
     (if mul_overflows_u64 (millisatoshis amt) (ucast fee_proportional_millionths) then None
      else amount_msat_add (AMOUNT_MSAT (ucast fee_base_msat))
        (AMOUNT_MSAT (millisatoshis amt * ucast fee_proportional_millionths div 1000000)))"

definition amount_msat_add_fee :: "amount_msat \<Rightarrow> u32 \<Rightarrow> u32 \<Rightarrow> amount_msat option" where
  "amount_msat_add_fee amt fee_base_msat fee_proportional_millionths =
     (case amount_msat_fee amt fee_base_msat fee_proportional_millionths of
        None \<Rightarrow> None | Some fee \<Rightarrow> amount_msat_add amt fee)"

definition amount_tx_fee :: "u32 \<Rightarrow> u64 \<Rightarrow> amount_sat outcome" where
  "amount_tx_fee fee_per_kw weight =
     (if mul_overflows_u64 (ucast fee_per_kw) weight then Abort
      else Done (AMOUNT_SAT (ucast fee_per_kw * weight div 1000)))"

section \<open>Parsing\<close>

text \<open>
  A string argument is the list of its \<open>slen\<close> bytes; it may hold a NUL.  Pointers into it
  are offsets.  The loops of \<open>breakup\<close> over digits give the index where they stop, and
  whether they stopped at the end of the string.
\<close>

function scan_digits :: "cstr \<Rightarrow> nat \<Rightarrow> nat \<times> bool" where
  "scan_digits str i =
     (if i \<ge> length str \<or> str ! i = 0 then (i, True)
      else if is_digit_c (str ! i) then scan_digits str (Suc i)
      else (i, False))"
  by pat_completeness auto
termination by (relation "measure (\<lambda>(str, i). length str - i)") auto

declare scan_digits.simps [simp del]

record number_parts =
  whole_number_len :: nat
  post_decimal_ptr :: "nat option"
  post_decimal_len :: nat
  suffix_ptr :: "nat option"
  suffix_len :: nat

definition breakup :: "cstr \<Rightarrow> number_parts option" where
  "breakup str =
     (let (i, ended) = scan_digits str 0;
          np = \<lparr>whole_number_len = i, post_decimal_ptr = None, post_decimal_len = 0, suffix_ptr = None, suffix_len = 0\<rparr>
      in if ended then (if i \<noteq> 0 then Some np else None)
         else if str ! i = 46 then
           let p = Suc i;
               (j, ended) = scan_digits str p;
               np = np\<lparr>post_decimal_ptr := Some p, post_decimal_len := j - p\<rparr>
           in if ended then (if j \<noteq> p then Some np else None)
              else Some (np\<lparr>suffix_ptr := Some j, suffix_len := length str - j\<rparr>)
         else Some (np\<lparr>suffix_ptr := Some i, suffix_len := length str - i\<rparr>))"

fun from_number_digits :: "u64 \<Rightarrow> cstr \<Rightarrow> u64 option outcome" where
  "from_number_digits res [] = Done (Some res)"
| "from_number_digits res (c # s) =
     (if mul_overflows_u64 res 10 then Done None
      else let res = res * 10 in
        if \<not> is_digit_c c then Abort
        else if add_overflows_u64 res (word_of_int (char_int c - 48)) then Done None
        else from_number_digits (res + word_of_int (char_int c - 48)) s)"

fun from_number_tens :: "u64 \<Rightarrow> nat \<Rightarrow> u64 option" where
  "from_number_tens res 0 = Some res"
| "from_number_tens res (Suc n) = (if mul_overflows_u64 res 10 then None else from_number_tens (res * 10) n)"

definition from_number :: "cstr \<Rightarrow> nat \<Rightarrow> u64 option outcome" where
  "from_number s tens_factor =
     (if s = [] then Done None
      else bind_outcome (from_number_digits 0 s) (\<lambda>r.
        Done (case r of None \<Rightarrow> None | Some res \<Rightarrow> from_number_tens res tens_factor)))"

definition from_numbers :: "cstr \<Rightarrow> nat \<Rightarrow> cstr \<Rightarrow> u64 option outcome" where
  "from_numbers s1 tens_factor s2 =
     (if length s2 > tens_factor then Done None
      else bind_outcome (from_number s1 tens_factor) (\<lambda>r1.
        case r1 of None \<Rightarrow> Done None
        | Some p1 \<Rightarrow> bind_outcome (from_number s2 (tens_factor - length s2)) (\<lambda>r2.
            case r2 of None \<Rightarrow> Done None
            | Some p2 \<Rightarrow> Done (if add_overflows_u64 p1 p2 then None else Some (p1 + p2)))))"

text \<open>The bytes a pointer and a length denote; a NULL suffix has length 0.\<close>

definition part :: "cstr \<Rightarrow> nat option \<Rightarrow> nat \<Rightarrow> cstr" where
  "part s ptr len = (case ptr of None \<Rightarrow> [] | Some p \<Rightarrow> take len (drop p s))"

definition parse_amount_msat :: "cstr \<Rightarrow> amount_msat option outcome" where
  "parse_amount_msat s =
     (case breakup s of None \<Rightarrow> Done None
      | Some np \<Rightarrow>
          let whole = take (whole_number_len np) s;
              decimals = part s (post_decimal_ptr np) (post_decimal_len np);
              suffix = part s (suffix_ptr np) (suffix_len np);
              result = (\<lambda>n. bind_outcome n (\<lambda>r. Done (map_option AMOUNT_MSAT r)))
          in if post_decimal_ptr np = None \<and> suffix_ptr np = None then result (from_number whole 0)
             else if post_decimal_ptr np = None \<and> memstarts_str suffix (cs ''msat'') then result (from_number whole 0)
             else if post_decimal_ptr np = None \<and> memstarts_str suffix (cs ''sat'') then result (from_number whole 3)
             else if memstarts_str suffix (cs ''btc'') then
               if post_decimal_len np > 0 then result (from_numbers whole 11 decimals)
               else result (from_number whole 11)
             else Done None)"

definition parse_amount_sat :: "cstr \<Rightarrow> amount_sat option outcome" where
  "parse_amount_sat s =
     (case breakup s of None \<Rightarrow> Done None
      | Some np \<Rightarrow>
          let whole = take (whole_number_len np) s;
              decimals = part s (post_decimal_ptr np) (post_decimal_len np);
              suffix = part s (suffix_ptr np) (suffix_len np);
              result = (\<lambda>n. bind_outcome n (\<lambda>r. Done (map_option AMOUNT_SAT r)))
          in if post_decimal_ptr np = None \<and> suffix_ptr np = None then result (from_number whole 0)
             else if post_decimal_ptr np = None \<and> memstarts_str suffix (cs ''sat'') then result (from_number whole 0)
             else if post_decimal_ptr np = None \<and> memstarts_str suffix (cs ''msat'') then
               if \<not> memends whole (cs ''000'') then
                 if memstarts_str whole (cs ''0'') then result (from_number whole 0) else Done None
               else result (from_number (take (whole_number_len np - 3) s) 0)
             else if memstarts_str suffix (cs ''btc'') then
               if post_decimal_len np > 0 then result (from_numbers whole 8 decimals)
               else result (from_number whole 8)
             else Done None)"

section \<open>Formatting\<close>

text \<open>The conversions \<open>%PRIu64\<close> and \<open>%0<n>PRIu64\<close> of the C library.\<close>

function decimal :: "nat \<Rightarrow> cstr" where
  "decimal n = (if n < 10 then [] else decimal (n div 10)) @ [word_of_nat (48 + n mod 10)]"
  by pat_completeness auto
termination by (relation "measure id") auto

declare decimal.simps [simp del]

definition padded_decimal :: "nat \<Rightarrow> nat \<Rightarrow> cstr" where
  "padded_decimal w n = replicate (w - length (decimal n)) 48 @ decimal n"

definition fmt_amount_msat_btc :: "amount_msat \<Rightarrow> bool \<Rightarrow> cstr" where
  "fmt_amount_msat_btc msat append_unit =
     (if millisatoshis msat = 0 then (if append_unit then cs ''0btc'' else cs ''0'')
      else decimal (unat (millisatoshis msat div MSAT_PER_BTC)) @ cs ''.'' @
           padded_decimal 11 (unat (millisatoshis msat mod MSAT_PER_BTC)) @ (if append_unit then cs ''btc'' else []))"

definition fmt_amount_msat :: "amount_msat \<Rightarrow> cstr" where
  "fmt_amount_msat msat = decimal (unat (millisatoshis msat)) @ cs ''msat''"

definition fmt_amount_sat_btc :: "amount_sat \<Rightarrow> bool \<Rightarrow> cstr" where
  "fmt_amount_sat_btc sat append_unit =
     (if satoshis sat = 0 then (if append_unit then cs ''0btc'' else cs ''0'')
      else decimal (unat (satoshis sat div SAT_PER_BTC)) @ cs ''.'' @
           padded_decimal 8 (unat (satoshis sat mod SAT_PER_BTC)) @ (if append_unit then cs ''btc'' else []))"

definition fmt_amount_sat :: "amount_sat \<Rightarrow> cstr" where
  "fmt_amount_sat sat = decimal (unat (satoshis sat)) @ cs ''sat''"

section \<open>Numbers and their digits\<close>

definition dec_value :: "cstr \<Rightarrow> nat" where
  "dec_value s = foldl (\<lambda>n c. 10 * n + (unat c - 48)) 0 s"

definition digits :: "cstr \<Rightarrow> bool" where
  "digits s \<longleftrightarrow> (\<forall>c\<in>set s. is_digit_c c)"

lemma digits_simps [simp]: "digits []" "digits (c # s) \<longleftrightarrow> is_digit_c c \<and> digits s" "digits (s @ t) \<longleftrightarrow> digits s \<and> digits t"
  by (auto simp: digits_def)

lemma dec_value_snoc: "dec_value (s @ [c]) = 10 * dec_value s + (unat c - 48)"
  by (simp add: dec_value_def)

lemma is_digit_unat: "is_digit_c c \<longleftrightarrow> 48 \<le> unat c \<and> unat c \<le> 57"
  by (simp add: is_digit_c_def word_le_nat_alt)

lemma foldl_dec: "foldl (\<lambda>n c. 10 * n + (unat c - 48)) k s = k * 10 ^ length s + dec_value s"
proof (induction s arbitrary: k)
  case (Cons c s)
  show ?case
    using Cons.IH [of "10 * k + (unat c - 48)"] Cons.IH [of "unat c - 48"] by (simp add: dec_value_def algebra_simps)
qed (simp add: dec_value_def)

lemma dec_value_append: "dec_value (s @ t) = dec_value s * 10 ^ length t + dec_value t"
  using foldl_dec [of "dec_value s" t] by (simp add: dec_value_def)

lemma dec_value_Cons: "dec_value (c # s) = (unat c - 48) * 10 ^ length s + dec_value s"
  using foldl_dec [of "unat c - 48" s] by (simp add: dec_value_def)

lemma digit_word:
  assumes "is_digit_c c"
  shows "word_of_int (char_int c - 48) = (word_of_nat (unat c - 48) :: u64)"
    and "word_of_int (char_int c) - 48 = (word_of_nat (unat c - 48) :: u64)"
proof -
  have "char_int c - 48 = int (unat c - 48)"
    using assms by (simp add: is_digit_unat char_int_unat)
  then show "word_of_int (char_int c - 48) = (word_of_nat (unat c - 48) :: u64)" by simp
  then show "word_of_int (char_int c) - 48 = (word_of_nat (unat c - 48) :: u64)" by simp
qed

lemma from_number_digits_eq:
  "digits s \<Longrightarrow> from_number_digits res s = Done
     (let v = unat res * 10 ^ length s + dec_value s in if v < 2 ^ 64 then Some (word_of_nat v) else None)"
proof (induction s arbitrary: res)
  case Nil
  then show ?case using u64_less [of res] by (simp add: dec_value_def)
next
  case (Cons c s)
  define d where "d = unat c - 48"
  have d: "d < 10" "is_digit_c c" "digits s" using Cons.prems by (auto simp: d_def is_digit_unat)
  have ud: "unat (word_of_nat d :: u64) = d" using d(1) by (simp add: unat_of_nat)
  have v: "unat res * 10 ^ length (c # s) + dec_value (c # s) = (10 * unat res + d) * 10 ^ length s + dec_value s"
    by (simp add: dec_value_Cons d_def algebra_simps)
  have big: "x * 10 ^ length s + dec_value s \<ge> 2 ^ 64" if "x \<ge> 2 ^ 64" for x :: nat
  proof -
    have "x * 1 \<le> x * 10 ^ length s" by (intro mult_le_mono2) simp
    then show ?thesis using that by linarith
  qed
  show ?case
  proof (cases "mul_overflows_u64 res 10")
    case True
    then have "unat res * 10 \<ge> 2 ^ 64" by (simp add: mul_overflows_iff)
    then have "10 * unat res + d \<ge> 2 ^ 64" by simp
    from big [OF this] show ?thesis using True unfolding v by simp
  next
    case False
    note m = unat_mult_no_overflow [OF False]
    show ?thesis
    proof (cases "add_overflows_u64 (res * 10) (word_of_nat d)")
      case True
      then have "10 * unat res + d \<ge> 2 ^ 64" using m ud by (simp add: add_overflows_iff mult.commute)
      from big [OF this] show ?thesis
        using True False d(2) unfolding v by (simp add: digit_word [OF d(2)] d_def Let_def)
    next
      case add: False
      have "unat (res * 10 + word_of_nat d) = 10 * unat res + d"
        using unat_add_no_overflow [OF add] m ud by simp
      then show ?thesis
        using add False d(2) Cons.IH [OF d(3), of "res * 10 + word_of_nat d"] unfolding v
        by (simp add: digit_word d_def Let_def)
    qed
  qed
qed

lemma from_number_tens_eq:
  "from_number_tens res n = (let v = unat res * 10 ^ n in if v < 2 ^ 64 then Some (word_of_nat v) else None)"
proof (induction n arbitrary: res)
  case 0
  then show ?case using u64_less [of res] by simp
next
  case (Suc n)
  show ?case
  proof (cases "mul_overflows_u64 res 10")
    case True
    then have "unat res * 10 * 1 \<ge> 2 ^ 64" by (simp add: mul_overflows_iff)
    also have "unat res * 10 * 1 \<le> unat res * 10 * 10 ^ n" by (intro mult_le_mono2) simp
    also have "\<dots> = unat res * 10 ^ Suc n" by simp
    finally have "\<not> unat res * 10 ^ Suc n < 2 ^ 64" by (simp only: not_less)
    then show ?thesis using True unfolding Let_def by (simp only: if_False from_number_tens.simps if_True)
  next
    case False
    have "unat (res * 10) = unat res * 10" using unat_mult_no_overflow [OF False] by simp
    then have "unat (res * 10) * 10 ^ n = unat res * 10 ^ Suc n" by simp
    then show ?thesis using False Suc.IH [of "res * 10"] by (simp only: from_number_tens.simps if_False)
  qed
qed

text \<open>\<open>from_number\<close> gives the exact value, or fails exactly when it does not fit in 64 bits.\<close>

lemma from_number_eq:
  assumes "digits s"
  shows "from_number s n = Done (if s \<noteq> [] \<and> dec_value s * 10 ^ n < 2 ^ 64 then Some (word_of_nat (dec_value s * 10 ^ n)) else None)"
proof (cases "s = [] \<or> \<not> dec_value s < 2 ^ 64")
  case True
  have "dec_value s * 1 \<le> dec_value s * 10 ^ n" by (intro mult_le_mono2) simp
  then have "s = [] \<or> \<not> dec_value s * 10 ^ n < 2 ^ 64" using True by linarith
  then show ?thesis using True assms by (auto simp: from_number_def from_number_digits_eq Let_def)
next
  case False
  then show ?thesis using assms
    by (simp add: from_number_def from_number_digits_eq from_number_tens_eq unat_of_nat Let_def)
qed

lemma from_numbers_eq:
  assumes "digits s1" and "digits s2" and "s1 \<noteq> []" and "s2 \<noteq> []" and "length s2 \<le> t"
  shows "from_numbers s1 t s2 = Done
    (let v = dec_value s1 * 10 ^ t + dec_value s2 * 10 ^ (t - length s2)
     in if v < 2 ^ 64 then Some (word_of_nat v) else None)"
proof -
  have "\<not> t < length s2" using assms(5) by simp
  note eqs = from_numbers_def from_number_eq [OF assms(1)] from_number_eq [OF assms(2)]
  define a b where "a = dec_value s1 * 10 ^ t" and "b = dec_value s2 * 10 ^ (t - length s2)"
  note ab = a_def [symmetric] b_def [symmetric]
  show ?thesis
  proof (cases "a < 2 ^ 64 \<and> b < 2 ^ 64")
    case True
    then have "unat (word_of_nat a :: u64) = a" "unat (word_of_nat b :: u64) = b" by (simp_all add: unat_of_nat)
    then show ?thesis
      using \<open>\<not> t < length s2\<close> assms(3,4) True unfolding eqs ab by (simp add: add_overflows_iff Let_def not_less)
  next
    case False
    then have "\<not> a + b < 2 ^ 64" by auto
    then show ?thesis
      using \<open>\<not> t < length s2\<close> assms(3,4) False unfolding eqs ab by (auto simp: Let_def)
  qed
qed

text \<open>What \<open>scan_digits\<close> stops at.\<close>

lemma scan_digits_append:
  assumes that: "r = [] \<or> hd r = 0 \<or> \<not> is_digit_c (hd r)" and "digits d"
  shows "scan_digits (p @ d @ r) (length p) = (length p + length d, r = [] \<or> hd r = 0)"
  using assms(2)
proof (induction d arbitrary: p)
  case Nil
  show ?case using that by (subst scan_digits.simps, cases r) (auto simp: nth_append)
next
  case (Cons c d)
  then have "c \<noteq> 0" by (auto simp: is_digit_unat)
  have "scan_digits (p @ (c # d) @ r) (length p) = scan_digits ((p @ [c]) @ d @ r) (length (p @ [c]))"
    using Cons.prems \<open>c \<noteq> 0\<close> by (subst scan_digits.simps) (simp add: nth_append)
  also have "\<dots> = (length p + length (c # d), r = [] \<or> hd r = 0)"
    using Cons.IH [of "p @ [c]"] Cons.prems by simp
  finally show ?case .
qed

lemma breakup_whole:
  assumes "digits w" and "w \<noteq> []"
  shows "breakup w = Some \<lparr>whole_number_len = length w, post_decimal_ptr = None, post_decimal_len = 0,
    suffix_ptr = None, suffix_len = 0\<rparr>"
  using scan_digits_append [OF _ assms(1), of "[]" "[]"] assms(2) by (simp add: breakup_def)

lemma breakup_suffix:
  assumes "digits w" and "\<not> is_digit_c c" and "c \<noteq> 0" and "c \<noteq> 46"
  shows "breakup (w @ c # r) = Some \<lparr>whole_number_len = length w, post_decimal_ptr = None, post_decimal_len = 0,
    suffix_ptr = Some (length w), suffix_len = Suc (length r)\<rparr>"
  using scan_digits_append [OF _ assms(1), of "c # r" "[]"] assms(2-4) by (simp add: breakup_def)

lemma breakup_decimals:
  assumes "digits w" and "digits d" and "d \<noteq> []" and "r = [] \<or> \<not> is_digit_c (hd r) \<and> hd r \<noteq> 0"
  shows "breakup (w @ 46 # d @ r) = Some \<lparr>whole_number_len = length w, post_decimal_ptr = Some (Suc (length w)),
    post_decimal_len = length d, suffix_ptr = (if r = [] then None else Some (Suc (length w + length d))),
    suffix_len = length r\<rparr>"
proof -
  have dot: "\<not> is_digit_c 46" by (simp add: is_digit_unat)
  have 1: "scan_digits (w @ 46 # d @ r) 0 = (length w, False)"
    using scan_digits_append [OF _ assms(1), of "46 # d @ r" "[]"] dot by simp
  have 2: "scan_digits (w @ 46 # d @ r) (Suc (length w)) = (Suc (length w + length d), r = [])"
    using scan_digits_append [OF _ assms(2), of r "w @ [46]"] assms(4) by auto
  show ?thesis using assms(3) by (auto simp: breakup_def 1 2)
qed

text \<open>The printed digits.\<close>

lemma decimal_spec: "digits (decimal n) \<and> decimal n \<noteq> [] \<and> dec_value (decimal n) = n"
proof (induction n rule: decimal.induct)
  case (1 n)
  have d: "unat (word_of_nat (48 + n mod 10) :: u8) = 48 + n mod 10" by (rule unat_u8) (use mod_less_divisor [of 10 n] in simp)
  show ?case
  proof (cases "n < 10")
    case True
    then show ?thesis using d by (simp add: decimal.simps [of n] is_digit_unat dec_value_def)
  next
    case False
    then show ?thesis using d 1 mod_less_divisor [of 10 n]
      by (simp add: decimal.simps [of n] is_digit_unat dec_value_snoc)
  qed
qed

lemmas decimal_facts [simp] =
  decimal_spec [THEN conjunct1] decimal_spec [THEN conjunct2, THEN conjunct1] decimal_spec [THEN conjunct2, THEN conjunct2]

lemma length_decimal: "n < 10 ^ w \<Longrightarrow> 0 < w \<Longrightarrow> length (decimal n) \<le> w"
proof (induction n arbitrary: w rule: decimal.induct)
  case (1 n)
  show ?case
  proof (cases "n < 10")
    case True
    then show ?thesis using 1 by (simp add: decimal.simps [of n])
  next
    case False
    then obtain v where v: "w = Suc v" "0 < v" using 1(2,3) by (cases w; cases "w = 1") auto
    then have "n div 10 < 10 ^ v" using 1(2) by (simp add: less_mult_imp_div_less mult.commute)
    then show ?thesis using False 1(1) v by (simp add: decimal.simps [of n])
  qed
qed

lemma dec_value_zeros [simp]: "dec_value (replicate k 48 @ s) = dec_value s"
  by (induction k) (simp_all add: dec_value_Cons)

lemma padded_decimal_spec:
  assumes "n < 10 ^ w" and "0 < w"
  shows "digits (padded_decimal w n)" "length (padded_decimal w n) = w" "dec_value (padded_decimal w n) = n"
  using length_decimal [OF assms] by (simp_all add: padded_decimal_def, simp add: digits_def is_digit_unat)

section \<open>Checked amounts\<close>

text \<open>The contract the satoshi and the millisatoshi operations share.\<close>

locale checked_amount =
  fixes value_of :: "'a \<Rightarrow> nat"
    and add :: "'a \<Rightarrow> 'a \<Rightarrow> 'a option"
    and sub :: "'a \<Rightarrow> 'a \<Rightarrow> 'a option"
    and less_eq_amount :: "'a \<Rightarrow> 'a \<Rightarrow> bool"
  assumes value_inj: "value_of a = value_of b \<Longrightarrow> a = b"
    and value_bound: "value_of a < 2 ^ 64"
    and add_none: "add a b = None \<longleftrightarrow> 2 ^ 64 \<le> value_of a + value_of b"
    and add_some: "add a b = Some c \<Longrightarrow> value_of c = value_of a + value_of b"
    and sub_none: "sub a b = None \<longleftrightarrow> value_of a < value_of b"
    and sub_some: "sub a b = Some c \<Longrightarrow> value_of c = value_of a - value_of b"
    and less_eq_value: "less_eq_amount a b \<longleftrightarrow> value_of a \<le> value_of b"
begin

lemma add_iff: "add a b = Some c \<longleftrightarrow> value_of c = value_of a + value_of b"
proof
  assume v: "value_of c = value_of a + value_of b"
  then have "add a b \<noteq> None" using value_bound [of c] unfolding add_none by linarith
  then obtain d where d: "add a b = Some d" by blast
  then have "c = d" using v add_some [OF d] by (intro value_inj) simp
  then show "add a b = Some c" using d by simp
qed (rule add_some)

lemma sub_iff: "sub c b = Some a \<longleftrightarrow> value_of c = value_of a + value_of b"
proof
  assume v: "value_of c = value_of a + value_of b"
  then have "sub c b \<noteq> None" unfolding sub_none by linarith
  then obtain d where d: "sub c b = Some d" by blast
  then have "a = d" using v sub_some [OF d] by (intro value_inj) simp
  then show "sub c b = Some a" using d by simp
next
  assume s: "sub c b = Some a"
  then have "\<not> value_of c < value_of b" using sub_none [of c b] by simp
  then show "value_of c = value_of a + value_of b" using sub_some [OF s] by linarith
qed

lemma sub_iff_add: "sub c b = Some a \<longleftrightarrow> add a b = Some c"
  by (simp add: sub_iff add_iff)

lemma add_commute: "add a b = add b a"
proof (cases "add a b")
  case None
  then have "add b a = None" by (simp add: add_none add.commute)
  then show ?thesis using None by simp
next
  case (Some c)
  then have "add b a = Some c" by (simp add: add_iff add.commute)
  then show ?thesis using Some by simp
qed

lemma add_assoc: "Option.bind (add a b) (\<lambda>ab. add ab c) = Option.bind (add b c) (add a)"
proof -
  have l: "Option.bind (add a b) (\<lambda>ab. add ab c) = Some d \<longleftrightarrow> value_of d = value_of a + value_of b + value_of c" for d
  proof
    assume "Option.bind (add a b) (\<lambda>ab. add ab c) = Some d"
    then show "value_of d = value_of a + value_of b + value_of c" by (auto simp: bind_eq_Some_conv add_iff)
  next
    assume v: "value_of d = value_of a + value_of b + value_of c"
    then obtain e where e: "add a b = Some e"
      using value_bound [of d] add_none [of a b] by (cases "add a b") auto
    then show "Option.bind (add a b) (\<lambda>ab. add ab c) = Some d" unfolding e using v add_some [OF e] by (simp add: add_iff)
  qed
  have r: "Option.bind (add b c) (add a) = Some d \<longleftrightarrow> value_of d = value_of a + value_of b + value_of c" for d
  proof
    assume "Option.bind (add b c) (add a) = Some d"
    then show "value_of d = value_of a + value_of b + value_of c" by (auto simp: bind_eq_Some_conv add_iff)
  next
    assume v: "value_of d = value_of a + value_of b + value_of c"
    then obtain e where e: "add b c = Some e"
      using value_bound [of d] add_none [of b c] by (cases "add b c") auto
    then show "Option.bind (add b c) (add a) = Some d" unfolding e using v add_some [OF e] by (simp add: add_iff)
  qed
  show ?thesis
    by (cases "Option.bind (add a b) (\<lambda>ab. add ab c)"; cases "Option.bind (add b c) (add a)") (use l r in force)+
qed

end

lemma amount_sat_inj: "unat (satoshis a) = unat (satoshis b) \<Longrightarrow> a = b"
  by (cases a; cases b) (simp add: word_unat_eq_iff)

lemma amount_msat_inj: "unat (millisatoshis a) = unat (millisatoshis b) \<Longrightarrow> a = b"
  by (cases a; cases b) (simp add: word_unat_eq_iff)

interpretation msat: checked_amount "\<lambda>m. unat (millisatoshis m)" amount_msat_add amount_msat_sub amount_msat_less_eq
  by unfold_locales
    (auto simp: amount_msat_add_def amount_msat_sub_def amount_msat_less_eq_def add_overflows_iff u64_less amount_msat_inj
      unat_add_no_overflow unat_sub word_less_nat_alt word_le_nat_alt split: if_splits)

interpretation sat: checked_amount "\<lambda>s. unat (satoshis s)" amount_sat_add amount_sat_sub amount_sat_less_eq
  by unfold_locales
    (auto simp: amount_sat_add_def amount_sat_sub_def amount_sat_less_eq_def add_overflows_iff u64_less amount_sat_inj
      unat_add_no_overflow unat_sub word_less_nat_alt word_le_nat_alt split: if_splits)

text \<open>The comparisons of the code are linear orders.\<close>

instantiation amount_msat :: linorder
begin
definition less_eq_amount_msat :: "amount_msat \<Rightarrow> amount_msat \<Rightarrow> bool" where "a \<le> b \<longleftrightarrow> amount_msat_less_eq a b"
definition less_amount_msat :: "amount_msat \<Rightarrow> amount_msat \<Rightarrow> bool" where "a < b \<longleftrightarrow> amount_msat_less a b"
instance
  by standard (auto simp: less_eq_amount_msat_def less_amount_msat_def amount_msat_less_eq_def amount_msat_less_def
      intro: amount_msat_inj)
end

instantiation amount_sat :: linorder
begin
definition less_eq_amount_sat :: "amount_sat \<Rightarrow> amount_sat \<Rightarrow> bool" where "a \<le> b \<longleftrightarrow> amount_sat_less_eq a b"
definition less_amount_sat :: "amount_sat \<Rightarrow> amount_sat \<Rightarrow> bool" where "a < b \<longleftrightarrow> amount_sat_less a b"
instance
  by standard (auto simp: less_eq_amount_sat_def less_amount_sat_def amount_sat_less_eq_def amount_sat_less_def
      intro: amount_sat_inj)
end

lemma amount_sat_to_msat_iff:
  "amount_sat_to_msat s = Some m \<longleftrightarrow> unat (millisatoshis m) = 1000 * unat (satoshis s)"
proof (cases "mul_overflows_u64 (satoshis s) MSAT_PER_SAT")
  case True
  then have "2 ^ 64 \<le> unat (satoshis s) * 1000" by (simp add: mul_overflows_iff MSAT_PER_SAT_def)
  then show ?thesis using True u64_less [of "millisatoshis m"] by (simp add: amount_sat_to_msat_def)
next
  case False
  have "unat (satoshis s * MSAT_PER_SAT) = 1000 * unat (satoshis s)"
    using unat_mult_no_overflow [OF False] by (simp add: MSAT_PER_SAT_def)
  then show ?thesis using False by (cases m) (auto simp: amount_sat_to_msat_def word_unat_eq_iff)
qed

lemma amount_sat_to_msat_None: "amount_sat_to_msat s = None \<longleftrightarrow> 2 ^ 64 \<le> 1000 * unat (satoshis s)"
  by (simp add: amount_sat_to_msat_def mul_overflows_iff MSAT_PER_SAT_def mult.commute)

lemma amount_msat_to_sat_iff:
  "amount_msat_to_sat m = Some s \<longleftrightarrow> unat (millisatoshis m) = 1000 * unat (satoshis s)"
proof -
  have "millisatoshis m mod 1000 = 0 \<longleftrightarrow> unat (millisatoshis m) mod 1000 = 0"
    by (simp add: word_unat_eq_iff unat_mod)
  then show ?thesis
    by (cases s) (auto simp: amount_msat_to_sat_def MSAT_PER_SAT_def word_unat_eq_iff unat_div)
qed

text \<open>Parsing what the formatters print.\<close>

lemmas cs_eval = cs_def of_char_def

lemma parse_result: "m = AMOUNT_MSAT (word_of_nat v) \<longleftrightarrow> (word_of_nat v = millisatoshis m)"
  by (cases m) auto

lemma parse_btc_value:
  fixes x d :: u64
  assumes "unat d = 10 ^ t" and "0 < t" and "t \<le> 11"
  shows "from_numbers (decimal (unat (x div d))) t (padded_decimal t (unat (x mod d))) = Done (Some x)"
proof -
  have r: "unat (x mod d) < 10 ^ t" using assms(1) by (simp add: unat_mod)
  have "unat (x div d) * 10 ^ t + unat (x mod d) = unat x"
    using assms(1) by (simp add: unat_mod unat_div div_mult_mod_eq)
  then show ?thesis
    using padded_decimal_spec [OF r assms(2)] assms(2) u64_less [of x] 
    by (subst from_numbers_eq) auto
qed

lemma suffix_letters:
  "\<not> is_digit_c 109" "\<not> is_digit_c 115" "\<not> is_digit_c 98"
  by (simp_all add: is_digit_unat)

lemma parse_plain_msat:
  assumes "digits w" and "w \<noteq> []"
  shows "parse_amount_msat w = bind_outcome (from_number w 0) (\<lambda>r. Done (map_option AMOUNT_MSAT r))"
  by (simp add: parse_amount_msat_def breakup_whole [OF assms] Let_def)

lemma parse_suffix_msat:
  assumes "digits w"
  shows "parse_amount_msat (w @ cs ''msat'' @ r) = bind_outcome (from_number w 0) (\<lambda>r. Done (map_option AMOUNT_MSAT r))"
    and "parse_amount_msat (w @ cs ''sat'' @ r) = bind_outcome (from_number w 3) (\<lambda>r. Done (map_option AMOUNT_MSAT r))"
    and "parse_amount_msat (w @ cs ''btc'' @ r) = bind_outcome (from_number w 11) (\<lambda>r. Done (map_option AMOUNT_MSAT r))"
  using suffix_letters
  by (simp_all add: parse_amount_msat_def breakup_suffix [OF assms] part_def memstarts_str_def memstarts_def memeq_iff Let_def)

lemma parse_decimals_msat:
  assumes "digits w" and "digits d" and "d \<noteq> []"
  shows "parse_amount_msat (w @ 46 # d @ cs ''btc'' @ r) = bind_outcome (from_numbers w 11 d) (\<lambda>r. Done (map_option AMOUNT_MSAT r))"
    and "parse_amount_msat (w @ 46 # d) = Done None"
  using suffix_letters breakup_decimals [OF assms, of "[]"] breakup_decimals [OF assms, of "cs ''btc'' @ r"] assms(3)
  by (simp_all add: parse_amount_msat_def part_def memstarts_str_def memstarts_def memeq_iff Let_def)

lemma parse_plain_sat:
  assumes "digits w" and "w \<noteq> []"
  shows "parse_amount_sat w = bind_outcome (from_number w 0) (\<lambda>r. Done (map_option AMOUNT_SAT r))"
  by (simp add: parse_amount_sat_def breakup_whole [OF assms] Let_def)

lemma parse_suffix_sat:
  assumes "digits w"
  shows "parse_amount_sat (w @ cs ''sat'' @ r) = bind_outcome (from_number w 0) (\<lambda>r. Done (map_option AMOUNT_SAT r))"
    and "parse_amount_sat (w @ cs ''btc'' @ r) = bind_outcome (from_number w 8) (\<lambda>r. Done (map_option AMOUNT_SAT r))"
    and "parse_amount_sat (w @ cs ''msat'' @ r) =
      (if memends w (cs ''000'') then bind_outcome (from_number (take (length w - 3) w) 0) (\<lambda>r. Done (map_option AMOUNT_SAT r))
       else if memstarts_str w (cs ''0'') then bind_outcome (from_number w 0) (\<lambda>r. Done (map_option AMOUNT_SAT r))
       else Done None)"
  using suffix_letters
  by (simp_all add: parse_amount_sat_def breakup_suffix [OF assms] part_def memstarts_str_def memstarts_def memeq_iff Let_def)

lemma parse_decimals_sat:
  assumes "digits w" and "digits d" and "d \<noteq> []"
  shows "parse_amount_sat (w @ 46 # d @ cs ''btc'' @ r) = bind_outcome (from_numbers w 8 d) (\<lambda>r. Done (map_option AMOUNT_SAT r))"
    and "parse_amount_sat (w @ 46 # d) = Done None"
  using suffix_letters breakup_decimals [OF assms, of "[]"] breakup_decimals [OF assms, of "cs ''btc'' @ r"] assms(3)
  by (simp_all add: parse_amount_sat_def part_def memstarts_str_def memstarts_def memeq_iff Let_def)

text \<open>The fee computation, over the naturals.\<close>

lemma unat_ucast_u32 [simp]: "unat (ucast (p :: u32) :: u64) = unat p"
proof -
  have "unat p < 2 ^ 64" using unsigned_less [of p, where 'a = nat] by simp
  then show ?thesis by (simp only: unsigned_ucast_eq take_bit_nat_eq_self_iff) (simp add: take_bit_nat_eq_self)
qed

lemma amount_msat_fee_None:
  "amount_msat_fee amt base prop = None \<longleftrightarrow>
     2 ^ 64 \<le> unat (millisatoshis amt) * unat prop \<or>
     2 ^ 64 \<le> unat base + unat (millisatoshis amt) * unat prop div 1000000"
proof (cases "mul_overflows_u64 (millisatoshis amt) (ucast prop)")
  case True
  then show ?thesis by (simp add: amount_msat_fee_def mul_overflows_iff)
next
  case False
  then show ?thesis using unat_mult_no_overflow [OF False]
    by (simp add: amount_msat_fee_def msat.add_none mul_overflows_iff unat_div)
qed

lemma amount_msat_fee_Some:
  assumes "amount_msat_fee amt base prop = Some fee"
  shows "unat (millisatoshis fee) = unat base + unat (millisatoshis amt) * unat prop div 1000000"
proof -
  have m: "\<not> mul_overflows_u64 (millisatoshis amt) (ucast prop)"
    using assms by (auto simp: amount_msat_fee_def split: if_splits)
  then show ?thesis using assms unat_mult_no_overflow [OF m]
    by (simp add: amount_msat_fee_def msat.add_iff unat_div)
qed

text \<open>The digit strings \<open>breakup\<close> isolates.\<close>

lemma scan_digits_spec:
  "scan_digits str i = (j, e) \<Longrightarrow> i \<le> length str \<Longrightarrow> i \<le> j \<and> j \<le> length str \<and> digits (take (j - i) (drop i str))"
proof (induction str i rule: scan_digits.induct)
  case (1 str i)
  show ?case
  proof (cases "i \<ge> length str \<or> str ! i = 0 \<or> \<not> is_digit_c (str ! i)")
    case True
    then show ?thesis using 1(2,3) by (subst (asm) scan_digits.simps) (auto split: if_splits)
  next
    case False
    then have "scan_digits str (Suc i) = (j, e)" using 1(2) by (subst (asm) scan_digits.simps) simp
    then have r: "Suc i \<le> j" "j \<le> length str" "digits (take (j - Suc i) (drop (Suc i) str))"
      using 1(1) False by auto
    have "take (j - i) (drop i str) = str ! i # take (j - Suc i) (drop (Suc i) str)"
      using r(1) False by (simp add: Cons_nth_drop_Suc [symmetric] Suc_diff_Suc [symmetric])
    then show ?thesis using r False by simp
  qed
qed

lemma breakup_digits:
  assumes "breakup s = Some np"
  shows "digits (take (whole_number_len np) s)"
    and "digits (part s (post_decimal_ptr np) (post_decimal_len np))"
proof -
  obtain i e where i: "scan_digits s 0 = (i, e)" by force
  obtain j e' where j: "scan_digits s (Suc i) = (j, e')" by force
  have w: "i \<le> length s" "digits (take i s)" using scan_digits_spec [OF i] by auto
  have "digits (take (j - Suc i) (drop (Suc i) s))"
    using scan_digits_spec [OF j] by (cases "Suc i \<le> length s") auto
  then show "digits (take (whole_number_len np) s)" "digits (part s (post_decimal_ptr np) (post_decimal_len np))"
    using assms w by (auto simp: breakup_def i j part_def Let_def split: if_splits)
qed

lemma from_number_Done: "digits s \<Longrightarrow> \<exists>r. from_number s n = Done r"
  by (simp add: from_number_eq)

lemma from_numbers_Done: "digits s \<Longrightarrow> digits t \<Longrightarrow> \<exists>r. from_numbers s n t = Done r"
  by (auto simp: from_numbers_def from_number_eq)

lemma digits_take: "digits s \<Longrightarrow> digits (take n s)"
  by (auto simp: digits_def dest: in_set_takeD)

lemma bind_map_Done: "\<exists>r. n = Done r \<Longrightarrow> \<exists>r. bind_outcome n (\<lambda>r. Done (f r)) = Done r"
  by auto

lemma parse_amount_msat_Done: "\<exists>r. parse_amount_msat s = Done r"
proof (cases "breakup s")
  case (Some np)
  note d = breakup_digits [OF Some]
  note ends = from_number_Done [OF d(1), THEN bind_map_Done] from_numbers_Done [OF d, THEN bind_map_Done]
  show ?thesis by (simp add: parse_amount_msat_def Some Let_def ends)
qed (simp add: parse_amount_msat_def)

lemma parse_amount_sat_Done: "\<exists>r. parse_amount_sat s = Done r"
proof (cases "breakup s")
  case (Some np)
  note d = breakup_digits [OF Some]
  note ends = from_number_Done [OF d(1), THEN bind_map_Done] from_numbers_Done [OF d, THEN bind_map_Done]
  have "\<exists>r. bind_outcome (from_number (take (whole_number_len np - 3) s) n) (\<lambda>r. Done (map_option AMOUNT_SAT r)) = Done r"
    if "memends (take (whole_number_len np) s) (cs ''000'')" for n
  proof -
    have "take (whole_number_len np - 3) s = take (whole_number_len np - 3) (take (whole_number_len np) s)" by simp
    then show ?thesis using digits_take [OF d(1)] from_number_Done [THEN bind_map_Done] by metis
  qed
  then show ?thesis by (simp add: parse_amount_sat_def Some Let_def ends)
qed (simp add: parse_amount_sat_def)

text \<open>Trailing zeros of a printed number.\<close>

lemma decimal_snoc3: "1000 \<le> n \<Longrightarrow> n mod 1000 = 0 \<Longrightarrow> decimal n = decimal (n div 1000) @ [48, 48, 48]"
proof -
  assume a: "1000 \<le> n" "n mod 1000 = 0"
  then obtain k where k: "n = k * 1000" "0 < k" by (metis dvd_eq_mod_eq_0 dvd_div_mult_self gr0I mult_0 not_numeral_le_zero)
  have s: "decimal (m * 10) = decimal m @ [48]" if "0 < m" for m
    using that by (subst decimal.simps) simp
  show ?thesis using s [of k] s [of "k * 10"] s [of "k * 100"] k by (simp add: mult.commute)
qed

lemma decimal_ends_000: "memends (decimal n) (cs ''000'') \<longleftrightarrow> 1000 \<le> n \<and> n mod 1000 = 0"
proof
  assume "1000 \<le> n \<and> n mod 1000 = 0"
  then show "memends (decimal n) (cs ''000'')" by (simp add: memends_iff decimal_snoc3)
next
  assume "memends (decimal n) (cs ''000'')"
  then obtain w where w: "decimal n = w @ [48, 48, 48]" by (auto simp: memends_iff)
  then have v: "n = dec_value w * 1000" using decimal_spec [of n] by (simp add: dec_value_append dec_value_Cons) (simp add: dec_value_def)
  have "n \<noteq> 0"
  proof
    assume "n = 0"
    then have "length (w @ [48, 48, 48 :: u8]) = length (decimal 0)" using w by metis
    then show False by (simp add: decimal.simps [of 0])
  qed
  then show "1000 \<le> n \<and> n mod 1000 = 0" using v by (cases "dec_value w") auto
qed

lemma decimal_starts_0: "memstarts_str (decimal n) (cs ''0'') \<longleftrightarrow> n = 0"
proof -
  have "decimal n = 48 # r \<longrightarrow> n = 0" for r
  proof (induction n arbitrary: r rule: decimal.induct)
    case (1 n)
    show ?case
    proof (cases "n < 10")
      case True
      then have "unat (word_of_nat (48 + n) :: u8) = 48 + n" by (intro unat_u8) simp
      then show ?thesis using True by (auto simp: decimal.simps [of n])
    next
      case False
      then have "n div 10 \<noteq> 0" by (simp add: div_eq_0_iff)
      then show ?thesis using 1 False decimal_spec [of "n div 10"]
        by (cases "decimal (n div 10)") (auto simp: decimal.simps [of n])
    qed
  qed
  then show ?thesis by (auto simp: memstarts_str_def memstarts_iff decimal.simps [of 0])
qed

section \<open>The properties of amounts\<close>

text \<open>C16. The checked operations are exact over the unbounded integers: an addition succeeds
  exactly when the sum fits in 64 bits, and a subtraction inverts it; the operations
  that mix the two units count a satoshi as 1000 millisatoshis, and \<open>amount_sat_sub_msat\<close> also
  fails when its first argument cannot be written in millisatoshis.\<close>

theorem amount_arithmetic_exact:
  "(amount_msat_add a b = Some c \<longleftrightarrow> unat (millisatoshis c) = unat (millisatoshis a) + unat (millisatoshis b)) \<and>
   (amount_msat_sub c b = Some a \<longleftrightarrow> amount_msat_add a b = Some c) \<and>
   (amount_sat_add x y = Some z \<longleftrightarrow> unat (satoshis z) = unat (satoshis x) + unat (satoshis y)) \<and>
   (amount_sat_sub z y = Some x \<longleftrightarrow> amount_sat_add x y = Some z) \<and>
   (amount_msat_add_sat a x = Some c \<longleftrightarrow> unat (millisatoshis c) = unat (millisatoshis a) + 1000 * unat (satoshis x)) \<and>
   (amount_msat_sub_sat c x = Some a \<longleftrightarrow> amount_msat_add_sat a x = Some c) \<and>
   (amount_sat_sub_msat x a = Some b \<longleftrightarrow>
      1000 * unat (satoshis x) = unat (millisatoshis a) + unat (millisatoshis b) \<and> 1000 * unat (satoshis x) < 2 ^ 64)"
proof -
  have mixed: "(amount_msat_add_sat a x = Some c \<longleftrightarrow> unat (millisatoshis c) = unat (millisatoshis a) + 1000 * unat (satoshis x)) \<and>
    (amount_msat_sub_sat c x = Some a \<longleftrightarrow> unat (millisatoshis c) = unat (millisatoshis a) + 1000 * unat (satoshis x)) \<and>
    (amount_sat_sub_msat x a = Some b \<longleftrightarrow>
      1000 * unat (satoshis x) = unat (millisatoshis a) + unat (millisatoshis b) \<and> 1000 * unat (satoshis x) < 2 ^ 64)"
  proof (cases "amount_sat_to_msat x")
    case None
    then have "2 ^ 64 \<le> 1000 * unat (satoshis x)" by (simp add: amount_sat_to_msat_None)
    then show ?thesis using u64_less [of "millisatoshis c"]
      by (simp add: None amount_msat_add_sat_def amount_msat_sub_sat_def amount_sat_sub_msat_def)
  next
    case (Some k)
    then have "1000 * unat (satoshis x) = unat (millisatoshis k)" by (simp add: amount_sat_to_msat_iff)
    then show ?thesis using u64_less [of "millisatoshis k"]
      by (auto simp: Some amount_msat_add_sat_def amount_msat_sub_sat_def amount_sat_sub_msat_def msat.add_iff msat.sub_iff)
  qed
  then show ?thesis
    by (simp only: mixed msat.add_iff msat.sub_iff sat.add_iff sat.sub_iff)
qed

text \<open>C36. The mixed comparisons: \<open>greater\<close>, \<open>greater_eq\<close> and \<open>eq\<close> agree with the unbounded
  integers on every input; \<open>less\<close> and \<open>less_eq\<close> do so only where the satoshi amount can be
  written in millisatoshis, and answer false above that, where the true answer is yes.\<close>

theorem amount_mixed_comparisons:
  "(amount_msat_greater_sat m s \<longleftrightarrow> unat (millisatoshis m) > 1000 * unat (satoshis s)) \<and>
   (amount_msat_greater_eq_sat m s \<longleftrightarrow> unat (millisatoshis m) \<ge> 1000 * unat (satoshis s)) \<and>
   (amount_msat_eq_sat m s \<longleftrightarrow> unat (millisatoshis m) = 1000 * unat (satoshis s)) \<and>
   (amount_msat_less_sat m s \<longleftrightarrow> unat (millisatoshis m) < 1000 * unat (satoshis s) \<and> 1000 * unat (satoshis s) < 2 ^ 64) \<and>
   (amount_msat_less_eq_sat m s \<longleftrightarrow> unat (millisatoshis m) \<le> 1000 * unat (satoshis s) \<and> 1000 * unat (satoshis s) < 2 ^ 64)"
proof (cases "amount_sat_to_msat s")
  case None
  then have "2 ^ 64 \<le> 1000 * unat (satoshis s)" by (simp add: amount_sat_to_msat_None)
  then show ?thesis using None u64_less [of "millisatoshis m"]
    by (auto simp: amount_msat_greater_sat_def amount_msat_greater_eq_sat_def amount_msat_eq_sat_def
        amount_msat_less_sat_def amount_msat_less_eq_sat_def)
next
  case (Some k)
  then have k: "1000 * unat (satoshis s) = unat (millisatoshis k)" by (simp add: amount_sat_to_msat_iff)
  show ?thesis using Some u64_less [of "millisatoshis k"]
    by (simp add: k amount_msat_greater_sat_def amount_msat_greater_eq_sat_def amount_msat_eq_sat_def
        amount_msat_less_sat_def amount_msat_less_eq_sat_def word_less_nat_alt word_le_nat_alt word_unat_eq_iff)
qed

text \<open>C33. The fee is the base plus the proportional part rounded down, over the unbounded integers; it is
  refused exactly when the product or the sum leaves 64 bits.  Adding it to the amount gives the exact
  sum, and is refused exactly when there is no fee or this sum leaves 64 bits.\<close>

theorem amount_msat_fee_exact:
  "amount_msat_fee amt base prop =
     (if 2 ^ 64 \<le> unat (millisatoshis amt) * unat prop \<or> 2 ^ 64 \<le> unat base + unat (millisatoshis amt) * unat prop div 1000000 then None
      else Some (AMOUNT_MSAT (word_of_nat (unat base + unat (millisatoshis amt) * unat prop div 1000000)))) \<and>
   amount_msat_add_fee amt base prop =
     (case amount_msat_fee amt base prop of None \<Rightarrow> None
      | Some fee \<Rightarrow> if 2 ^ 64 \<le> unat (millisatoshis amt) + unat (millisatoshis fee) then None
          else Some (AMOUNT_MSAT (word_of_nat (unat (millisatoshis amt) + unat (millisatoshis fee)))))"
proof (intro conjI)
  have word: "k = AMOUNT_MSAT (word_of_nat n)" if "unat (millisatoshis k) = n" for k n
    using that by (cases k) auto
  show "amount_msat_fee amt base prop =
     (if 2 ^ 64 \<le> unat (millisatoshis amt) * unat prop \<or> 2 ^ 64 \<le> unat base + unat (millisatoshis amt) * unat prop div 1000000 then None
      else Some (AMOUNT_MSAT (word_of_nat (unat base + unat (millisatoshis amt) * unat prop div 1000000))))"
    using amount_msat_fee_None [of amt base "prop"] word [OF amount_msat_fee_Some [of amt base "prop"]]
    by (cases "amount_msat_fee amt base prop") auto
  have "amount_msat_add amt fee = (if 2 ^ 64 \<le> unat (millisatoshis amt) + unat (millisatoshis fee) then None
      else Some (AMOUNT_MSAT (word_of_nat (unat (millisatoshis amt) + unat (millisatoshis fee)))))" for fee
  proof (cases "amount_msat_add amt fee")
    case None
    then show ?thesis using msat.add_none [of amt fee] by simp
  next
    case (Some t)
    then have "unat (millisatoshis t) = unat (millisatoshis amt) + unat (millisatoshis fee)" using msat.add_iff [of amt fee t] by simp
    moreover from this have "\<not> 2 ^ 64 \<le> unat (millisatoshis amt) + unat (millisatoshis fee)" using u64_less [of "millisatoshis t"] by simp
    ultimately show ?thesis unfolding Some using word [of t] by (simp only: if_False)
  qed
  then show "amount_msat_add_fee amt base prop =
     (case amount_msat_fee amt base prop of None \<Rightarrow> None
      | Some fee \<Rightarrow> if 2 ^ 64 \<le> unat (millisatoshis amt) + unat (millisatoshis fee) then None
          else Some (AMOUNT_MSAT (word_of_nat (unat (millisatoshis amt) + unat (millisatoshis fee)))))"
    by (simp add: amount_msat_add_fee_def split: option.split)
qed

text \<open>C8. Parsing returns on every input, and a failed assertion on a digit never happens.  An amount is
  read back from its form in millisatoshis, from its form in bitcoin with the unit, and, in satoshis,
  exactly when it fits.  Its form in bitcoin without the unit is refused, except that of zero.\<close>

theorem parse_fmt_amount_msat:
  "(\<exists>r. parse_amount_msat str = Done r) \<and>
   parse_amount_msat (fmt_amount_msat m) = Done (Some m) \<and>
   parse_amount_msat (fmt_amount_msat_btc m unit) = Done (if unit \<or> millisatoshis m = 0 then Some m else None) \<and>
   parse_amount_msat (fmt_amount_sat s) = Done (amount_sat_to_msat s)"
proof (intro conjI)
  show "\<exists>r. parse_amount_msat str = Done r" by (rule parse_amount_msat_Done)
  have v: "from_number (decimal (unat x)) 0 = Done (Some x)" for x :: u64
    using u64_less [of x] by (simp add: from_number_eq)
  show "parse_amount_msat (fmt_amount_msat m) = Done (Some m)"
    using parse_suffix_msat(1) [of "decimal (unat (millisatoshis m))" "[]"] v
    by (simp add: fmt_amount_msat_def del: cs_simps)
  have "from_number (decimal n) 3 = Done (if 1000 * n < 2 ^ 64 then Some (word_of_nat (n * 1000)) else None)" for n
    by (simp add: from_number_eq mult.commute)
  then have "parse_amount_msat (fmt_amount_sat s) =
      Done (if 1000 * unat (satoshis s) < 2 ^ 64 then Some (AMOUNT_MSAT (word_of_nat (unat (satoshis s) * 1000))) else None)"
    using parse_suffix_msat(2) [of "decimal (unat (satoshis s))" "[]"] by (simp add: fmt_amount_sat_def del: cs_simps)
  also have "\<dots> = Done (amount_sat_to_msat s)"
    by (simp add: amount_sat_to_msat_def mul_overflows_iff MSAT_PER_SAT_def mult.commute not_le del: cs_simps)
  finally show "parse_amount_msat (fmt_amount_sat s) = Done (amount_sat_to_msat s)" .
  show "parse_amount_msat (fmt_amount_msat_btc m unit) = Done (if unit \<or> millisatoshis m = 0 then Some m else None)"
  proof (cases "millisatoshis m = 0")
    case True
    then have "m = AMOUNT_MSAT 0" by (cases m) simp
    moreover have d0: "digits [48]" by (simp add: is_digit_unat)
    moreover have "from_number [48] n = Done (Some 0)" for n
      using d0 by (simp add: from_number_eq) (simp add: dec_value_def)
    ultimately show ?thesis
      using parse_plain_msat [OF d0] parse_suffix_msat(3) [OF d0, of "[]"] True by (simp add: fmt_amount_msat_btc_def)
  next
    case False
    have p: "unat MSAT_PER_BTC = 10 ^ 11" by (simp add: MSAT_PER_BTC_def MSAT_PER_SAT_def SAT_PER_BTC_def)
    then have r: "unat (millisatoshis m mod MSAT_PER_BTC) < 10 ^ 11" by (simp add: unat_mod)
    note d = padded_decimal_spec [OF r]
    have nonempty: "padded_decimal 11 (unat (millisatoshis m mod MSAT_PER_BTC)) \<noteq> []" using d(2) by auto
    show ?thesis
      using parse_decimals_msat(1) [OF decimal_facts(1) d(1) nonempty, of "unat (millisatoshis m div MSAT_PER_BTC)" "[]"]
        parse_decimals_msat(2) [OF decimal_facts(1) d(1) nonempty, of "unat (millisatoshis m div MSAT_PER_BTC)"]
        parse_btc_value [OF p, of "millisatoshis m"] False
      by (cases m) (simp add: fmt_amount_msat_btc_def)
  qed
qed

text \<open>C25. Parsing as satoshis returns on every input.  An amount of satoshis is read back from its form in
  satoshis and from its form in bitcoin with the unit; the one without the unit is refused, except
  that of zero.  A printed amount of millisatoshis is read back exactly when it is a whole number of satoshis.\<close>

theorem parse_fmt_amount_sat:
  "(\<exists>r. parse_amount_sat str = Done r) \<and>
   parse_amount_sat (fmt_amount_sat s) = Done (Some s) \<and>
   parse_amount_sat (fmt_amount_sat_btc s unit) = Done (if unit \<or> satoshis s = 0 then Some s else None) \<and>
   parse_amount_sat (fmt_amount_msat m) = Done (amount_msat_to_sat m)"
proof (intro conjI)
  show "\<exists>r. parse_amount_sat str = Done r" by (rule parse_amount_sat_Done)
  have v: "from_number (decimal (unat x)) 0 = Done (Some x)" for x :: u64
    using u64_less [of x] by (simp add: from_number_eq)
  show "parse_amount_sat (fmt_amount_sat s) = Done (Some s)"
    using parse_suffix_sat(1) [of "decimal (unat (satoshis s))" "[]"] v
    by (simp add: fmt_amount_sat_def del: cs_simps)
  show "parse_amount_sat (fmt_amount_msat m) = Done (amount_msat_to_sat m)"
  proof -
    define n where "n = unat (millisatoshis m)"
    have m: "m = AMOUNT_MSAT (word_of_nat n)" by (cases m) (simp add: n_def)
    have r: "parse_amount_sat (fmt_amount_msat m) =
      (if 1000 \<le> n \<and> n mod 1000 = 0
       then bind_outcome (from_number (take (length (decimal n) - 3) (decimal n)) 0) (\<lambda>r. Done (map_option AMOUNT_SAT r))
       else if n = 0 then bind_outcome (from_number (decimal n) 0) (\<lambda>r. Done (map_option AMOUNT_SAT r))
       else Done None)"
      using parse_suffix_sat(3) [of "decimal n" "[]"]
      by (simp add: fmt_amount_msat_def n_def [symmetric] decimal_ends_000 decimal_starts_0 del: cs_simps)
    have z: "millisatoshis m mod MSAT_PER_SAT = 0 \<longleftrightarrow> n mod 1000 = 0"
      by (simp add: n_def MSAT_PER_SAT_def word_unat_eq_iff unat_mod)
    have q: "millisatoshis m div MSAT_PER_SAT = word_of_nat (n div 1000)"
      using u64_less [of "millisatoshis m"] by (simp add: n_def MSAT_PER_SAT_def word_unat_eq_iff unat_div unat_of_nat)
    consider "1000 \<le> n" "n mod 1000 = 0" | "n = 0" | "n mod 1000 \<noteq> 0" by (cases "n < 1000") auto
    then show ?thesis
    proof cases
      case 1
      have "n div 1000 < 2 ^ 64" using u64_less [of "millisatoshis m"] by (simp add: n_def)
      then show ?thesis using 1 by (simp add: r amount_msat_to_sat_def z q decimal_snoc3 from_number_eq)
    next
      case 2
      then show ?thesis using q by (simp add: r amount_msat_to_sat_def z from_number_eq)
    next
      case 3
      then have "n \<noteq> 0" by (cases n) auto
      then show ?thesis using 3 by (simp add: r amount_msat_to_sat_def z)
    qed
  qed
  show "parse_amount_sat (fmt_amount_sat_btc s unit) = Done (if unit \<or> satoshis s = 0 then Some s else None)"
  proof (cases "satoshis s = 0")
    case True
    then have "s = AMOUNT_SAT 0" by (cases s) simp
    moreover have d0: "digits [48]" by (simp add: is_digit_unat)
    moreover have "from_number [48] n = Done (Some 0)" for n
      using d0 by (simp add: from_number_eq) (simp add: dec_value_def)
    ultimately show ?thesis
      using parse_plain_sat [OF d0] parse_suffix_sat(2) [OF d0, of "[]"] True by (simp add: fmt_amount_sat_btc_def)
  next
    case False
    have p: "unat SAT_PER_BTC = 10 ^ 8" by (simp add: SAT_PER_BTC_def)
    then have r: "unat (satoshis s mod SAT_PER_BTC) < 10 ^ 8" by (simp add: unat_mod)
    note d = padded_decimal_spec [OF r]
    have nonempty: "padded_decimal 8 (unat (satoshis s mod SAT_PER_BTC)) \<noteq> []" using d(2) by auto
    show ?thesis
      using parse_decimals_sat(1) [OF decimal_facts(1) d(1) nonempty, of "unat (satoshis s div SAT_PER_BTC)" "[]"]
        parse_decimals_sat(2) [OF decimal_facts(1) d(1) nonempty, of "unat (satoshis s div SAT_PER_BTC)"]
        parse_btc_value [OF p, of "satoshis s"] False
      by (cases s) (simp add: fmt_amount_sat_btc_def)
  qed
qed

text \<open>A number of millisatoshis with a leading zero is read as satoshis, a factor of 1000 off; and
  anything may follow a unit.\<close>

lemma parse_amount_sat_leading_zero:
  "parse_amount_sat (cs ''0123msat'') = Done (Some (AMOUNT_SAT 123))"
proof -
  have d: "digits [48, 49, 50, 51]" by (simp add: is_digit_unat)
  have "from_number [48, 49, 50, 51] 0 = Done (Some 123)"
    using d by (simp add: from_number_eq) (simp add: dec_value_def)
  then show ?thesis using parse_suffix_sat(3) [OF d, of "[]"]
    by (simp add: memends_def memcmp_0_iff memstarts_str_def memstarts_def memeq_iff)
qed

lemma parse_amount_msat_trailing_garbage:
  "digits w \<Longrightarrow> parse_amount_msat (w @ cs ''msat'' @ r) = parse_amount_msat (w @ cs ''msat'')"
  using parse_suffix_msat(1) [of w r] parse_suffix_msat(1) [of w "[]"] by simp

text \<open>\<open>assign_overflow_*\<close> answer true when the value fits, the opposite of their name.\<close>

lemma assign_overflow_u32_fits: "snd (assign_overflow_u32 v) \<longleftrightarrow> unat v < 2 ^ 32"
proof -
  have "(ucast (ucast v :: u32) :: u64) = v \<longleftrightarrow> take_bit 32 (unat v) = unat v"
    by (simp add: word_unat_eq_iff unsigned_ucast_eq unsigned_take_bit_eq)
  then show ?thesis by (simp add: assign_overflow_u32_def Let_def take_bit_nat_eq_self_iff)
qed

end
