(* ===== verification/Bech32Util.thy ===== *)
theory Bech32Util
  imports Segwit
begin

text \<open>
  \<open>bech32_util.c\<close>: pushing bytes as five-bit values and pulling them back, and the strings
  without a checksum.  A tal array is the list of its elements; growing it by one element is
  appending.  Reading a bit outside the source array is undefined.
\<close>

section \<open>Single bits\<close>

definition get_bit :: "u8 list \<Rightarrow> nat \<Rightarrow> u8" where
  "get_bit src bitoff = drop_bit (7 - bitoff mod 8) (src ! (bitoff div 8)) AND 1"

definition get_u5_bit :: "u5 list \<Rightarrow> nat \<Rightarrow> u8" where
  "get_u5_bit src bitoff = drop_bit (4 - bitoff mod 5) (src ! (bitoff div 5)) AND 1"

definition push_u5 :: "u8 list \<Rightarrow> nat \<Rightarrow> nat \<Rightarrow> u5" where
  "push_u5 src nbits i = foldl (\<lambda>x b. let x = push_bit 1 x in if i + b < nbits then x OR get_bit src (i + b) else x) 0 [0..<5]"

function bech32_push_loop :: "u5 list \<Rightarrow> u8 list \<Rightarrow> nat \<Rightarrow> nat \<Rightarrow> u5 list" where
  "bech32_push_loop data src nbits i =
     (if i < nbits then bech32_push_loop (data @ [push_u5 src nbits i]) src nbits (i + 5) else data)"
  by pat_completeness auto
termination by (relation "measure (\<lambda>(data, src, nbits, i). nbits - i)") auto

definition bech32_push_bits :: "u5 list \<Rightarrow> u8 list \<Rightarrow> nat \<Rightarrow> u5 list outcome" where
  "bech32_push_bits data src nbits =
     (if nbits > 8 * length src then Undefined else Done (bech32_push_loop data src nbits 0))"

definition pull_u8 :: "u5 list \<Rightarrow> nat \<Rightarrow> u8" where
  "pull_u8 src i = foldl (\<lambda>x b. push_bit 1 x OR get_u5_bit src (i + b)) 0 [0..<8]"

function bech32_pull_loop :: "u8 list \<Rightarrow> u5 list \<Rightarrow> nat \<Rightarrow> nat \<Rightarrow> u8 list" where
  "bech32_pull_loop data src nbits i =
     (if i + 8 \<le> nbits then bech32_pull_loop (data @ [pull_u8 src i]) src nbits (i + 8) else data)"
  by pat_completeness auto
termination by (relation "measure (\<lambda>(data, src, nbits, i). nbits - i)") auto

definition bech32_pull_bits :: "u8 list \<Rightarrow> u5 list \<Rightarrow> nat \<Rightarrow> u8 list outcome" where
  "bech32_pull_bits data src nbits =
     (if 8 * (nbits div 8) > 5 * length src then Undefined else Done (bech32_pull_loop data src nbits 0))"

declare bech32_push_loop.simps [simp del] bech32_pull_loop.simps [simp del]

lemma nth_group_bits:
  "0 < n \<Longrightarrow> j < n * length xs \<Longrightarrow> group_bits n xs ! j = bit (xs ! (j div n)) (n - 1 - j mod n)"
proof (induction xs arbitrary: j)
  case (Cons x xs)
  show ?case
  proof (cases "j < n")
    case True
    then show ?thesis by (simp add: nth_append nth_msb_bits)
  next
    case False
    then have "j - n < n * length xs" "j div n = Suc ((j - n) div n)" "j mod n = (j - n) mod n"
      using Cons.prems by (simp_all add: le_div_geq le_mod_geq)
    then show ?thesis using Cons.IH [of "j - n"] Cons.prems False by (simp add: nth_append)
  qed
qed simp

lemma bit_as_word: "drop_bit k w AND 1 = (of_bool (bit w k) :: u8)"
  by (simp add: and_one_eq mod_2_eq_odd bit_iff_odd_drop_bit)

lemma get_bit_group: "j < 8 * length src \<Longrightarrow> get_bit src j = of_bool (group_bits 8 src ! j)"
  by (simp add: get_bit_def bit_as_word nth_group_bits)

lemma get_u5_bit_group: "j < 5 * length src \<Longrightarrow> get_u5_bit src j = of_bool (group_bits 5 src ! j)"
  by (simp add: get_u5_bit_def bit_as_word nth_group_bits)

text \<open>Shifting bits in one by one.\<close>

lemma shift_in_bits:
  "n \<le> 8 \<Longrightarrow> msb_bits n (foldl (\<lambda>x b. push_bit 1 x OR of_bool (g b)) 0 [0..<n] :: u8) = map g [0..<n] \<and>
    take_bit n (foldl (\<lambda>x b. push_bit 1 x OR of_bool (g b)) 0 [0..<n] :: u8) = foldl (\<lambda>x b. push_bit 1 x OR of_bool (g b)) 0 [0..<n]"
proof (induction n)
  case (Suc n)
  define w where "w = (foldl (\<lambda>x b. push_bit 1 x OR of_bool (g b)) 0 [0..<n] :: u8)"
  have IH: "msb_bits n w = map g [0..<n]" "take_bit n w = w" using Suc by (simp_all add: w_def)
  have one: "take_bit 1 (of_bool (g n)) = (of_bool (g n) :: u8)" by simp
  have "msb_bits (Suc n) (push_bit 1 w OR of_bool (g n)) = msb_bits n w @ msb_bits 1 (of_bool (g n) :: u8)"
    using msb_bits_push_or [OF one, of "Suc n" w] Suc.prems by simp
  moreover have "msb_bits 1 (of_bool (g n) :: u8) = [g n]" by (simp add: msb_bits_def)
  moreover have "take_bit (Suc n) (push_bit 1 w OR of_bool (g n)) = push_bit 1 w OR of_bool (g n)"
    by (simp only: take_bit_or take_bit_push_bit diff_Suc_1 IH(2)) simp
  ultimately show ?case using IH(1) by (simp add: w_def)
qed simp

section \<open>Pushing and pulling\<close>

lemma push_u5_bits:
  assumes "nbits \<le> 8 * length src"
  shows "msb_bits 5 (push_u5 src nbits i) = map (\<lambda>j. j < nbits \<and> group_bits 8 src ! j) [i..<i + 5]"
    and "take_bit 5 (push_u5 src nbits i) = push_u5 src nbits i"
proof -
  have "push_u5 src nbits i = foldl (\<lambda>x b. push_bit 1 x OR of_bool (i + b < nbits \<and> group_bits 8 src ! (i + b))) 0 [0..<5]"
    unfolding push_u5_def Let_def by (intro foldl_cong refl) (use assms in \<open>auto simp: get_bit_group\<close>)
  moreover have "map (\<lambda>j. j < nbits \<and> group_bits 8 src ! j) [i..<i + 5] = map (\<lambda>b. i + b < nbits \<and> group_bits 8 src ! (i + b)) [0..<5]"
    by (rule nth_equalityI) simp_all
  ultimately show "msb_bits 5 (push_u5 src nbits i) = map (\<lambda>j. j < nbits \<and> group_bits 8 src ! j) [i..<i + 5]"
    "take_bit 5 (push_u5 src nbits i) = push_u5 src nbits i"
    using shift_in_bits [of 5 "\<lambda>b. i + b < nbits \<and> group_bits 8 src ! (i + b)"] by simp_all
qed

lemma bech32_push_loop_spec:
  assumes "nbits \<le> 8 * length src"
  shows "\<exists>new. bech32_push_loop data src nbits i = data @ new \<and> groups_ok 5 new \<and> length new = (nbits - i + 4) div 5 \<and>
    group_bits 5 new = map (\<lambda>j. j < nbits \<and> group_bits 8 src ! j) [i..<i + 5 * length new]"
  using assms
proof (induction data src nbits i rule: bech32_push_loop.induct)
  case (1 data src nbits i)
  show ?case
  proof (cases "i < nbits")
    case True
    from 1(1) [OF True 1(2)] obtain new where new:
      "bech32_push_loop (data @ [push_u5 src nbits i]) src nbits (i + 5) = (data @ [push_u5 src nbits i]) @ new"
      "groups_ok 5 new" "length new = (nbits - (i + 5) + 4) div 5"
      "group_bits 5 new = map (\<lambda>j. j < nbits \<and> group_bits 8 src ! j) [i + 5..<i + 5 + 5 * length new]"
      by blast
    have u: "[i..<i + 5 * Suc (length new)] = [i..<i + 5] @ [i + 5..<i + 5 + 5 * length new]"
      using upt_add_eq_append [of i "i + 5" "5 * length new"] by (simp add: add.assoc)
    have "Suc (length new) = (nbits - i + 4) div 5"
    proof (cases "i + 5 \<le> nbits")
      case True
      then have e: "nbits - i + 4 = nbits - (i + 5) + 4 + 5" by arith
      have "(k + 5) div 5 = Suc (k div 5)" for k :: nat by simp
      then show ?thesis unfolding e new(3) by (rule sym)
    next
      case False
      then have "nbits - (i + 5) = 0" "5 \<le> nbits - i + 4" "nbits - i + 4 < 10" using \<open>i < nbits\<close> by auto
      moreover have "k div 5 = 1" if "5 \<le> k" "k < 10" for k :: nat using that by (simp add: div_nat_eqI)
      ultimately show ?thesis using new(3) by simp
    qed
    moreover have "group_bits 5 (push_u5 src nbits i # new) =
        map (\<lambda>j. j < nbits \<and> group_bits 8 src ! j) [i..<i + 5 * length (push_u5 src nbits i # new)]"
      unfolding length_Cons u by (simp only: group_bits_simps map_append new(4) push_u5_bits(1) [OF 1(2)])
    ultimately show ?thesis using True new(1,2) push_u5_bits(2) [OF 1(2), of i]
      by (intro exI [of _ "push_u5 src nbits i # new"] conjI) (simp_all add: bech32_push_loop.simps [of data])
  qed (simp add: bech32_push_loop.simps [of data])
qed

lemma bech32_push_bits_spec:
  assumes "nbits \<le> 8 * length src"
  obtains new where "bech32_push_bits data src nbits = Done (data @ new)" and "groups_ok 5 new"
    and "length new = (nbits + 4) div 5"
    and "group_bits 5 new = take nbits (group_bits 8 src) @ replicate (5 * length new - nbits) False"
proof -
  obtain new where new: "bech32_push_loop data src nbits 0 = data @ new" "groups_ok 5 new"
      "length new = (nbits + 4) div 5" "group_bits 5 new = map (\<lambda>j. j < nbits \<and> group_bits 8 src ! j) [0..<5 * length new]"
    using bech32_push_loop_spec [OF assms, of data 0] by auto
  have "nbits \<le> 5 * length new" using new(3) by linarith
  then have "map (\<lambda>j. j < nbits \<and> group_bits 8 src ! j) [0..<5 * length new] =
      take nbits (group_bits 8 src) @ replicate (5 * length new - nbits) False"
    using assms by (intro nth_equalityI) (auto simp: nth_append min_def)
  then show thesis using that [OF _ new(2,3)] new(1,4) assms by (simp add: bech32_push_bits_def)
qed

lemma pull_u8_bits:
  assumes "i + 8 \<le> 5 * length src"
  shows "msb_bits 8 (pull_u8 src i) = map (\<lambda>j. group_bits 5 src ! j) [i..<i + 8]"
proof -
  have "pull_u8 src i = foldl (\<lambda>x b. push_bit 1 x OR of_bool (group_bits 5 src ! (i + b))) 0 [0..<8]"
    unfolding pull_u8_def by (intro foldl_cong refl) (use assms in \<open>auto simp: get_u5_bit_group\<close>)
  moreover have "map (\<lambda>j. group_bits 5 src ! j) [i..<i + 8] = map (\<lambda>b. group_bits 5 src ! (i + b)) [0..<8]"
    by (rule nth_equalityI) simp_all
  ultimately show ?thesis using shift_in_bits [of 8 "\<lambda>b. group_bits 5 src ! (i + b)"] by simp
qed

lemma bech32_pull_loop_spec:
  assumes "8 * (nbits div 8) \<le> 5 * length src" and "8 dvd i"
  shows "\<exists>new. bech32_pull_loop data src nbits i = data @ new \<and> length new = (nbits - i) div 8 \<and>
    group_bits 8 new = map (\<lambda>j. group_bits 5 src ! j) [i..<i + 8 * length new]"
  using assms
proof (induction data src nbits i rule: bech32_pull_loop.induct)
  case (1 data src nbits i)
  show ?case
  proof (cases "i + 8 \<le> nbits")
    case True
    obtain k where k: "i = 8 * k" using 1(3) by blast
    have "Suc k \<le> nbits div 8" using True by (simp add: k less_eq_div_iff_mult_less_eq)
    then have "i + 8 \<le> 8 * (nbits div 8)" unfolding k by simp
    then have fits: "i + 8 \<le> 5 * length src" using 1(2) by linarith
    have "8 dvd i + 8" unfolding k by simp
    from 1(1) [OF True 1(2) this] obtain new where new:
      "bech32_pull_loop (data @ [pull_u8 src i]) src nbits (i + 8) = (data @ [pull_u8 src i]) @ new"
      "length new = (nbits - (i + 8)) div 8"
      "group_bits 8 new = map (\<lambda>j. group_bits 5 src ! j) [i + 8..<i + 8 + 8 * length new]"
      by blast
    have u: "[i..<i + 8 * Suc (length new)] = [i..<i + 8] @ [i + 8..<i + 8 + 8 * length new]"
      using upt_add_eq_append [of i "i + 8" "8 * length new"] by (simp add: add.assoc)
    have "Suc (length new) = (nbits - i) div 8" using True new(2) by linarith
    moreover have "group_bits 8 (pull_u8 src i # new) =
        map (\<lambda>j. group_bits 5 src ! j) [i..<i + 8 * length (pull_u8 src i # new)]"
      unfolding length_Cons u by (simp only: group_bits_simps map_append new(3) pull_u8_bits [OF fits])
    ultimately show ?thesis using True new(1)
      by (intro exI [of _ "pull_u8 src i # new"] conjI) (simp_all add: bech32_pull_loop.simps [of data])
  qed (simp add: bech32_pull_loop.simps [of data])
qed

lemma bech32_pull_bits_spec:
  assumes "8 * (nbits div 8) \<le> 5 * length src"
  obtains new where "bech32_pull_bits data src nbits = Done (data @ new)" and "length new = nbits div 8"
    and "group_bits 8 new = take (8 * (nbits div 8)) (group_bits 5 src)"
proof -
  obtain new where new: "bech32_pull_loop data src nbits 0 = data @ new" "length new = nbits div 8"
      "group_bits 8 new = map (\<lambda>j. group_bits 5 src ! j) [0..<8 * length new]"
    using bech32_pull_loop_spec [OF assms, of 0 data] by auto
  have "map (\<lambda>j. group_bits 5 src ! j) [0..<8 * length new] = take (8 * (nbits div 8)) (group_bits 5 src)"
    using assms new(2) by (intro nth_equalityI) auto
  then show thesis using that [OF _ new(2)] new(1,3) assms by (simp add: bech32_pull_bits_def)
qed

text \<open>On whole bytes both are the conversions of \<open>bech32.c\<close>.\<close>

lemma push_bits_convert:
  "bech32_push_bits data bytes (8 * length bytes) = Done (data @ snd (bech32_convert_bits 5 bytes 8 True))"
proof -
  obtain new where new: "bech32_push_bits data bytes (8 * length bytes) = Done (data @ new)" "groups_ok 5 new"
      "length new = (8 * length bytes + 4) div 5"
      "group_bits 5 new = take (8 * length bytes) (group_bits 8 bytes) @ replicate (5 * length new - 8 * length bytes) False"
    by (rule bech32_push_bits_spec [of "8 * length bytes" bytes data]) auto
  obtain ok out where r: "bech32_convert_bits 5 bytes 8 True = (ok, out)" by fastforce
  obtain k where k: "k < 5" "group_bits 5 out = group_bits 8 bytes @ replicate k False" "groups_ok 5 out"
    using convert_bits_pad [of 5 8 bytes, OF _ _ _ _ r] by auto
  have len: "length new = length out" using new(3) length_convert_bits_8_5 [OF r] by simp
  have "5 * length out = 8 * length bytes + k" using arg_cong [OF k(2), of length] by simp
  then have "group_bits 5 new = group_bits 5 out" using new(4) k(2) len by simp
  then have "new = out" using group_bits_inj len new(2) k(3) by blast
  then show ?thesis using new(1) r by simp
qed

lemma pull_bits_convert:
  assumes "groups_ok 5 grps"
  shows "bech32_pull_bits data grps (5 * length grps) = Done (data @ snd (bech32_convert_bits 8 grps 5 False))"
proof -
  have "8 * (5 * length grps div 8) \<le> 5 * length grps" by (rule times_div_less_eq_dividend)
  then obtain new where new: "bech32_pull_bits data grps (5 * length grps) = Done (data @ new)"
      "length new = 5 * length grps div 8" "group_bits 8 new = take (8 * (5 * length grps div 8)) (group_bits 5 grps)"
    by (rule bech32_pull_bits_spec) blast
  obtain ok out where r: "bech32_convert_bits 8 grps 5 False = (ok, out)" by fastforce
  obtain rest where rest: "group_bits 5 grps = group_bits 8 out @ rest"
    using convert_bits_nopad(2) [of 8 5 grps, OF _ _ _ assms r] by auto
  have len: "length new = length out" using new(2) length_convert_bits_5_8 [OF r assms] by simp
  then have "group_bits 8 new = group_bits 8 out" using new(2,3) rest by simp
  then have "new = out" using group_bits_inj len by simp
  then show ?thesis using new(1) r by simp
qed

section \<open>Strings without a checksum\<close>

text \<open>A character in lower case, and the flags of the cases seen.\<close>

definition fixup_char :: "u8 \<Rightarrow> bool \<Rightarrow> bool \<Rightarrow> u8 \<times> bool \<times> bool" where
  "fixup_char c upper lower =
     (if is_upper_c c then (c + 32, True, lower)
      else if is_lower_c c then (c, upper, True)
      else (c, upper, lower))"

fun fixup_hrp :: "cstr \<Rightarrow> bool \<Rightarrow> bool \<Rightarrow> cstr \<times> bool \<times> bool" where
  "fixup_hrp [] upper lower = ([], upper, lower)"
| "fixup_hrp (c # s) upper lower =
     (let (c, upper, lower) = fixup_char c upper lower;
          (s, upper, lower) = fixup_hrp s upper lower
      in (c # s, upper, lower))"

text \<open>The loop over the characters behind the separator; \<open>None\<close> is \<open>goto fail\<close>, and an
  index outside the table is undefined.\<close>

fun charset_data :: "cstr \<Rightarrow> bool \<Rightarrow> bool \<Rightarrow> (u5 list \<times> bool \<times> bool) option outcome" where
  "charset_data [] upper lower = Done (Some ([], upper, lower))"
| "charset_data (c # s) upper lower =
     (if char_int c < 0 \<or> char_int c > 128 then Done None
      else let (c, upper, lower) = fixup_char c upper lower in
        if nat (char_int c) \<ge> length bech32_charset_rev then Undefined
        else if bech32_charset_rev ! nat (char_int c) = -1 then Done None
        else bind_outcome (charset_data s upper lower) (\<lambda>r. Done (case r of None \<Rightarrow> None
          | Some (data, upper, lower) \<Rightarrow> Some (word_of_int (bech32_charset_rev ! nat (char_int c)) # data, upper, lower))))"

text \<open>The arguments are the \<open>bech32_len\<close> bytes; \<open>tal_strndup\<close> copies up to a NUL.\<close>

definition from_bech32_charset :: "cstr \<Rightarrow> (cstr \<times> u8 list) option outcome" where
  "from_bech32_charset bech32 =
     (let sep = length (takeWhile (\<lambda>c. c \<noteq> 49) bech32) in
      if sep = length bech32 then Done None
      else let (hrp, upper, lower) = fixup_hrp (takeWhile (\<lambda>c. c \<noteq> 0) (take sep bech32)) False False in
        bind_outcome (charset_data (drop (Suc sep) bech32) upper lower) (\<lambda>r.
          case r of None \<Rightarrow> Done None
          | Some (u5data, upper, lower) \<Rightarrow>
              if upper \<and> lower then Done None
              else bind_outcome (bech32_pull_bits [] u5data (length u5data * 5)) (\<lambda>data. Done (Some (hrp, data)))))"

definition to_bech32_charset :: "cstr \<Rightarrow> u8 list \<Rightarrow> cstr outcome" where
  "to_bech32_charset hrp data =
     bind_outcome (bech32_push_bits [] data (length data * 8)) (\<lambda>u5data.
       if list_all (\<lambda>v. unat v < length bech32_charset) u5data
       then Done (hrp @ 49 # map (\<lambda>v. bech32_charset ! unat v) u5data) else Undefined)"

lemma fixup_char_eq: "fixup_char c u l = (tolower_c c, u \<or> is_upper_c c, l \<or> is_lower_c c)"
proof -
  have "\<not> (is_upper_c c \<and> is_lower_c c)" by (auto simp: is_upper_c_def is_lower_c_def)
  then show ?thesis by (auto simp: fixup_char_def tolower_c_def)
qed

lemma fixup_hrp_eq:
  "fixup_hrp s u l = (map tolower_c s, u \<or> (\<exists>c\<in>set s. is_upper_c c), l \<or> (\<exists>c\<in>set s. is_lower_c c))"
  by (induction s arbitrary: u l) (auto simp: fixup_char_eq Let_def)

lemma char_int_ascii_iff: "char_int c < 0 \<or> char_int c > 128 \<longleftrightarrow> \<not> c < 128"
  using unsigned_less [of c, where 'a = int] by (auto simp: char_int_def sint_u8 word_less_def)

lemma charset_rev_lookup:
  assumes "\<not> (char_int c < 0 \<or> char_int c > 128)"
  shows "nat (char_int (tolower_c c)) < length bech32_charset_rev"
    and "bech32_charset_rev ! nat (char_int (tolower_c c)) = charset_value c"
proof -
  have c: "c < 128" using assms by (simp only: char_int_ascii_iff) simp
  have t: "tolower_c c < 128" "nat (char_int (tolower_c c)) = unat (tolower_c c)"
  proof -
    show 1: "tolower_c c < 128" using c by (simp add: word_less_nat_alt unat_tolower_c)
    have "char_int (tolower_c c) = int (unat (tolower_c c))"
      using 1 by (simp add: char_int_ascii)
    then show "nat (char_int (tolower_c c)) = unat (tolower_c c)" by (simp only: nat_int)
  qed
  have "length bech32_charset_rev = 128" by (simp add: bech32_charset_rev_def)
  then show "nat (char_int (tolower_c c)) < length bech32_charset_rev"
    using t by (simp add: word_less_nat_alt)
  have "charset_value (tolower_c c) = bech32_charset_rev ! unat (tolower_c c)"
    using t(1) by (simp add: charset_value_def and_0x80_u8)
  then show "bech32_charset_rev ! nat (char_int (tolower_c c)) = charset_value c"
    using t(2) by (simp add: charset_value_tolower)
qed

lemma charset_data_eq:
  "charset_data s u l = Done
     (if list_all (\<lambda>c. charset_value c \<noteq> -1) s
      then Some (map charset_symbol8 s, u \<or> (\<exists>c\<in>set s. is_upper_c c), l \<or> (\<exists>c\<in>set s. is_lower_c c))
      else None)"
proof (induction s arbitrary: u l)
  case (Cons c s)
  show ?case
  proof (cases "char_int c < 0 \<or> char_int c > 128")
    case True
    then have "\<not> c < 128" by (simp only: char_int_ascii_iff) simp
    then have "charset_value c = -1" by (simp add: charset_value_def and_0x80_u8)
    then show ?thesis using True by simp
  next
    case False
    then show ?thesis using charset_rev_lookup [OF False]
      by (auto simp: fixup_char_eq Let_def Cons.IH simp flip: charset_symbol8_def)
  qed
qed simp

lemma groups_ok_charset: "list_all (\<lambda>c. charset_value c \<noteq> -1) s \<Longrightarrow> groups_ok 5 (map charset_symbol8 s)"
  by (auto simp: groups_ok_def list_all_iff charset_value_symbols)

lemma from_bech32_charset_eq:
  "from_bech32_charset s = Done (
     let hrp = takeWhile (\<lambda>c. c \<noteq> 0) (takeWhile (\<lambda>c. c \<noteq> 49) s);
         rest = tl (dropWhile (\<lambda>c. c \<noteq> 49) s)
     in if 49 \<in> set s \<and> list_all (\<lambda>c. charset_value c \<noteq> -1) rest \<and> \<not> mixed_case (hrp @ rest)
        then Some (map tolower_c hrp, snd (bech32_convert_bits 8 (map charset_symbol8 rest) 5 False)) else None)"
proof -
  define hrp rest where "hrp = takeWhile (\<lambda>c. c \<noteq> 0) (takeWhile (\<lambda>c. c \<noteq> 49) s)"
    and "rest = tl (dropWhile (\<lambda>c. c \<noteq> 49) s)"
  have sep: "length (takeWhile (\<lambda>c. c \<noteq> 49) s) = length s \<longleftrightarrow> 49 \<notin> set s"
  proof
    assume "length (takeWhile (\<lambda>c. c \<noteq> 49) s) = length s"
    then have "takeWhile (\<lambda>c. c \<noteq> 49) s = s" by (metis takeWhile_eq_take take_all order_refl)
    then show "49 \<notin> set s" by (auto simp: takeWhile_eq_all_conv)
  next
    assume "49 \<notin> set s"
    then have "takeWhile (\<lambda>c. c \<noteq> 49) s = s" by (auto simp: takeWhile_eq_all_conv)
    then show "length (takeWhile (\<lambda>c. c \<noteq> 49) s) = length s" by (rule arg_cong)
  qed
  have t: "take (length (takeWhile (\<lambda>c. c \<noteq> 49) s)) s = takeWhile (\<lambda>c. c \<noteq> 49) s"
    by (metis takeWhile_eq_take)
  have d: "drop (Suc (length (takeWhile (\<lambda>c. c \<noteq> 49) s))) s = rest"
    by (simp add: rest_def dropWhile_eq_drop tl_drop drop_Suc)
  show ?thesis
    using groups_ok_charset [of rest] pull_bits_convert [of "map charset_symbol8 rest" "[]"]
    by (auto simp: from_bech32_charset_def sep t d fixup_hrp_eq charset_data_eq Let_def mixed_case_def mult.commute
        simp flip: hrp_def rest_def)
qed

text \<open>C28. Decoding a string without a checksum never reads outside a table or an array, and it
  returns the part before the first \<open>1\<close> in lower case (up to a NUL) and the whole bytes of the
  symbols behind it, exactly when all of these are in the character set and the
  letters of the string are of one case.\<close>

theorem from_bech32_charset_spec:
  "from_bech32_charset s = Done (
     let hrp = takeWhile (\<lambda>c. c \<noteq> 0) (takeWhile (\<lambda>c. c \<noteq> 49) s);
         rest = tl (dropWhile (\<lambda>c. c \<noteq> 49) s)
     in if 49 \<in> set s \<and> list_all (\<lambda>c. charset_value c \<noteq> -1) rest \<and> \<not> mixed_case (hrp @ rest)
        then Some (map tolower_c hrp, snd (bech32_convert_bits 8 (map charset_symbol8 rest) 5 False)) else None)"
  by (rule from_bech32_charset_eq)

text \<open>C30. A byte string written without a checksum is read back, under a human readable part
  without NUL, separator and upper case letters.\<close>

theorem to_from_bech32_charset:
  assumes "\<forall>c\<in>set hrp. c \<noteq> 0 \<and> c \<noteq> 49 \<and> \<not> is_upper_c c"
  shows "bind_outcome (to_bech32_charset hrp data) from_bech32_charset = Done (Some (hrp, data))"
proof -
  obtain ok grps where r: "bech32_convert_bits 5 data 8 True = (ok, grps)" by fastforce
  have ok: "groups_ok 5 grps" using convert_bits_pad(2) [of 5 8 data, OF _ _ _ _ r] by simp
  then have lt: "unat v < 32" "take_bit 5 v = v" if "v \<in> set grps" for v
  proof -
    show 5: "take_bit 5 v = v" using ok that by (simp add: groups_ok_def)
    show "unat v < 32" using take_bit_nat_less_exp [of 5 "unat v"] arg_cong [OF 5, of unat] by (simp add: unsigned_take_bit_eq)
  qed
  have "length bech32_charset = 32" by (simp add: bech32_charset_def)
  then have "to_bech32_charset hrp data = Done (hrp @ 49 # map (\<lambda>v. bech32_charset ! unat v) grps)"
    using lt(1) push_bits_convert [of "[]" data] by (simp add: to_bech32_charset_def r list_all_iff mult.commute)
  moreover have "from_bech32_charset (hrp @ 49 # map (\<lambda>v. bech32_charset ! unat v) grps) = Done (Some (hrp, data))"
  proof -
    define cs where "cs = map (\<lambda>v. bech32_charset ! unat v) grps"
    have cv: "charset_value (bech32_charset ! unat v) = int (unat v)" "\<not> is_upper_c (bech32_charset ! unat v)" if "v \<in> set grps" for v
      using charset_symbol(1,4) [OF lt(1) [OF that]] by auto
    have "charset_value (bech32_charset ! unat v) \<noteq> -1" if "v \<in> set grps" for v
      unfolding cv(1) [OF that] by linarith
    then have all: "list_all (\<lambda>c. charset_value c \<noteq> -1) cs" by (auto simp: cs_def list_all_iff)
    have symbols: "map charset_symbol8 cs = grps"
      using cv(1) by (simp add: cs_def charset_symbol8_def map_idI)
    have tw: "takeWhile (\<lambda>c. c \<noteq> 0) hrp = hrp" "takeWhile (\<lambda>c. c \<noteq> 49) (hrp @ 49 # cs) = hrp"
        "dropWhile (\<lambda>c. c \<noteq> 49) (hrp @ 49 # cs) = 49 # cs"
      using assms by (auto simp: takeWhile_append dropWhile_append takeWhile_eq_all_conv)
    have "\<not> mixed_case (hrp @ cs)" using assms cv(2) by (auto simp: mixed_case_def cs_def)
    moreover have "map tolower_c hrp = hrp" using assms by (simp add: map_idI tolower_c_def)
    ultimately show ?thesis
      using all symbols convert_bits_8_5 [OF r]
      unfolding cs_def [symmetric] from_bech32_charset_eq Let_def tw by simp
  qed
  ultimately show ?thesis by simp
qed

theorem to_from_bech32_charset_witness:
  "bind_outcome (to_bech32_charset (cs ''lnbc'') [0, 255, 7]) from_bech32_charset = Done (Some (cs ''lnbc'', [0, 255, 7]))"
  by (rule to_from_bech32_charset) (simp add: is_upper_c_iff word_le_nat_alt)

end
