(* ===== verification/Bolt11.thy ===== *)
theory Bolt11
  imports Utf8 HashU5 Amount Bech32Util
begin

text \<open>
  \<open>bolt11.c\<close>: decoding a Lightning invoice.  Memory the code leaves uninitialised is
  explicit: a member of \<open>struct bolt11\<close> that \<open>new_bolt11\<close> does not set is \<open>None\<close>
  until a field of the invoice sets it (\<open>chain\<close> and \<open>fallbacks\<close> are never set or used and are
  left out).  A destination of \<open>pull_bits\<close> is the number of bytes it has room for; writing
  more is undefined.  What the code inherits from its surroundings is the record \<open>env\<close>: the
  platform, the addresses of the hashed buffers, the previous bytes of the variable
  \<open>be_val\<close> and the value of \<open>errno\<close>.  No result depends on them, \<open>errno\<close> aside.
\<close>

section \<open>Data\<close>

record env =
  env_platform :: platform
  hrp_address :: nat
  data_address :: nat
  be_val_bytes :: "u8 list"
  env_errno :: errno

record bolt11_field =
  field_tag :: u8
  field_data :: "u5 list"

record bolt11 =
  timestamp :: "u64 option"
  msat :: "amount_msat option"
  payment_hash :: "u8 list option"
  receiver_id :: "u8 list option"
  description :: "cstr option"
  description_hash :: "u8 list option"
  expiry :: u64
  min_final_cltv_expiry :: u32
  features :: "u8 list"
  metadata :: "u8 list option"
  extra_fields :: "bolt11_field list"

text \<open>The local variables of \<open>bolt11_decode_nosig\<close> that the field decoders share.\<close>

record decoder =
  dec_b11 :: bolt11
  dec_hu5 :: hash_u5
  data_left :: "u5 list"
  have_p :: bool
  have_d :: bool
  have_h :: bool
  have_n :: bool
  have_x :: bool
  have_c :: bool
  have_m :: bool

text \<open>The problems a field decoder reports, and the messages of \<open>decode_fail\<close>.\<close>

datatype problem =
    D_invalid_utf8
  | X_length_excessive nat
  | C_length_excessive nat
  | C_too_large u64

datatype decode_error =
    Bad_bech32_string
  | Prefix_does_not_start_with_ln cstr
  | Invalid_amount cstr
  | Invalid_amount_postfix cstr
  | Invalid_sub_millisatoshi_amount cstr
  | Cannot_get_timestamp
  | Cannot_get_tag_and_length
  | Truncated u8
  | Field_problem problem
  | No_valid_p_field
  | Signature_truncated

definition DEFAULT_X :: u64 where "DEFAULT_X = 3600"

definition multipliers :: "(u8 \<times> u64) list" where
  "multipliers =
     [(0x6d, 10 * MSAT_PER_BTC div 1000), (0x75, 10 * MSAT_PER_BTC div 1000000),
      (0x6e, 10 * MSAT_PER_BTC div 1000000000), (0x70, 10 * MSAT_PER_BTC div 1000000000000)]"

section \<open>Pulling bits\<close>

definition pull_bits ::
  "env \<Rightarrow> hash_u5 option \<Rightarrow> u5 list \<Rightarrow> nat \<Rightarrow> nat \<Rightarrow> bool \<Rightarrow> (bool \<times> u8 list \<times> hash_u5 option \<times> u5 list) outcome" where
  "pull_bits e hu5 data room nbits pad =
     (let n5 = nbits div 5;
          n5 = (if nbits mod 5 \<noteq> 0 then n5 + 1 else n5)
      in if length data < n5 then Done (False, [], hu5, data)
         else let (ok, dst) = bech32_convert_bits 8 (take n5 data) 5 pad in
           if length dst > room then Undefined
           else if \<not> ok then Done (False, dst, hu5, data)
           else bind_outcome
             (case hu5 of None \<Rightarrow> Done None
              | Some h \<Rightarrow> bind_outcome (hash_u5 (env_platform e) (data_address e) h (take n5 data)) (\<lambda>h. Done (Some h)))
             (\<lambda>hu5. Done (True, dst, hu5, drop n5 data)))"

text \<open>\<open>assert (pull_bits (...))\<close>, with the hash that every caller passes.\<close>

definition pull_bits_certain ::
  "env \<Rightarrow> hash_u5 \<Rightarrow> u5 list \<Rightarrow> nat \<Rightarrow> nat \<Rightarrow> bool \<Rightarrow> (u8 list \<times> hash_u5 \<times> u5 list) outcome" where
  "pull_bits_certain e hu5 data room nbits pad =
     bind_outcome (pull_bits e (Some hu5) data room nbits pad) (\<lambda>(ok, dst, hu5', data).
       if \<not> ok then Abort
       else Done (dst, case hu5' of Some h \<Rightarrow> h | None \<Rightarrow> hu5, data))"

text \<open>The eight bytes of \<open>be_val\<close> are partly written; a shift by 64 is undefined.\<close>

definition pull_uint :: "env \<Rightarrow> hash_u5 \<Rightarrow> u5 list \<Rightarrow> nat \<Rightarrow> (u64 option \<times> hash_u5 \<times> u5 list) outcome" where
  "pull_uint e hu5 data databits =
     (if databits > 64 then Done (None, hu5, data)
      else bind_outcome (pull_bits e (Some hu5) data 8 databits True) (\<lambda>(ok, dst, hu5', data).
        if \<not> ok then Done (None, hu5, data)
        else let be_val = mem_word (little_endian (env_platform e)) (dst @ drop (length dst) (be_val_bytes e));
                 v = be64_to_cpu (little_endian (env_platform e)) be_val
             in if databits = 0 then Undefined
                else Done (Some (drop_bit (64 - databits) v), case hu5' of Some h \<Rightarrow> h | None \<Rightarrow> hu5, data)))"

definition num_u8 :: "nat \<Rightarrow> nat" where
  "num_u8 num_u5 = (num_u5 * 5 + 4) div 8"

section \<open>The fields\<close>

text \<open>A field decoder returns the problem, if any; one that returns \<open>void\<close> has none.  The array
  \<open>u8data\<close> of \<open>unknown_field\<close> has no elements for a field without data, which is undefined in C.\<close>

definition unknown_field :: "env \<Rightarrow> u8 \<Rightarrow> nat \<Rightarrow> decoder \<Rightarrow> (problem option \<times> decoder) outcome" where
  "unknown_field e type len d =
     (if num_u8 len = 0 \<or> len > length (data_left d) then Undefined
      else let extra = \<lparr>field_tag = type, field_data = take len (data_left d)\<rparr>;
               d = d\<lparr>dec_b11 := (dec_b11 d)\<lparr>extra_fields := extra_fields (dec_b11 d) @ [extra]\<rparr>\<rparr>
      in bind_outcome (pull_bits_certain e (dec_hu5 d) (data_left d) (num_u8 len) (len * 5) True) (\<lambda>(dst, h, data).
           Done (None, d\<lparr>dec_hu5 := h, data_left := data\<rparr>)))"

definition decode_p :: "env \<Rightarrow> nat \<Rightarrow> decoder \<Rightarrow> (problem option \<times> decoder) outcome" where
  "decode_p e len d =
     (if have_p d then unknown_field e 0x70 len d
      else if len \<noteq> 52 then unknown_field e 0x70 len d
      else bind_outcome (pull_bits_certain e (dec_hu5 d) (data_left d) 32 256 False) (\<lambda>(dst, h, data).
        Done (None, d\<lparr>dec_b11 := (dec_b11 d)\<lparr>payment_hash := Some dst\<rparr>, dec_hu5 := h, data_left := data, have_p := True\<rparr>)))"

definition utf8_str :: "env \<Rightarrow> u8 list \<Rightarrow> cstr option outcome" where
  "utf8_str e buf = bind_outcome (utf8_check (env_errno e) buf) (\<lambda>ok. Done (if \<not> ok then None else Some buf))"

definition decode_d :: "env \<Rightarrow> nat \<Rightarrow> decoder \<Rightarrow> (problem option \<times> decoder) outcome" where
  "decode_d e len d =
     (if have_d d then unknown_field e 0x64 len d
      else bind_outcome (pull_bits_certain e (dec_hu5 d) (data_left d) (len * 5 div 8) (len * 5) False) (\<lambda>(desc, h, data).
        let d = d\<lparr>dec_hu5 := h, data_left := data, have_d := True\<rparr> in
        bind_outcome (utf8_str e desc) (\<lambda>s.
          let d = d\<lparr>dec_b11 := (dec_b11 d)\<lparr>description := s\<rparr>\<rparr> in
          if s \<noteq> None then Done (None, d) else Done (Some D_invalid_utf8, d))))"

definition decode_h :: "env \<Rightarrow> nat \<Rightarrow> decoder \<Rightarrow> (problem option \<times> decoder) outcome" where
  "decode_h e len d =
     (if have_h d then unknown_field e 0x68 len d
      else if len \<noteq> 52 then unknown_field e 0x68 len d
      else bind_outcome (pull_bits_certain e (dec_hu5 d) (data_left d) 32 256 False) (\<lambda>(dst, h, data).
        Done (None, d\<lparr>dec_b11 := (dec_b11 d)\<lparr>description_hash := Some dst\<rparr>, dec_hu5 := h, data_left := data, have_h := True\<rparr>)))"

definition decode_x :: "env \<Rightarrow> nat \<Rightarrow> decoder \<Rightarrow> (problem option \<times> decoder) outcome" where
  "decode_x e len d =
     (if have_x d then unknown_field e 0x78 len d
      else bind_outcome (pull_uint e (dec_hu5 d) (data_left d) (len * 5)) (\<lambda>(v, h, data).
        let d = d\<lparr>dec_hu5 := h, data_left := data\<rparr> in
        case v of None \<Rightarrow> Done (Some (X_length_excessive (length data)), d)
        | Some v \<Rightarrow> Done (None, d\<lparr>dec_b11 := (dec_b11 d)\<lparr>expiry := v\<rparr>, have_x := True\<rparr>)))"

definition decode_c :: "env \<Rightarrow> nat \<Rightarrow> decoder \<Rightarrow> (problem option \<times> decoder) outcome" where
  "decode_c e len d =
     (if have_c d then unknown_field e 0x63 len d
      else bind_outcome (pull_uint e (dec_hu5 d) (data_left d) (len * 5)) (\<lambda>(c, h, data).
        let d = d\<lparr>dec_hu5 := h, data_left := data\<rparr> in
        case c of None \<Rightarrow> Done (Some (C_length_excessive (length data)), d)
        | Some c \<Rightarrow>
            let d = d\<lparr>dec_b11 := (dec_b11 d)\<lparr>min_final_cltv_expiry := ucast c\<rparr>\<rparr> in
            if ucast (min_final_cltv_expiry (dec_b11 d)) \<noteq> c then Done (Some (C_too_large c), d)
            else Done (None, d\<lparr>have_c := True\<rparr>)))"

definition decode_n :: "env \<Rightarrow> nat \<Rightarrow> decoder \<Rightarrow> (problem option \<times> decoder) outcome" where
  "decode_n e len d =
     (if have_n d then unknown_field e 0x6e len d
      else if len \<noteq> 53 then unknown_field e 0x6e len d
      else bind_outcome (pull_bits_certain e (dec_hu5 d) (data_left d) 33 (len * 5) False) (\<lambda>(dst, h, data).
        Done (None, d\<lparr>dec_b11 := (dec_b11 d)\<lparr>receiver_id := Some dst\<rparr>, dec_hu5 := h, data_left := data, have_n := True\<rparr>)))"

definition decode_m :: "env \<Rightarrow> nat \<Rightarrow> decoder \<Rightarrow> (problem option \<times> decoder) outcome" where
  "decode_m e len d =
     (let mlen = len * 5 div 8 in
      if have_m d then unknown_field e 0x6d len d
      else bind_outcome (pull_bits_certain e (dec_hu5 d) (data_left d) mlen (len * 5) False) (\<lambda>(dst, h, data).
        Done (None, d\<lparr>dec_b11 := (dec_b11 d)\<lparr>metadata := Some dst\<rparr>, dec_hu5 := h, data_left := data, have_m := True\<rparr>)))"

definition new_bolt11 :: bolt11 where
  "new_bolt11 = \<lparr>timestamp = None, msat = None, payment_hash = None, receiver_id = None, description = None,
     description_hash = None, expiry = DEFAULT_X, min_final_cltv_expiry = 18, features = [], metadata = None,
     extra_fields = []\<rparr>"

text \<open>The \<open>switch\<close> on the character of the type.\<close>

definition decode_field :: "env \<Rightarrow> u8 \<Rightarrow> nat \<Rightarrow> decoder \<Rightarrow> (problem option \<times> decoder) outcome" where
  "decode_field e c len d =
     (if c = 0x70 then decode_p e len d
      else if c = 0x64 then decode_d e len d
      else if c = 0x68 then decode_h e len d
      else if c = 0x6e then decode_n e len d
      else if c = 0x78 then decode_x e len d
      else if c = 0x63 then decode_c e len d
      else if c = 0x6d then decode_m e len d
      else unknown_field e c len d)"

section \<open>What the decoders consume\<close>

definition quintets :: "nat \<Rightarrow> nat" where
  "quintets nbits = nbits div 5 + (if nbits mod 5 \<noteq> 0 then 1 else 0)"

lemma quintets_simps [simp]: "quintets (n * 5) = n" "quintets 256 = 52" "quintets 5 = 1" "quintets 10 = 2" "quintets 35 = 7" "quintets 520 = 104" "quintets 265 = 53"
  by (simp_all add: quintets_def)

lemma pull_bits_alt:
  "pull_bits e hu5 data room nbits pad =
     (if length data < quintets nbits then Done (False, [], hu5, data)
      else let (ok, dst) = bech32_convert_bits 8 (take (quintets nbits) data) 5 pad in
        if length dst > room then Undefined
        else if \<not> ok then Done (False, dst, hu5, data)
        else bind_outcome
          (case hu5 of None \<Rightarrow> Done None
           | Some h \<Rightarrow> bind_outcome (hash_u5 (env_platform e) (data_address e) h (take (quintets nbits) data)) (\<lambda>h. Done (Some h)))
          (\<lambda>hu5. Done (True, dst, hu5, drop (quintets nbits) data)))"
proof -
  have "(let n5 = nbits div 5 in if nbits mod 5 \<noteq> 0 then n5 + 1 else n5) = quintets nbits"
    by (simp add: quintets_def)
  then show ?thesis unfolding pull_bits_def by (cases "nbits mod 5 = 0") (simp_all only: Let_def if_True if_False not_True_eq_False not_False_eq_True)
qed

lemma pull_bits_data:
  "pull_bits e h data room nbits pad = Done (ok, dst, h', data') \<Longrightarrow>
     (if ok then quintets nbits \<le> length data \<and> data' = drop (quintets nbits) data else data' = data)"
  by (auto simp: pull_bits_alt Let_def bind_outcome_Done_iff split: if_splits prod.splits option.splits)

lemma pull_bits_certain_data:
  "pull_bits_certain e h data room nbits pad = Done (dst, h', data') \<Longrightarrow> quintets nbits \<le> length data \<and> data' = drop (quintets nbits) data"
  by (auto simp: pull_bits_certain_def bind_outcome_Done_iff split: if_splits dest!: pull_bits_data)

lemma pull_uint_data:
  "pull_uint e h data nbits = Done (v, h', data') \<Longrightarrow>
     (if v \<noteq> None then quintets nbits \<le> length data \<and> data' = drop (quintets nbits) data else data' = data)"
  by (auto simp: pull_uint_def bind_outcome_Done_iff Let_def split: if_splits dest!: pull_bits_data)

text \<open>The contract of a field decoder: without a problem it consumes exactly the field, with one it
  does not go back, and it records at most one extra field.\<close>

locale field_decoder =
  fixes decode :: "env \<Rightarrow> nat \<Rightarrow> decoder \<Rightarrow> (problem option \<times> decoder) outcome"
  assumes consumes: "decode e len d = Done (None, d') \<Longrightarrow> data_left d' = drop len (data_left d)"
    and problem_forward: "decode e len d = Done (Some p, d') \<Longrightarrow> length (data_left d') \<le> length (data_left d)"
    and records: "decode e len d = Done (r, d') \<Longrightarrow>
      \<exists>new. extra_fields (dec_b11 d') = extra_fields (dec_b11 d) @ new \<and> length new \<le> 1"
begin

lemma forward: "decode e len d = Done (r, d') \<Longrightarrow> length (data_left d') \<le> length (data_left d)"
  by (cases r) (auto dest: consumes problem_forward)

text \<open>Choosing between two field decoders is one.\<close>

lemma choice:
  assumes "field_decoder other"
  shows "field_decoder (\<lambda>e len d. if b then decode e len d else other e len d)"
  by unfold_locales
    (cases b; auto dest: consumes problem_forward records field_decoder.consumes [OF assms]
      field_decoder.problem_forward [OF assms] field_decoder.records [OF assms])+

end

lemma unknown_field_effect:
  "unknown_field e type len d = Done (r, d') \<Longrightarrow> r = None \<and> data_left d' = drop len (data_left d) \<and>
     extra_fields (dec_b11 d') = extra_fields (dec_b11 d) @ [\<lparr>field_tag = type, field_data = take len (data_left d)\<rparr>]"
  by (auto simp: unknown_field_def bind_outcome_Done_iff Let_def split: if_splits dest!: pull_bits_certain_data)

lemmas decoder_effects = unknown_field_effect pull_bits_certain_data pull_uint_data

interpretation unknown: field_decoder "\<lambda>e. unknown_field e c" for c
  by unfold_locales (auto dest!: unknown_field_effect)

interpretation field_p: field_decoder decode_p
  by unfold_locales (auto simp: decode_p_def bind_outcome_Done_iff split: if_splits dest!: decoder_effects)

interpretation field_h: field_decoder decode_h
  by unfold_locales (auto simp: decode_h_def bind_outcome_Done_iff split: if_splits dest!: decoder_effects)

interpretation field_n: field_decoder decode_n
  by unfold_locales (auto simp: decode_n_def bind_outcome_Done_iff split: if_splits dest!: decoder_effects)

interpretation field_m: field_decoder decode_m
  by unfold_locales (auto simp: decode_m_def bind_outcome_Done_iff Let_def split: if_splits dest!: decoder_effects)

interpretation field_d: field_decoder decode_d
  by unfold_locales (auto simp: decode_d_def bind_outcome_Done_iff Let_def split: if_splits dest!: decoder_effects)

interpretation field_x: field_decoder decode_x
  by unfold_locales (auto simp: decode_x_def bind_outcome_Done_iff Let_def split: if_splits option.splits dest!: decoder_effects)

lemma decode_c_effect:
  assumes "decode_c e len d = Done (r, d')" and "\<not> have_c d"
  shows "if r = None then data_left d' = drop len (data_left d) \<and> extra_fields (dec_b11 d') = extra_fields (dec_b11 d)
    else length (data_left d') \<le> length (data_left d) \<and> extra_fields (dec_b11 d') = extra_fields (dec_b11 d)"
proof -
  obtain c h data where p: "pull_uint e (dec_hu5 d) (data_left d) (len * 5) = Done (c, h, data)"
    using assms by (cases "pull_uint e (dec_hu5 d) (data_left d) (len * 5)") (auto simp: decode_c_def)
  show ?thesis
  proof (cases c)
    case None
    then show ?thesis using assms p pull_uint_data [OF p] by (auto simp: decode_c_def)
  next
    case (Some v)
    then show ?thesis using assms p pull_uint_data [OF p]
      by (cases "ucast (ucast v :: u32) = v") (auto simp: decode_c_def)
  qed
qed

interpretation field_c: field_decoder decode_c
proof -
  have u: "decode_c e len d = unknown_field e 0x63 len d" if "have_c d" for e len d
    using that by (simp add: decode_c_def)
  show "field_decoder decode_c"
  proof
    fix e len d d' assume "decode_c e len d = Done (None, d')"
    then show "data_left d' = drop len (data_left d)"
      using decode_c_effect [of e len d None d'] u [of d e len] by (cases "have_c d") (auto dest!: unknown_field_effect)
  next
    fix e len d p d' assume "decode_c e len d = Done (Some p, d')"
    then show "length (data_left d') \<le> length (data_left d)"
      using decode_c_effect [of e len d "Some p" d'] u [of d e len] by (cases "have_c d") (auto dest!: unknown_field_effect)
  next
    fix e len d r d' assume c: "decode_c e len d = Done (r, d')"
    show "\<exists>new. extra_fields (dec_b11 d') = extra_fields (dec_b11 d) @ new \<and> length new \<le> 1"
    proof (cases "have_c d")
      case True
      then show ?thesis using unknown_field_effect [OF trans [OF u [symmetric] c]] by auto
    next
      case False
      then show ?thesis using decode_c_effect [OF c] by (auto split: if_splits)
    qed
  qed
qed

interpretation any_field: field_decoder "\<lambda>e. decode_field e c" for c
  unfolding decode_field_def
  by (intro field_p.choice field_d.choice field_h.choice field_n.choice field_x.choice field_c.choice field_m.choice
      unknown.field_decoder_axioms)

section \<open>The amount\<close>

text \<open>\<open>strtoull (s, \&end, 10)\<close> on a string that is empty or begins with a digit, as \<open>amountstr\<close> does:
  the value, whether \<open>errno\<close> is set to \<open>ERANGE\<close>, and the rest.\<close>

definition strtoull :: "cstr \<Rightarrow> u64 \<times> bool \<times> cstr" where
  "strtoull s =
     (let ds = takeWhile is_digit_c s; v = dec_value ds in
      (if v < 2 ^ 64 then (word_of_nat v, False, drop (length ds) s) else (- 1, True, drop (length ds) s)))"

fun trim_multiplier :: "(u8 \<times> u64) list \<Rightarrow> cstr \<Rightarrow> (u64 \<times> cstr) option" where
  "trim_multiplier [] s = None"
| "trim_multiplier ((c, m) # ms) s = (if last s = c then Some (m, butlast s) else trim_multiplier ms s)"

definition decode_amount :: "env \<Rightarrow> cstr \<Rightarrow> decode_error + amount_msat option" where
  "decode_amount e amountstr =
     (if amountstr = [] then Inr None
      else let (m10, amountstr) = (case trim_multiplier multipliers amountstr of
                 None \<Rightarrow> (10 * MSAT_PER_BTC, amountstr) | Some (m10, s) \<Rightarrow> (m10, s));
               (amount, range, end) = strtoull amountstr
      in if amount = - 1 \<and> (range \<or> env_errno e = ERANGE) then Inl (Invalid_amount amountstr)
         else if amountstr = [] \<or> end \<noteq> [] then Inl (Invalid_amount_postfix end)
         else if amount * m10 mod 10 \<noteq> 0 then Inl (Invalid_sub_millisatoshi_amount amountstr)
         else Inr (Some (amount_msat (amount * m10 div 10))))"

section \<open>The decoder\<close>

lemma field_progress:
  assumes "pull_uint e h data 5 = Done (Some t, h1, data1)" and "pull_uint e h1 data1 10 = Done (Some l, h2, data2)"
    and "decode_field e c len d = Done (r, d')" and "data_left d = data2"
  shows "length (data_left d') < length data"
  using pull_uint_data [OF assms(1)] pull_uint_data [OF assms(2)] any_field.forward [OF assms(3)] assms(4) by auto

function decode_fields :: "env \<Rightarrow> decoder \<Rightarrow> (decode_error + decoder) outcome" where
  "decode_fields e d =
     (if length (data_left d) > 520 div 5 then
        bind_outcome (pull_uint e (dec_hu5 d) (data_left d) 5) (\<lambda>(type, h, data).
          case type of None \<Rightarrow> Done (Inl Cannot_get_tag_and_length)
          | Some type \<Rightarrow> bind_outcome (pull_uint e h data 10) (\<lambda>(data_length, h, data).
              case data_length of None \<Rightarrow> Done (Inl Cannot_get_tag_and_length)
              | Some data_length \<Rightarrow>
                  if unat type \<ge> length bech32_charset then Undefined
                  else if unat data_length > length data then Done (Inl (Truncated (bech32_charset ! unat type)))
                  else bind_outcome
                    (decode_field e (bech32_charset ! unat type) (unat data_length) (d\<lparr>dec_hu5 := h, data_left := data\<rparr>))
                    (\<lambda>(problem, d). case problem of Some p \<Rightarrow> Done (Inl (Field_problem p)) | None \<Rightarrow> decode_fields e d)))
      else Done (Inr d))"
  by pat_completeness auto

termination
proof (relation "measure (\<lambda>(e, d). length (data_left d))")
  show "wf (measure (\<lambda>(e, d). length (data_left d)))" by simp
qed (auto intro: field_progress)

declare decode_fields.simps [simp del]

definition bolt11_decode_nosig :: "env \<Rightarrow> cstr \<Rightarrow> (decode_error + bolt11 \<times> u5 list) outcome" where
  "bolt11_decode_nosig e str =
     (let b11 = new_bolt11;
          str = (if strstarts str (cs ''lightning:'') \<or> strstarts str (cs ''LIGHTNING:'') then drop 10 str else str)
      in if length str < 8 then Done (Inl Bad_bech32_string)
         else let (enc, hrp, data) = bech32_decode str (2 ^ 64 - 1) in
         if enc \<noteq> BECH32_ENCODING_BECH32 then Done (Inl Bad_bech32_string)
         else bind_outcome (hash_u5_init (env_platform e) (hrp_address e) hrp) (\<lambda>h.
           let prefix = takeWhile (\<lambda>c. \<not> is_digit_c c) hrp in
           if \<not> strstarts prefix (cs ''ln'') then Done (Inl (Prefix_does_not_start_with_ln prefix))
           else case decode_amount e (drop (length prefix) hrp) of
             Inl err \<Rightarrow> Done (Inl err)
           | Inr amt \<Rightarrow>
               let b11 = b11\<lparr>msat := amt\<rparr> in
               bind_outcome (pull_uint e h data 35) (\<lambda>(t, h, data).
                 case t of None \<Rightarrow> Done (Inl Cannot_get_timestamp)
                 | Some t \<Rightarrow>
                     let d = \<lparr>dec_b11 = b11\<lparr>timestamp := Some t\<rparr>, dec_hu5 = h, data_left = data, have_p = False, have_d = False,
                       have_h = False, have_n = False, have_x = False, have_c = False, have_m = False\<rparr>
                     in bind_outcome (decode_fields e d) (\<lambda>r.
                       case r of Inl err \<Rightarrow> Done (Inl err)
                       | Inr d \<Rightarrow> if \<not> have_p d then Done (Inl No_valid_p_field)
                           else Done (Inr (dec_b11 d, data_left d))))))"

definition bolt11_decode :: "env \<Rightarrow> cstr \<Rightarrow> (decode_error + bolt11) outcome" where
  "bolt11_decode e str =
     bind_outcome (bolt11_decode_nosig e str) (\<lambda>r.
       case r of Inl err \<Rightarrow> Done (Inl err)
       | Inr (b11, sigdata) \<Rightarrow>
           bind_outcome (pull_bits e None sigdata 65 520 False) (\<lambda>(ok, sig_and_recid, _, sigdata).
             if \<not> ok then Done (Inl Signature_truncated)
             else if length sigdata \<noteq> 0 then Abort
             else Done (Inr b11)))"

section \<open>Integers of five-bit groups\<close>

text \<open>The number a list of five-bit values stands for, the most significant first.\<close>

definition groups_value :: "u5 list \<Rightarrow> nat" where
  "groups_value gs = foldl (\<lambda>v g. 32 * v + unat g) 0 gs"

definition groups_word :: "u5 list \<Rightarrow> u64" where
  "groups_word gs = foldl (\<lambda>v g. push_bit 5 v OR ucast g) 0 gs"

lemma groups_value_snoc: "groups_value (gs @ [g]) = 32 * groups_value gs + unat g"
  by (simp add: groups_value_def)

lemma groups_word_snoc: "groups_word (gs @ [g]) = push_bit 5 (groups_word gs) OR ucast g"
  by (simp add: groups_word_def)

lemma u5_bound: "take_bit 5 (g :: u8) = g \<Longrightarrow> unat g < 32"
proof -
  have "unat (take_bit 5 g) < 2 ^ 5" by (simp only: unsigned_take_bit_eq take_bit_nat_less_exp)
  then show "take_bit 5 g = g \<Longrightarrow> unat g < 32" by simp
qed

lemma u5_ucast: "take_bit 5 (g :: u8) = g \<Longrightarrow> take_bit 5 (ucast g :: u64) = ucast g"
  by (metis unsigned_take_bit_eq)

lemma groups_value_bound: "groups_ok 5 gs \<Longrightarrow> groups_value gs < 2 ^ (5 * length gs)"
proof (induction gs rule: rev_induct)
  case (snoc g gs)
  have "unat g < 32" using u5_bound [of g] snoc.prems by simp
  moreover have "groups_value gs < 2 ^ (5 * length gs)" using snoc by simp
  then have "32 * groups_value gs + 32 \<le> 32 * 2 ^ (5 * length gs)" by (metis Suc_leI mult_Suc_right mult_le_mono2 add.commute)
  ultimately show ?case unfolding groups_value_snoc by (simp add: power_add)
qed (simp add: groups_value_def)

lemma groups_word_bits:
  "groups_ok 5 gs \<Longrightarrow> length gs \<le> 12 \<Longrightarrow>
     msb_bits (5 * length gs) (groups_word gs) = group_bits 5 gs \<and> take_bit (5 * length gs) (groups_word gs) = groups_word gs \<and>
     unat (groups_word gs) = groups_value gs"
proof (induction gs rule: rev_induct)
  case (snoc g gs)
  define w where "w = groups_word gs"
  define n where "n = 5 * length gs"
  have IH: "msb_bits n w = group_bits 5 gs" "take_bit n w = w" "unat w = groups_value gs"
    using snoc by (simp_all add: w_def n_def)
  have g: "take_bit 5 (ucast g :: u64) = ucast g" using snoc.prems by (simp add: u5_ucast)
  have "unat g < 32" using u5_bound [of g] snoc.prems by simp
  have n: "n + 5 \<le> 60" using snoc.prems by (simp add: n_def)
  have "msb_bits (n + 5) (push_bit 5 w OR ucast g) = msb_bits (n + 5 - 5) w @ msb_bits 5 (ucast g :: u64)"
    by (rule msb_bits_push_or [OF g]) (use n in simp_all)
  moreover have "msb_bits 5 (ucast g :: u64) = msb_bits 5 g" by (simp add: msb_bits_eq_iff msb_bits_def bit_simps)
  moreover have "take_bit (n + 5) (push_bit 5 w OR ucast g) = push_bit 5 w OR ucast g"
    using IH(2) g by (simp add: take_bit_or take_bit_push_bit take_bit_mono_eq [OF g])
  moreover have "unat (push_bit 5 w OR ucast g :: u64) = 32 * groups_value gs + unat g"
  proof -
    have "take_bit 5 g = g" using snoc.prems by simp
    then have high: "\<not> bit g k" if "5 \<le> k" for k using that by (metis bit_take_bit_iff leD)
    have "push_bit 5 w AND ucast g = (0 :: u64)"
    proof (rule bit_word_eqI)
      fix k assume "k < LENGTH(64)"
      show "bit (push_bit 5 w AND ucast g :: u64) k = bit (0 :: u64) k"
        using high by (auto simp: bit_simps)
    qed
    then have "push_bit 5 w OR ucast g = push_bit 5 w + (ucast g :: u64)" by (simp add: disjunctive_add_eq_or)
    moreover have "groups_value gs < 2 ^ 55"
    proof (rule less_le_trans)
      show "groups_value gs < 2 ^ n" using groups_value_bound snoc.prems by (simp add: n_def)
      show "(2::nat) ^ n \<le> 2 ^ 55" by (rule power_increasing) (use n in simp_all)
    qed
    ultimately show ?thesis using \<open>unat g < 32\<close> IH(3)
      by (simp add: push_bit_eq_mult unat_word_ariths unsigned_ucast_eq take_bit_nat_eq_self)
  qed
  ultimately show ?case using IH unfolding groups_word_snoc groups_value_snoc by (simp add: n_def w_def add.commute)
qed (simp add: groups_word_def groups_value_def)

section \<open>Pulling succeeds\<close>

text \<open>The hash context can take \<open>n\<close> more five-bit values.\<close>

definition hash_ok :: "hash_u5 \<Rightarrow> nat \<Rightarrow> bool" where
  "hash_ok h n \<longleftrightarrow> (\<exists>pre bits. packs h pre bits \<and> length pre + length bits + 5 * n < 2 ^ 61)"

lemma hash_ok_step:
  assumes "hash_ok h n" and "groups_ok 5 us" and "length us \<le> n"
  shows "\<exists>h'. hash_u5 pf a h us = Done h' \<and> hash_ok h' (n - length us)"
proof -
  obtain pre bits where p: "packs h pre bits" "length pre + length bits + 5 * n < 2 ^ 61"
    using assms(1) by (auto simp: hash_ok_def)
  have "length pre + length bits + 5 * length us < 2 ^ 61" using p(2) assms(3) by linarith
  from hash_u5_packs [OF p(1) assms(2) this] obtain h' where
    "hash_u5 pf a h us = Done h'" "packs h' pre (bits @ group_bits 5 us)" by blast
  moreover have "length pre + length (bits @ group_bits 5 us) + 5 * (n - length us) < 2 ^ 61"
    using p(2) assms(3) by simp
  ultimately show ?thesis unfolding hash_ok_def by blast
qed

lemma groups_ok_take: "groups_ok n xs \<Longrightarrow> groups_ok n (take k xs)"
  by (auto simp: groups_ok_def dest: in_set_takeD)

lemma groups_ok_drop: "groups_ok n xs \<Longrightarrow> groups_ok n (drop k xs)"
  by (auto simp: groups_ok_def dest: in_set_dropD)

lemma pull_bits_too_short: "length data < quintets nbits \<Longrightarrow> pull_bits e h data room nbits pad = Done (False, [], h, data)"
  by (simp add: pull_bits_alt)

lemma length_convert_pad_5_8:
  assumes "bech32_convert_bits 8 gs 5 True = (ok, dst)" and "groups_ok 5 gs"
  shows "ok" and "length dst = (5 * length gs + 7) div 8" and "\<exists>k<8. group_bits 8 dst = group_bits 5 gs @ replicate k False"
proof -
  note c = convert_bits_pad [OF _ _ _ assms(2,1), simplified]
  show "ok" by (rule c(1))
  obtain k where k: "k < 8" "group_bits 8 dst = group_bits 5 gs @ replicate k False" using c(3) by auto
  then have "8 * length dst = 5 * length gs + k" by (metis length_append length_group_bits length_replicate)
  then show "length dst = (5 * length gs + 7) div 8" using k(1) by linarith
  show "\<exists>k<8. group_bits 8 dst = group_bits 5 gs @ replicate k False" using k by blast
qed

lemma pull_bits_pad:
  assumes "quintets nbits = n" and "n \<le> length data" and "groups_ok 5 data" and "hash_ok h (length data)"
  shows "\<exists>h'. pull_bits e (Some h) data room nbits True =
      (if (5 * n + 7) div 8 > room then Undefined
       else Done (True, snd (bech32_convert_bits 8 (take n data) 5 True), Some h', drop n data)) \<and> hash_ok h' (length data - n)"
proof -
  obtain ok dst where c: "bech32_convert_bits 8 (take n data) 5 True = (ok, dst)" by fastforce
  note l = length_convert_pad_5_8 [OF c groups_ok_take [OF assms(3)]]
  obtain h' where "hash_u5 (env_platform e) (data_address e) h (take n data) = Done h'" "hash_ok h' (length data - n)"
    using hash_ok_step [OF assms(4) groups_ok_take [OF assms(3)], of n] assms(2) by auto
  then show ?thesis using l(1,2) assms(1,2) by (auto simp: pull_bits_alt c)
qed

lemma pull_bits_nopad:
  assumes "quintets nbits = n" and "n \<le> length data" and "groups_ok 5 data" and "hash_ok h (length data)" and "5 * n div 8 \<le> room"
  shows "\<exists>h'. pull_bits e (Some h) data room nbits False =
      (let (ok, dst) = bech32_convert_bits 8 (take n data) 5 False in
       if ok then Done (True, dst, Some h', drop n data) else Done (False, dst, Some h, data)) \<and> hash_ok h' (length data - n)"
proof -
  obtain ok dst where c: "bech32_convert_bits 8 (take n data) 5 False = (ok, dst)" by fastforce
  have l: "length dst = 5 * n div 8"
    using length_convert_bits_5_8 [OF c groups_ok_take [OF assms(3)]] assms(2) by simp
  obtain h' where "hash_u5 (env_platform e) (data_address e) h (take n data) = Done h'" "hash_ok h' (length data - n)"
    using hash_ok_step [OF assms(4) groups_ok_take [OF assms(3)], of n] assms(2) by auto
  then show ?thesis using l assms by (auto simp: pull_bits_alt c)
qed

lemma be_bytes_be64: "length bs = 8 \<Longrightarrow> be_bytes 8 (be64_to_cpu le (mem_word le bs)) = bs"
  using mem_bytes_mem_word [of bs le, where 'a = 64] le_bytes_BSWAP(3) [of "mem_word le bs"]
  by (cases le) (simp_all add: be64_to_cpu_def mem_bytes_def be_bytes_def)

lemma be_bytes_bits: "group_bits 8 (be_bytes 8 w) = msb_bits 64 (w :: u64)"
proof (rule nth_equalityI)
  fix j assume "j < length (group_bits 8 (be_bytes 8 w))"
  then have j: "j < 64" by simp
  then have "j div 8 < 8" by (simp add: less_mult_imp_div_less)
  then have "group_bits 8 (be_bytes 8 w) ! j = bit (le_bytes 8 w ! (7 - j div 8)) (7 - j mod 8)"
    using j by (simp add: nth_group_bits be_bytes_def rev_nth)
  also have "\<dots> = bit w (8 * (7 - j div 8) + (7 - j mod 8))"
    using \<open>j div 8 < 8\<close> mod_less_divisor [of 8 j] by (subst bit_nth_le_bytes) auto
  also have "8 * (7 - j div 8) + (7 - j mod 8) = 63 - j"
    using \<open>j div 8 < 8\<close> mod_less_divisor [of 8 j] div_mult_mod_eq [of j 8] by linarith
  finally show "group_bits 8 (be_bytes 8 w) ! j = msb_bits 64 w ! j" using j by (simp add: nth_msb_bits)
qed simp

lemma pull_uint_value:
  assumes "0 < n" and "n \<le> 12" and "n \<le> length data" and "groups_ok 5 data" and "hash_ok h (length data)"
    and "length (be_val_bytes e) = 8"
  shows "\<exists>h' v. pull_uint e h data (n * 5) = Done (Some v, h', drop n data) \<and> hash_ok h' (length data - n) \<and>
    unat v = groups_value (take n data)"
proof -
  obtain ok dst where c: "bech32_convert_bits 8 (take n data) 5 True = (ok, dst)" by fastforce
  note l = length_convert_pad_5_8 [OF c groups_ok_take [OF assms(4)]]
  have len: "length dst = (5 * n + 7) div 8" "length dst \<le> 8" "5 * n \<le> 8 * length dst" using l(2) assms(2,3) by auto
  obtain h' where h': "pull_bits e (Some h) data 8 (n * 5) True = Done (True, dst, Some h', drop n data)" "hash_ok h' (length data - n)"
    using pull_bits_pad [OF quintets_simps(1) assms(3-5), of e 8] len by (auto simp: c)
  define v where "v = be64_to_cpu (little_endian (env_platform e))
    (mem_word (little_endian (env_platform e)) (dst @ drop (length dst) (be_val_bytes e)))"
  have pull: "pull_uint e h data (n * 5) = Done (Some (drop_bit (64 - n * 5) v), h', drop n data)"
    using assms(1,2) h'(1) by (simp add: pull_uint_def v_def Let_def)
  have "length (dst @ drop (length dst) (be_val_bytes e)) = 8" using len(2) assms(6) by simp
  then have v: "msb_bits 64 v = group_bits 8 (dst @ drop (length dst) (be_val_bytes e))"
    unfolding v_def be_bytes_bits [symmetric] by (simp add: be_bytes_be64)
  have s: "msb_bits 64 v = msb_bits (n * 5) (drop_bit (64 - n * 5) v) @ msb_bits (64 - n * 5) v"
    using msb_bits_split [of "64 - n * 5" 64 v] assms(2) by simp
  obtain k where k: "group_bits 8 dst = group_bits 5 (take n data) @ replicate k False" using l(3) by blast
  define g where "g = group_bits 5 (take n data)"
  have g: "length g = n * 5" using assms(3) by (simp add: g_def)
  have "msb_bits (n * 5) (drop_bit (64 - n * 5) v) = take (n * 5) (msb_bits 64 v)" unfolding s by simp
  also have "\<dots> = take (n * 5) (g @ replicate k False @ group_bits 8 (drop (length dst) (be_val_bytes e)))"
    unfolding v group_bits_simps(3) k g_def [symmetric] append_assoc ..
  also have "\<dots> = g" using g by simp
  finally have m: "msb_bits (n * 5) (drop_bit (64 - n * 5) v) = group_bits 5 (take n data)" unfolding g_def .
  have w: "msb_bits (n * 5) (groups_word (take n data)) = group_bits 5 (take n data)"
      "take_bit (n * 5) (groups_word (take n data)) = groups_word (take n data)"
      "unat (groups_word (take n data)) = groups_value (take n data)"
    using groups_word_bits [OF groups_ok_take [OF assms(4)], of n] assms(2,3) by (simp_all add: mult.commute)
  have t: "take_bit (n * 5) (drop_bit (64 - n * 5) v) = drop_bit (64 - n * 5) v"
    by (rule bit_word_eqI) (use assms(2) in \<open>auto simp: bit_simps dest: bit_imp_le_length\<close>)
  have "drop_bit (64 - n * 5) v = groups_word (take n data)"
    by (rule msb_bits_inj [OF trans [OF m w(1) [symmetric]] t w(2)])
  then have "unat (drop_bit (64 - n * 5) v) = groups_value (take n data)" using w(3) by (rule ssubst)
  then show ?thesis using pull h'(2) by blast
qed

text \<open>An asserted pull: a last byte with too little room is undefined, nonzero bits beyond the last
  byte stop the process.\<close>

lemma pull_certain_pad:
  assumes "n \<le> length data" and "groups_ok 5 data" and "hash_ok h (length data)"
  shows "\<exists>dst h'. pull_bits_certain e h data room (n * 5) True =
      (if (5 * n + 7) div 8 > room then Undefined else Done (dst, h', drop n data)) \<and> hash_ok h' (length data - n)"
proof -
  obtain h' where "pull_bits e (Some h) data room (n * 5) True =
      (if (5 * n + 7) div 8 > room then Undefined
       else Done (True, snd (bech32_convert_bits 8 (take n data) 5 True), Some h', drop n data))" "hash_ok h' (length data - n)"
    using pull_bits_pad [OF quintets_simps(1) assms, of e room] by blast
  then show ?thesis
    by (intro exI [of _ "snd (bech32_convert_bits 8 (take n data) 5 True)"] exI [of _ h']) (simp add: pull_bits_certain_def)
qed

lemma pull_certain_nopad:
  assumes "quintets nbits = n" and "n \<le> length data" and "groups_ok 5 data" and "hash_ok h (length data)" and "5 * n div 8 \<le> room"
  shows "\<exists>h'. pull_bits_certain e h data room nbits False =
      (let (ok, dst) = bech32_convert_bits 8 (take n data) 5 False in if ok then Done (dst, h', drop n data) else Abort) \<and>
      hash_ok h' (length data - n)"
proof -
  obtain ok dst where c: "bech32_convert_bits 8 (take n data) 5 False = (ok, dst)" by fastforce
  show ?thesis using pull_bits_nopad [OF assms, of e] by (cases ok) (auto simp: pull_bits_certain_def c)
qed

lemma num_u8_overflow: "(5 * n + 7) div 8 > num_u8 n \<longleftrightarrow> 5 * n mod 8 \<in> {1, 2, 3}"
proof -
  define q r where "q = 5 * n div 8" and "r = 5 * n mod 8"
  have n: "5 * n = 8 * q + r" by (simp add: q_def r_def)
  have r: "r < 8" by (simp add: r_def)
  have "(8 * q + r + 7) div 8 = q + (r + 7) div 8" "(8 * q + r + 4) div 8 = q + (r + 4) div 8"
    by (simp_all add: add.assoc)
  then have "(5 * n + 7) div 8 > num_u8 n \<longleftrightarrow> (r + 7) div 8 > (r + 4) div 8"
    by (simp add: num_u8_def n mult.commute [of n])
  also have "\<dots> \<longleftrightarrow> r \<in> {1, 2, 3}"
  proof -
    have "r = 0 \<or> r = 1 \<or> r = 2 \<or> r = 3 \<or> r = 4 \<or> r = 5 \<or> r = 6 \<or> r = 7" using r by linarith
    then show ?thesis by (elim disjE) simp_all
  qed
  finally show ?thesis by (simp add: r_def)
qed

text \<open>The decoder in the middle of its data: five-bit values, and room for them in the hash.\<close>

definition decoder_ok :: "decoder \<Rightarrow> bool" where
  "decoder_ok d \<longleftrightarrow> groups_ok 5 (data_left d) \<and> hash_ok (dec_hu5 d) (length (data_left d))"

lemma num_u8_0: "num_u8 n = 0 \<longleftrightarrow> n = 0"
  by (cases n) (simp_all add: num_u8_def div_eq_0_iff)

lemma unknown_field_eq:
  assumes "decoder_ok d" and "len \<le> length (data_left d)"
  shows "if len = 0 \<or> 5 * len mod 8 \<in> {1, 2, 3} then unknown_field e type len d = Undefined
    else \<exists>h. unknown_field e type len d = Done (None, d\<lparr>dec_b11 := (dec_b11 d)\<lparr>extra_fields := extra_fields (dec_b11 d) @
          [\<lparr>field_tag = type, field_data = take len (data_left d)\<rparr>]\<rparr>, dec_hu5 := h, data_left := drop len (data_left d)\<rparr>) \<and>
        hash_ok h (length (data_left d) - len)"
proof -
  obtain dst h where p: "pull_bits_certain e (dec_hu5 d) (data_left d) (num_u8 len) (len * 5) True =
      (if 5 * len mod 8 \<in> {1, 2, 3} then Undefined else Done (dst, h, drop len (data_left d)))"
      "hash_ok h (length (data_left d) - len)"
    using pull_certain_pad [of len "data_left d" "dec_hu5 d" e "num_u8 len"] assms
    unfolding num_u8_overflow by (auto simp: decoder_ok_def)
  consider "len = 0" | "len \<noteq> 0" "5 * len mod 8 \<in> {1, 2, 3}" | "len \<noteq> 0" "5 * len mod 8 \<notin> {1, 2, 3}" by blast
  then show ?thesis
  proof cases
    case 1
    then show ?thesis by (simp add: unknown_field_def num_u8_0)
  next
    case 2
    then have "(len = 0 \<or> 5 * len mod 8 \<in> {1, 2, 3}) = True" by blast
    then show ?thesis using 2 p assms(2) by (simp only: if_True unknown_field_def) (simp add: Let_def p(1) num_u8_0)
  next
    case 3
    then have "(len = 0 \<or> 5 * len mod 8 \<in> {1, 2, 3}) = False" by blast
    moreover from 3 have "pull_bits_certain e (dec_hu5 d) (data_left d) (num_u8 len) (len * 5) True = Done (dst, h, drop len (data_left d))"
      using p(1) by (simp only: if_False)
    ultimately show ?thesis using 3(1) p(2) assms(2) by (simp only: if_False) (auto simp: unknown_field_def Let_def num_u8_0)
  qed
qed

section \<open>The specification of the fields\<close>

text \<open>A tagged field is its type and its data.  The state of the specification is the invoice and
  the characters of the types that were used.\<close>

definition field_bytes :: "u5 list \<Rightarrow> u8 list" where
  "field_bytes gs = snd (bech32_convert_bits 8 gs 5 False)"

text \<open>No bit is set behind the last whole byte, and less than a group is left.\<close>

definition padding_ok :: "u5 list \<Rightarrow> bool" where
  "padding_ok gs \<longleftrightarrow> fst (bech32_convert_bits 8 gs 5 False)"

definition used_field :: "u8 \<Rightarrow> u5 list \<Rightarrow> u8 set \<Rightarrow> bool" where
  "used_field c gs seen \<longleftrightarrow> c \<in> {0x70, 0x64, 0x68, 0x6e, 0x78, 0x63, 0x6d} \<and> c \<notin> seen \<and>
     (c = 0x70 \<or> c = 0x68 \<longrightarrow> length gs = 52) \<and> (c = 0x6e \<longrightarrow> length gs = 53)"

definition spec_field :: "u8 \<Rightarrow> u5 list \<Rightarrow> bolt11 \<times> u8 set \<Rightarrow> bolt11 \<times> u8 set" where
  "spec_field c gs st =
     (let (b, seen) = st in
      if used_field c gs seen then
        (if c = 0x70 then b\<lparr>payment_hash := Some (field_bytes gs)\<rparr>
         else if c = 0x64 then b\<lparr>description := Some (field_bytes gs)\<rparr>
         else if c = 0x68 then b\<lparr>description_hash := Some (field_bytes gs)\<rparr>
         else if c = 0x6e then b\<lparr>receiver_id := Some (field_bytes gs)\<rparr>
         else if c = 0x78 then b\<lparr>expiry := word_of_nat (groups_value gs)\<rparr>
         else if c = 0x63 then b\<lparr>min_final_cltv_expiry := word_of_nat (groups_value gs)\<rparr>
         else b\<lparr>metadata := Some (field_bytes gs)\<rparr>, insert c seen)
      else (b\<lparr>extra_fields := extra_fields b @ [\<lparr>field_tag = c, field_data = gs\<rparr>]\<rparr>, seen))"

text \<open>The fields the code decodes without a problem, an abort or undefined behaviour.\<close>

definition field_ok :: "u8 \<Rightarrow> u5 list \<Rightarrow> u8 set \<Rightarrow> bool" where
  "field_ok c gs seen \<longleftrightarrow>
     (if used_field c gs seen then
        (if c = 0x78 then 1 \<le> length gs \<and> length gs \<le> 12
         else if c = 0x63 then 1 \<le> length gs \<and> length gs \<le> 12 \<and> groups_value gs < 2 ^ 32
         else if c = 0x64 then padding_ok gs \<and> utf8_check ENONE (field_bytes gs) = Done True
         else padding_ok gs)
      else gs \<noteq> [] \<and> 5 * length gs mod 8 \<notin> {1, 2, 3})"

definition decoder_rel :: "decoder \<Rightarrow> bolt11 \<times> u8 set \<Rightarrow> bool" where
  "decoder_rel d st \<longleftrightarrow> dec_b11 d = fst st \<and>
     have_p d = (0x70 \<in> snd st) \<and> have_d d = (0x64 \<in> snd st) \<and> have_h d = (0x68 \<in> snd st) \<and> have_n d = (0x6e \<in> snd st) \<and>
     have_x d = (0x78 \<in> snd st) \<and> have_c d = (0x63 \<in> snd st) \<and> have_m d = (0x6d \<in> snd st)"

text \<open>What decoding a field without a problem comes to.\<close>

definition field_result :: "env \<Rightarrow> u8 \<Rightarrow> u5 list \<Rightarrow> decoder \<Rightarrow> bolt11 \<times> u8 set \<Rightarrow> (problem option \<times> decoder) outcome \<Rightarrow> bool" where
  "field_result e c gs d st r \<longleftrightarrow> (\<exists>d'. r = Done (None, d') \<and> decoder_rel d' (spec_field c gs st) \<and>
     data_left d' = drop (length gs) (data_left d) \<and> decoder_ok d')"

lemma decoder_ok_step:
  "decoder_ok d \<Longrightarrow> data_left d' = drop n (data_left d) \<Longrightarrow> hash_ok (dec_hu5 d') (length (data_left d) - n) \<Longrightarrow> decoder_ok d'"
  by (simp add: decoder_ok_def groups_ok_drop)

lemma unknown_field_spec:
  assumes "decoder_ok d" and "decoder_rel d st" and "take (length gs) (data_left d) = gs" and "length gs \<le> length (data_left d)"
    and "\<not> used_field c gs (snd st)" and "gs \<noteq> [] \<and> 5 * length gs mod 8 \<notin> {1, 2, 3}"
  shows "field_result e c gs d st (unknown_field e c (length gs) d)"
proof -
  obtain h where h: "unknown_field e c (length gs) d = Done (None, d\<lparr>dec_b11 := (dec_b11 d)\<lparr>extra_fields := extra_fields (dec_b11 d) @
          [\<lparr>field_tag = c, field_data = gs\<rparr>]\<rparr>, dec_hu5 := h, data_left := drop (length gs) (data_left d)\<rparr>)"
      "hash_ok h (length (data_left d) - length gs)"
    using unknown_field_eq [OF assms(1,4), of e c] assms(3,6) by auto
  obtain b seen where st: "st = (b, seen)" by fastforce
  have "spec_field c gs st = (b\<lparr>extra_fields := extra_fields b @ [\<lparr>field_tag = c, field_data = gs\<rparr>]\<rparr>, seen)"
    using assms(5) by (simp add: spec_field_def st)
  moreover have "dec_b11 d = b" using assms(2) by (simp add: decoder_rel_def st)
  moreover define d' where "d' = d\<lparr>dec_b11 := (dec_b11 d)\<lparr>extra_fields := extra_fields (dec_b11 d) @
      [\<lparr>field_tag = c, field_data = gs\<rparr>]\<rparr>, dec_hu5 := h, data_left := drop (length gs) (data_left d)\<rparr>"
  ultimately have "decoder_rel d' (spec_field c gs st)" using assms(2) by (simp add: decoder_rel_def st)
  moreover have "decoder_ok d'"
  proof (rule decoder_ok_step [OF assms(1)])
    show "data_left d' = drop (length gs) (data_left d)" by (simp add: d'_def)
    show "hash_ok (dec_hu5 d') (length (data_left d) - length gs)" using h(2) by (simp add: d'_def)
  qed
  ultimately show ?thesis using h(1) by (auto simp: field_result_def d'_def)
qed

lemma utf8_check_errno: "utf8_check e buf = utf8_check e' buf"
  by (simp add: utf8_check_def check_loop_iff UTF8_STATE_INIT_def)

lemma pull_field_bytes:
  assumes "decoder_ok d" and "take (length gs) (data_left d) = gs" and "length gs \<le> length (data_left d)"
    and "quintets nbits = length gs" and "5 * length gs div 8 \<le> room"
  shows "if padding_ok gs
    then \<exists>h. pull_bits_certain e (dec_hu5 d) (data_left d) room nbits False = Done (field_bytes gs, h, drop (length gs) (data_left d)) \<and>
      hash_ok h (length (data_left d) - length gs)
    else pull_bits_certain e (dec_hu5 d) (data_left d) room nbits False = Abort"
proof -
  obtain ok dst where c: "bech32_convert_bits 8 gs 5 False = (ok, dst)" by fastforce
  have "groups_ok 5 (data_left d)" "hash_ok (dec_hu5 d) (length (data_left d))" using assms(1) by (simp_all add: decoder_ok_def)
  from pull_certain_nopad [OF assms(4,3) this assms(5), of e] show ?thesis
    by (cases ok) (auto simp: c assms(2) padding_ok_def field_bytes_def)
qed

lemma pull_uint_field:
  assumes "decoder_ok d" and "take (length gs) (data_left d) = gs" and "length gs \<le> length (data_left d)"
    and "1 \<le> length gs" and "length gs \<le> 12" and "length (be_val_bytes e) = 8"
  shows "\<exists>h v. pull_uint e (dec_hu5 d) (data_left d) (length gs * 5) = Done (Some v, h, drop (length gs) (data_left d)) \<and>
    hash_ok h (length (data_left d) - length gs) \<and> v = word_of_nat (groups_value gs) \<and> groups_value gs < 2 ^ 64"
proof -
  have "groups_ok 5 (data_left d)" "hash_ok (dec_hu5 d) (length (data_left d))" using assms(1) by (simp_all add: decoder_ok_def)
  then obtain h v where v: "pull_uint e (dec_hu5 d) (data_left d) (length gs * 5) = Done (Some v, h, drop (length gs) (data_left d))"
      "hash_ok h (length (data_left d) - length gs)" "unat v = groups_value gs"
    using pull_uint_value [of "length gs" "data_left d" "dec_hu5 d" e] assms(2-6) by (cases gs) auto
  then have "v = word_of_nat (groups_value gs)" "groups_value gs < 2 ^ 64"
    using u64_less [of v] by (auto simp flip: v(3))
  then show ?thesis using v by blast
qed

text \<open>A used field of bytes, and a field that is recorded.\<close>

lemma bytes_field_result:
  assumes "decoder_ok d" and "take (length gs) (data_left d) = gs" and "length gs \<le> length (data_left d)"
    and "quintets nbits = length gs" and "5 * length gs div 8 \<le> room" and "padding_ok gs"
    and "r = bind_outcome (pull_bits_certain e (dec_hu5 d) (data_left d) room nbits False) (\<lambda>(dst, h, data). f dst h data)"
    and "\<And>h data. f (field_bytes gs) h data = Done (None, upd h data)"
    and "\<And>h data. decoder_rel (upd h data) (spec_field c gs st) \<and> data_left (upd h data) = data \<and> dec_hu5 (upd h data) = h"
  shows "field_result e c gs d st r"
proof -
  obtain h where h: "pull_bits_certain e (dec_hu5 d) (data_left d) room nbits False = Done (field_bytes gs, h, drop (length gs) (data_left d))"
      "hash_ok h (length (data_left d) - length gs)"
    using pull_field_bytes [OF assms(1-5), of e] assms(6) by auto
  have "decoder_ok (upd h (drop (length gs) (data_left d)))"
    by (rule decoder_ok_step [OF assms(1), where n = "length gs"]) (simp_all add: assms(9) h(2))
  then show ?thesis using assms(7-9) h(1) by (simp add: field_result_def)
qed

lemma unused_field_result:
  assumes "decoder_ok d" and "decoder_rel d st" and "take (length gs) (data_left d) = gs" and "length gs \<le> length (data_left d)"
    and "field_ok c gs (snd st)" and "\<not> used_field c gs (snd st)" and "r = unknown_field e c (length gs) d"
  shows "field_result e c gs d st r"
proof -
  have "gs \<noteq> [] \<and> 5 * length gs mod 8 \<notin> {1, 2, 3}" using assms(5,6) by (auto simp: field_ok_def)
  then show ?thesis unfolding assms(7) by (rule unknown_field_spec [OF assms(1-4,6)])
qed

lemma decode_p_spec:
  assumes "decoder_ok d" and "decoder_rel d st" and "take (length gs) (data_left d) = gs" and "length gs \<le> length (data_left d)"
    and "field_ok 0x70 gs (snd st)"
  shows "field_result e 0x70 gs d st (decode_p e (length gs) d)"
proof (cases "used_field 0x70 gs (snd st)")
  case True
  then have l: "length gs = 52" "\<not> have_p d" "padding_ok gs"
    using assms(2,5) by (auto simp: used_field_def decoder_rel_def field_ok_def)
  show ?thesis
    by (rule bytes_field_result [OF assms(1,3,4), where nbits = 256 and room = 32 and
          upd = "\<lambda>h data. d\<lparr>dec_b11 := (dec_b11 d)\<lparr>payment_hash := Some (field_bytes gs)\<rparr>, dec_hu5 := h, data_left := data, have_p := True\<rparr>"])
      (use l assms(2) True in \<open>cases st; auto simp: decode_p_def decoder_rel_def spec_field_def\<close>)+
next
  case False
  then show ?thesis
    by (rule unused_field_result [OF assms(1-5)]) (use assms(2) False in \<open>auto simp: decode_p_def used_field_def decoder_rel_def\<close>)
qed

lemma decode_h_spec:
  assumes "decoder_ok d" and "decoder_rel d st" and "take (length gs) (data_left d) = gs" and "length gs \<le> length (data_left d)"
    and "field_ok 0x68 gs (snd st)"
  shows "field_result e 0x68 gs d st (decode_h e (length gs) d)"
proof (cases "used_field 0x68 gs (snd st)")
  case True
  then have l: "length gs = 52" "\<not> have_h d" "padding_ok gs"
    using assms(2,5) by (auto simp: used_field_def decoder_rel_def field_ok_def)
  show ?thesis
    by (rule bytes_field_result [OF assms(1,3,4), where nbits = 256 and room = 32 and
          upd = "\<lambda>h data. d\<lparr>dec_b11 := (dec_b11 d)\<lparr>description_hash := Some (field_bytes gs)\<rparr>, dec_hu5 := h, data_left := data, have_h := True\<rparr>"])
      (use l assms(2) True in \<open>cases st; auto simp: decode_h_def decoder_rel_def spec_field_def\<close>)+
next
  case False
  then show ?thesis
    by (rule unused_field_result [OF assms(1-5)]) (use assms(2) False in \<open>auto simp: decode_h_def used_field_def decoder_rel_def\<close>)
qed

lemma decode_n_spec:
  assumes "decoder_ok d" and "decoder_rel d st" and "take (length gs) (data_left d) = gs" and "length gs \<le> length (data_left d)"
    and "field_ok 0x6e gs (snd st)"
  shows "field_result e 0x6e gs d st (decode_n e (length gs) d)"
proof (cases "used_field 0x6e gs (snd st)")
  case True
  then have l: "length gs = 53" "\<not> have_n d" "padding_ok gs"
    using assms(2,5) by (auto simp: used_field_def decoder_rel_def field_ok_def)
  show ?thesis
    by (rule bytes_field_result [OF assms(1,3,4), where nbits = "length gs * 5" and room = 33 and
          upd = "\<lambda>h data. d\<lparr>dec_b11 := (dec_b11 d)\<lparr>receiver_id := Some (field_bytes gs)\<rparr>, dec_hu5 := h, data_left := data, have_n := True\<rparr>"])
      (use l assms(2) True in \<open>cases st; auto simp: decode_n_def decoder_rel_def spec_field_def\<close>)+
next
  case False
  then show ?thesis
    by (rule unused_field_result [OF assms(1-5)]) (use assms(2) False in \<open>auto simp: decode_n_def used_field_def decoder_rel_def\<close>)
qed

lemma decode_m_spec:
  assumes "decoder_ok d" and "decoder_rel d st" and "take (length gs) (data_left d) = gs" and "length gs \<le> length (data_left d)"
    and "field_ok 0x6d gs (snd st)"
  shows "field_result e 0x6d gs d st (decode_m e (length gs) d)"
proof (cases "used_field 0x6d gs (snd st)")
  case True
  then have l: "\<not> have_m d" "padding_ok gs"
    using assms(2,5) by (auto simp: used_field_def decoder_rel_def field_ok_def)
  show ?thesis
    by (rule bytes_field_result [OF assms(1,3,4), where nbits = "length gs * 5" and room = "length gs * 5 div 8" and
          upd = "\<lambda>h data. d\<lparr>dec_b11 := (dec_b11 d)\<lparr>metadata := Some (field_bytes gs)\<rparr>, dec_hu5 := h, data_left := data, have_m := True\<rparr>"])
      (use l assms(2) True in \<open>cases st; auto simp: decode_m_def decoder_rel_def spec_field_def mult.commute\<close>)+
next
  case False
  then show ?thesis
    by (rule unused_field_result [OF assms(1-5)]) (use assms(2) False in \<open>auto simp: decode_m_def used_field_def decoder_rel_def\<close>)
qed

lemma decode_d_spec:
  assumes "decoder_ok d" and "decoder_rel d st" and "take (length gs) (data_left d) = gs" and "length gs \<le> length (data_left d)"
    and "field_ok 0x64 gs (snd st)"
  shows "field_result e 0x64 gs d st (decode_d e (length gs) d)"
proof (cases "used_field 0x64 gs (snd st)")
  case True
  then have l: "\<not> have_d d" "padding_ok gs" "utf8_check ENONE (field_bytes gs) = Done True"
    using assms(2,5) by (auto simp: used_field_def decoder_rel_def field_ok_def)
  have u: "utf8_str e (field_bytes gs) = Done (Some (field_bytes gs))"
    using l(3) utf8_check_errno [of "env_errno e" _ ENONE] by (simp add: utf8_str_def)
  show ?thesis
    by (rule bytes_field_result [OF assms(1,3,4), where nbits = "length gs * 5" and room = "length gs * 5 div 8" and
          upd = "\<lambda>h data. d\<lparr>dec_b11 := (dec_b11 d)\<lparr>description := Some (field_bytes gs)\<rparr>, dec_hu5 := h, data_left := data, have_d := True\<rparr>"])
      (use l u assms(2) True in \<open>cases st; auto simp: decode_d_def decoder_rel_def spec_field_def mult.commute Let_def\<close>)+
next
  case False
  then show ?thesis
    by (rule unused_field_result [OF assms(1-5)]) (use assms(2) False in \<open>auto simp: decode_d_def used_field_def decoder_rel_def\<close>)
qed

lemma decode_x_spec:
  assumes "decoder_ok d" and "decoder_rel d st" and "take (length gs) (data_left d) = gs" and "length gs \<le> length (data_left d)"
    and "field_ok 0x78 gs (snd st)" and "length (be_val_bytes e) = 8"
  shows "field_result e 0x78 gs d st (decode_x e (length gs) d)"
proof (cases "used_field 0x78 gs (snd st)")
  case True
  then have l: "\<not> have_x d" "1 \<le> length gs" "length gs \<le> 12"
    using assms(2,5) by (auto simp: used_field_def decoder_rel_def field_ok_def)
  obtain h v where v: "pull_uint e (dec_hu5 d) (data_left d) (length gs * 5) = Done (Some v, h, drop (length gs) (data_left d))"
      "hash_ok h (length (data_left d) - length gs)" "v = word_of_nat (groups_value gs)"
    using pull_uint_field [OF assms(1,3,4) l(2,3) assms(6)] by blast
  define d' where "d' = d\<lparr>dec_hu5 := h, data_left := drop (length gs) (data_left d), dec_b11 := (dec_b11 d)\<lparr>expiry := v\<rparr>, have_x := True\<rparr>"
  have "decode_x e (length gs) d = Done (None, d')" using l(1) v(1) by (simp add: decode_x_def d'_def)
  moreover have "decoder_rel d' (spec_field 0x78 gs st)"
    using assms(2) True v(3) by (cases st) (auto simp: decoder_rel_def spec_field_def d'_def)
  moreover have "decoder_ok d'"
    by (rule decoder_ok_step [OF assms(1), where n = "length gs"]) (simp_all add: d'_def v(2))
  ultimately show ?thesis by (simp add: field_result_def d'_def)
next
  case False
  then show ?thesis
    by (rule unused_field_result [OF assms(1-5)]) (use assms(2) False in \<open>auto simp: decode_x_def used_field_def decoder_rel_def\<close>)
qed

lemma ucast_fits: "k < 2 ^ 32 \<Longrightarrow> (ucast (word_of_nat k :: u64) :: u32) = word_of_nat k"
    "k < 2 ^ 32 \<Longrightarrow> (ucast (word_of_nat k :: u32) :: u64) = word_of_nat k"
  by (simp_all add: word_unat_eq_iff unsigned_ucast_eq unat_of_nat take_bit_eq_mod)

lemma decode_c_spec:
  assumes "decoder_ok d" and "decoder_rel d st" and "take (length gs) (data_left d) = gs" and "length gs \<le> length (data_left d)"
    and "field_ok 0x63 gs (snd st)" and "length (be_val_bytes e) = 8"
  shows "field_result e 0x63 gs d st (decode_c e (length gs) d)"
proof (cases "used_field 0x63 gs (snd st)")
  case True
  then have l: "\<not> have_c d" "1 \<le> length gs" "length gs \<le> 12" "groups_value gs < 2 ^ 32"
    using assms(2,5) by (auto simp: used_field_def decoder_rel_def field_ok_def)
  obtain h v where v: "pull_uint e (dec_hu5 d) (data_left d) (length gs * 5) = Done (Some v, h, drop (length gs) (data_left d))"
      "hash_ok h (length (data_left d) - length gs)" "v = word_of_nat (groups_value gs)"
    using pull_uint_field [OF assms(1,3,4) l(2,3) assms(6)] by blast
  define d' where "d' = d\<lparr>dec_hu5 := h, data_left := drop (length gs) (data_left d),
    dec_b11 := (dec_b11 d)\<lparr>min_final_cltv_expiry := word_of_nat (groups_value gs)\<rparr>, have_c := True\<rparr>"
  have u: "(ucast v :: u32) = word_of_nat (groups_value gs)" "(ucast (word_of_nat (groups_value gs) :: u32) :: u64) = v"
    using ucast_fits [OF l(4)] by (simp_all add: v(3))
  have "decode_c e (length gs) d = Done (None, d')"
    unfolding decode_c_def v(1) d'_def using l(1) by (simp add: u Let_def)
  moreover have "decoder_rel d' (spec_field 0x63 gs st)"
    using assms(2) True by (cases st) (auto simp: decoder_rel_def spec_field_def d'_def)
  moreover have "decoder_ok d'"
    by (rule decoder_ok_step [OF assms(1), where n = "length gs"]) (simp_all add: d'_def v(2))
  ultimately show ?thesis by (simp add: field_result_def d'_def)
next
  case False
  then show ?thesis
    by (rule unused_field_result [OF assms(1-5)]) (use assms(2) False in \<open>auto simp: decode_c_def used_field_def decoder_rel_def\<close>)
qed

lemma decode_field_spec:
  assumes "decoder_ok d" and "decoder_rel d st" and "take (length gs) (data_left d) = gs" and "length gs \<le> length (data_left d)"
    and "field_ok c gs (snd st)" and "length (be_val_bytes e) = 8"
  shows "field_result e c gs d st (decode_field e c (length gs) d)"
proof -
  consider "c = 0x70" | "c = 0x64" | "c = 0x68" | "c = 0x6e" | "c = 0x78" | "c = 0x63" | "c = 0x6d"
    | "c \<notin> {0x70, 0x64, 0x68, 0x6e, 0x78, 0x63, 0x6d}" by blast
  then show ?thesis
  proof cases
    case 8
    then have "\<not> used_field c gs (snd st)" by (simp add: used_field_def)
    then show ?thesis
      by (rule unused_field_result [OF assms(1-5)]) (use 8 in \<open>auto simp: decode_field_def\<close>)
  qed (use assms decode_p_spec decode_d_spec decode_h_spec decode_n_spec decode_x_spec decode_c_spec decode_m_spec
      in \<open>simp_all add: decode_field_def\<close>)
qed

lemma padding_ok_iff:
  assumes "groups_ok 5 gs"
  shows "padding_ok gs \<longleftrightarrow> 5 * length gs mod 8 < 5 \<and> list_all Not (drop (8 * (5 * length gs div 8)) (group_bits 5 gs))"
proof -
  obtain ok dst where c: "bech32_convert_bits 8 gs 5 False = (ok, dst)" by fastforce
  obtain rest where rest: "length rest < 8" "group_bits 5 gs = group_bits 8 dst @ rest"
      "ok \<longleftrightarrow> length rest < 5 \<and> (\<forall>b\<in>set rest. \<not> b)"
    using convert_bits_nopad(2) [of 8 5 gs, OF _ _ _ assms c] by auto
  have len: "length dst = 5 * length gs div 8" by (rule length_convert_bits_5_8 [OF c assms])
  have "5 * length gs = 8 * length dst + length rest" using arg_cong [OF rest(2), of length] by simp
  then have "length rest = 5 * length gs mod 8" using len rest(1) by (simp add: len minus_div_mult_eq_mod [symmetric] mult.commute)
  moreover have "drop (8 * (5 * length gs div 8)) (group_bits 5 gs) = rest" by (simp add: rest(2) len [symmetric])
  ultimately show ?thesis using rest(3) by (simp add: padding_ok_def c list_all_iff)
qed

section \<open>The whole invoice\<close>

text \<open>How a writer lays out a tagged field: its type, its length in two values, its data.\<close>

definition encode_field :: "u5 \<times> u5 list \<Rightarrow> u5 list" where
  "encode_field f = (case f of (t, gs) \<Rightarrow> t # word_of_nat (length gs div 32) # word_of_nat (length gs mod 32) # gs)"

lemma encode_field_pair: "encode_field (t, gs) = t # word_of_nat (length gs div 32) # word_of_nat (length gs mod 32) # gs"
  by (simp add: encode_field_def)

definition type_char :: "u5 \<Rightarrow> u8" where
  "type_char t = bech32_charset ! unat t"

definition spec_fields :: "(u5 \<times> u5 list) list \<Rightarrow> bolt11 \<times> u8 set \<Rightarrow> bolt11 \<times> u8 set" where
  "spec_fields fs st = fold (\<lambda>(t, gs). spec_field (type_char t) gs) fs st"

fun fields_ok :: "(u5 \<times> u5 list) list \<Rightarrow> bolt11 \<times> u8 set \<Rightarrow> bool" where
  "fields_ok [] st = True"
| "fields_ok ((t, gs) # fs) st \<longleftrightarrow> take_bit 5 t = t \<and> groups_ok 5 gs \<and> length gs < 1024 \<and>
     field_ok (type_char t) gs (snd st) \<and> fields_ok fs (spec_field (type_char t) gs st)"

lemma pull_uint_decoder:
  assumes "decoder_ok d" and "0 < n" and "n \<le> 12" and "data_left d = gs @ rest" and "length gs = n" and "length (be_val_bytes e) = 8"
  shows "\<exists>h v. pull_uint e (dec_hu5 d) (data_left d) (n * 5) = Done (Some v, h, rest) \<and> unat v = groups_value gs \<and>
    decoder_ok (d\<lparr>dec_hu5 := h, data_left := rest\<rparr>)"
proof -
  have ok: "groups_ok 5 (data_left d)" "hash_ok (dec_hu5 d) (length (data_left d))" using assms(1) by (simp_all add: decoder_ok_def)
  obtain h v where "pull_uint e (dec_hu5 d) (data_left d) (n * 5) = Done (Some v, h, drop n (data_left d))"
      "hash_ok h (length (data_left d) - n)" "unat v = groups_value (take n (data_left d))"
    using pull_uint_value [OF assms(2,3) _ ok assms(6)] assms(4,5) by auto
  then show ?thesis using assms(4,5) ok(1) by (intro exI [of _ h] exI [of _ v]) (auto simp: decoder_ok_def)
qed

lemma decode_fields_spec:
  assumes "length (be_val_bytes e) = 8" and "length sig = 104"
  shows "decoder_ok d \<Longrightarrow> decoder_rel d st \<Longrightarrow> data_left d = concat (map encode_field fs) @ sig \<Longrightarrow> fields_ok fs st \<Longrightarrow>
    \<exists>d'. decode_fields e d = Done (Inr d') \<and> decoder_rel d' (spec_fields fs st) \<and> data_left d' = sig"
proof (induction fs arbitrary: d st)
  case Nil
  then show ?case using assms(2) by (simp add: decode_fields.simps [of e d] spec_fields_def)
next
  case (Cons f fs)
  obtain t gs where f: "f = (t, gs)" by fastforce
  define rest where "rest = concat (map encode_field fs) @ sig"
  define len where "len = length gs"
  have ok: "take_bit 5 t = t" "groups_ok 5 gs" "len < 1024" "field_ok (type_char t) gs (snd st)" "fields_ok fs (spec_field (type_char t) gs st)"
    using Cons.prems(4) by (simp_all add: f len_def)
  have data: "data_left d = [t] @ [word_of_nat (len div 32), word_of_nat (len mod 32)] @ gs @ rest"
    using Cons.prems(3) by (simp add: f encode_field_pair rest_def len_def)
  have long: "length (data_left d) > 520 div 5" using assms(2) by (simp add: data rest_def)
  obtain h1 v1 where 1: "pull_uint e (dec_hu5 d) (data_left d) (1 * 5) = Done (Some v1, h1, [word_of_nat (len div 32), word_of_nat (len mod 32)] @ gs @ rest)"
      "unat v1 = groups_value [t]" "decoder_ok (d\<lparr>dec_hu5 := h1, data_left := [word_of_nat (len div 32), word_of_nat (len mod 32)] @ gs @ rest\<rparr>)"
    using pull_uint_decoder [OF Cons.prems(1) _ _ data _ assms(1), of 1] by auto
  obtain h2 v2 where 2: "pull_uint e h1 ([word_of_nat (len div 32), word_of_nat (len mod 32)] @ gs @ rest) (2 * 5) = Done (Some v2, h2, gs @ rest)"
      "unat v2 = groups_value [word_of_nat (len div 32), word_of_nat (len mod 32)]"
      "decoder_ok (d\<lparr>dec_hu5 := h2, data_left := gs @ rest\<rparr>)"
    using pull_uint_decoder [OF 1(3) _ _ _ _ assms(1), of 2 "[word_of_nat (len div 32), word_of_nat (len mod 32)]" "gs @ rest"] by auto
  have v1: "unat v1 = unat t" "unat v1 < 32"
    using 1(2) u5_bound [OF ok(1)] by (simp_all add: groups_value_def)
  have "len div 32 < 32" using ok(3) by (simp add: less_mult_imp_div_less)
  then have "unat (word_of_nat (len div 32) :: u8) = len div 32" "unat (word_of_nat (len mod 32) :: u8) = len mod 32"
    by (intro unat_u8; simp add: less_trans [of _ 32])+
  then have v2: "unat v2 = len" using 2(2) by (simp add: groups_value_def)
  define d2 where "d2 = d\<lparr>dec_hu5 := h2, data_left := gs @ rest\<rparr>"
  have "decoder_rel d2 st" using Cons.prems(2) by (simp add: decoder_rel_def d2_def)
  moreover have "take (length gs) (data_left d2) = gs" "length gs \<le> length (data_left d2)" by (simp_all add: d2_def)
  ultimately obtain d' where d': "decode_field e (type_char t) (length gs) d2 = Done (None, d')"
      "decoder_rel d' (spec_field (type_char t) gs st)" "data_left d' = rest" "decoder_ok d'"
    using decode_field_spec [OF 2(3) [folded d2_def] _ _ _ ok(4) assms(1)] by (auto simp: field_result_def d2_def)
  have "length bech32_charset = 32" by (simp add: bech32_charset_def)
  then have "decode_fields e d = decode_fields e d'"
    using 1(1) 2(1) v1 v2 d'(1) long
    by (simp add: decode_fields.simps [of e d] type_char_def len_def d2_def [symmetric])
  moreover have "\<exists>d''. decode_fields e d' = Done (Inr d'') \<and> decoder_rel d'' (spec_fields fs (spec_field (type_char t) gs st)) \<and> data_left d'' = sig"
    by (rule Cons.IH [OF d'(4,2)]) (simp_all add: d'(3) rest_def ok(5))
  ultimately show ?case by (simp add: spec_fields_def f)
qed

lemma pull_signature:
  assumes "groups_ok 5 sig" and "length sig = 104"
  shows "\<exists>dst. pull_bits e None sig 65 520 False = Done (True, dst, None, [])"
proof -
  obtain ok dst where c: "bech32_convert_bits 8 sig 5 False = (ok, dst)" by fastforce
  have "padding_ok sig" using assms by (simp add: padding_ok_iff)
  then have ok by (simp add: padding_ok_def c)
  moreover have "length dst = 65" using length_convert_bits_5_8 [OF c assms(1)] assms(2) by simp
  ultimately show ?thesis using assms(2) c by (simp add: pull_bits_alt)
qed

lemma lightning_not_prefix:
  assumes "strstarts hrp (cs ''ln'')"
  shows "\<not> strstarts (hrp @ r) (cs ''lightning:'')" and "\<not> strstarts (hrp @ r) (cs ''LIGHTNING:'')"
proof -
  obtain q where "hrp = cs ''ln'' @ q" using assms by (auto simp: strstarts_iff simp del: cs_simps)
  then show "\<not> strstarts (hrp @ r) (cs ''lightning:'')" "\<not> strstarts (hrp @ r) (cs ''LIGHTNING:'')"
    by (simp_all add: strstarts_def)
qed

text \<open>The parts of an invoice, and the string a writer makes of them.\<close>

record invoice =
  inv_hrp :: cstr
  inv_time :: "u5 list"
  inv_fields :: "(u5 \<times> u5 list) list"
  inv_signature :: "u5 list"

definition invoice_data :: "invoice \<Rightarrow> u5 list" where
  "invoice_data iv = inv_time iv @ concat (map encode_field (inv_fields iv)) @ inv_signature iv"

definition invoice_string :: "invoice \<Rightarrow> cstr" where
  "invoice_string iv = bech32_string 1 (inv_hrp iv) (invoice_data iv)"

definition hrp_prefix :: "cstr \<Rightarrow> cstr" where
  "hrp_prefix hrp = takeWhile (\<lambda>c. \<not> is_digit_c c) hrp"

definition hrp_amount :: "cstr \<Rightarrow> cstr" where
  "hrp_amount hrp = drop (length (hrp_prefix hrp)) hrp"

definition invoice_state :: "invoice \<Rightarrow> amount_msat option \<Rightarrow> bolt11 \<times> u8 set" where
  "invoice_state iv amt = (new_bolt11\<lparr>msat := amt, timestamp := Some (word_of_nat (groups_value (inv_time iv)))\<rparr>, {})"

definition invoice_ok :: "invoice \<Rightarrow> amount_msat option \<Rightarrow> bool" where
  "invoice_ok iv amt \<longleftrightarrow>
     hrp_ok (inv_hrp iv) \<and> strstarts (hrp_prefix (inv_hrp iv)) (cs ''ln'') \<and>
     length (inv_time iv) = 7 \<and> groups_ok 5 (inv_time iv) \<and>
     fields_ok (inv_fields iv) (invoice_state iv amt) \<and> 0x70 \<in> snd (spec_fields (inv_fields iv) (invoice_state iv amt)) \<and>
     length (inv_signature iv) = 104 \<and> groups_ok 5 (inv_signature iv) \<and>
     length (inv_hrp iv) + 5 * length (invoice_data iv) < 2 ^ 61"

lemma fields_ok_groups: "fields_ok fs st \<Longrightarrow> groups_ok 5 (concat (map encode_field fs))"
proof (induction fs arbitrary: st)
  case (Cons f fs)
  obtain t gs where f: "f = (t, gs)" by fastforce
  have "length gs < 1024" using Cons.prems by (simp add: f)
  then have "length gs div 32 < 32" "length gs mod 32 < 32" by (simp_all add: less_mult_imp_div_less)
  moreover have small: "take_bit 5 (word_of_nat k :: u8) = word_of_nat k" if "k < 32" for k
  proof -
    have "unat (word_of_nat k :: u8) = k" using that by (intro unat_u8) simp
    then have "unat (take_bit 5 (word_of_nat k :: u8)) = unat (word_of_nat k :: u8)"
      using that by (simp only: unsigned_take_bit_eq) (simp add: take_bit_nat_eq_self)
    then show ?thesis by (simp only: word_unat_eq_iff)
  qed
  moreover have "groups_ok 5 (concat (map encode_field fs))"
    by (rule Cons.IH [of "spec_field (type_char t) gs st"]) (use Cons.prems in \<open>simp add: f\<close>)
  ultimately show ?case using Cons.prems by (simp add: f encode_field_pair)
qed simp

lemma nosig_valid:
  assumes ok: "invoice_ok iv amt" and amt: "decode_amount e (hrp_amount (inv_hrp iv)) = Inr amt" and e: "length (be_val_bytes e) = 8"
    and s: "s = invoice_string iv \<or> s = cs ''lightning:'' @ invoice_string iv \<or> s = cs ''LIGHTNING:'' @ invoice_string iv"
  shows "bolt11_decode_nosig e s = Done (Inr (fst (spec_fields (inv_fields iv) (invoice_state iv amt)), inv_signature iv))"
proof -
  define hrp data where "hrp = inv_hrp iv" and "data = invoice_data iv"
  note o = ok [unfolded invoice_ok_def, folded hrp_def data_def]
  have groups: "groups_ok 5 data" using o by (auto simp: data_def invoice_data_def fields_ok_groups)
  have prefix: "strstarts (hrp_prefix hrp) (cs ''ln'')" using o by blast
  obtain q where q: "hrp_prefix hrp = cs ''ln'' @ q" using prefix by (auto simp: strstarts_iff simp del: cs_simps)
  have hrp: "hrp = hrp_prefix hrp @ hrp_amount hrp" unfolding hrp_prefix_def hrp_amount_def by (metis takeWhile_eq_take append_take_drop_id)
  have sh: "strstarts hrp (cs ''ln'')" using q hrp by (metis append_assoc strstarts_iff)
  define str where "str = invoice_string iv"
  have str: "str = bech32_string 1 hrp data" by (simp add: str_def invoice_string_def hrp_def data_def)
  then obtain r where r: "str = hrp @ r" by (simp add: bech32_string_def)
  have stripped: "(if strstarts s (cs ''lightning:'') \<or> strstarts s (cs ''LIGHTNING:'') then drop 10 s else s) = str"
    using s lightning_not_prefix [OF sh, of r] unfolding str_def [symmetric] r
    by (auto simp: strstarts_iff simp del: cs_simps)
  have len: "length str = length hrp + 7 + length data" "7 \<le> length data" "hrp \<noteq> []"
    using o sh by (auto simp: str length_bech32_string data_def invoice_data_def strstarts_def)
  have dec: "bech32_decode str (2 ^ 64 - 1) = (BECH32_ENCODING_BECH32, hrp, data)"
  proof (rule bech32_decode_complete)
    show "bech32_final_constant BECH32_ENCODING_BECH32 = Done 1" by simp
    have so: "symbols_ok data" using groups by (simp add: symbols_ok_def groups_ok_def)
    have ho: "hrp_ok hrp" using o by blast
    show "map tolower_c str = bech32_string 1 hrp data" unfolding str by (rule map_tolower_bech32_string [OF ho so])
    show "hrp \<noteq> []" "hrp_ok hrp" "symbols_ok data" using len(3) ho so by auto
    show "\<not> mixed_case str" unfolding str by (rule mixed_case_hrp_ok [OF ho so])
    show "length str \<le> 2 ^ 64 - 1" using o len(1) by simp
  qed
  obtain h where h: "hash_u5_init (env_platform e) (hrp_address e) hrp = Done h" "packs h hrp []"
    using hash_u5_init_packs by blast
  define d0 where "d0 = \<lparr>dec_b11 = new_bolt11, dec_hu5 = h, data_left = data, have_p = False, have_d = False,
    have_h = False, have_n = False, have_x = False, have_c = False, have_m = False\<rparr>"
  define fields where "fields = concat (map encode_field (inv_fields iv))"
  have "hash_ok h (length data)" unfolding hash_ok_def by (rule exI [of _ hrp], rule exI [of _ "[]"]) (use h(2) o in simp)
  then have d0: "decoder_ok d0" using groups by (simp add: decoder_ok_def d0_def)
  have d0': "data_left d0 = inv_time iv @ fields @ inv_signature iv" by (simp add: d0_def data_def invoice_data_def fields_def)
  obtain h' v where v: "pull_uint e h data 35 = Done (Some v, h', fields @ inv_signature iv)" "unat v = groups_value (inv_time iv)"
      "decoder_ok (d0\<lparr>dec_hu5 := h', data_left := fields @ inv_signature iv\<rparr>)"
    using pull_uint_decoder [OF d0 _ _ d0' _ e, of 7] o by (auto simp: d0_def)
  define st where "st = invoice_state iv amt"
  define d1 where "d1 = d0\<lparr>dec_b11 := new_bolt11\<lparr>msat := amt, timestamp := Some v\<rparr>, dec_hu5 := h', data_left := fields @ inv_signature iv\<rparr>"
  have v': "v = word_of_nat (groups_value (inv_time iv))" using v(2) by (simp flip: v(2))
  have d1: "decoder_ok d1" "decoder_rel d1 st" "data_left d1 = concat (map encode_field (inv_fields iv)) @ inv_signature iv"
    using v(3) by (simp_all add: decoder_ok_def d1_def d0_def decoder_rel_def st_def invoice_state_def fields_def v')
  obtain d' where d': "decode_fields e d1 = Done (Inr d')" "decoder_rel d' (spec_fields (inv_fields iv) st)" "data_left d' = inv_signature iv"
    using decode_fields_spec [OF e _ d1] o by (auto simp: st_def)
  have p: "have_p d'" using d'(2) o by (simp add: decoder_rel_def st_def)
  have am: "decode_amount e (drop (length (takeWhile (\<lambda>c. \<not> is_digit_c c) hrp)) hrp) = Inr amt"
    using amt by (simp add: hrp_amount_def hrp_prefix_def hrp_def)
  show ?thesis
    unfolding bolt11_decode_nosig_def stripped Let_def dec prod.case
    using len h(1) prefix v(1) d'(1-3) p am
    by (simp add: dec hrp_prefix_def d1_def d0_def decoder_rel_def st_def del: cs_simps)
qed

lemma bolt11_decode_valid:
  assumes ok: "invoice_ok iv amt" and amt: "decode_amount e (hrp_amount (inv_hrp iv)) = Inr amt" and e: "length (be_val_bytes e) = 8"
    and s: "s = invoice_string iv \<or> s = cs ''lightning:'' @ invoice_string iv \<or> s = cs ''LIGHTNING:'' @ invoice_string iv"
  shows "bolt11_decode e s = Done (Inr (fst (spec_fields (inv_fields iv) (invoice_state iv amt))))"
proof -
  have "groups_ok 5 (inv_signature iv)" "length (inv_signature iv) = 104" using ok unfolding invoice_ok_def by blast+
  then obtain dst where "pull_bits e None (inv_signature iv) 65 520 False = Done (True, dst, None, [])"
    using pull_signature by blast
  then show ?thesis using nosig_valid [OF assms] by (simp add: bolt11_decode_def)
qed

text \<open>The loop leaves at most the signature, a tail of the data.\<close>

lemma decode_fields_tail:
  "decode_fields e d = Done (Inr d') \<Longrightarrow> \<exists>k. data_left d' = drop k (data_left d) \<and> length (data_left d') \<le> 104"
proof (induction "length (data_left d)" arbitrary: d rule: less_induct)
  case less
  show ?case
  proof (cases "length (data_left d) > 520 div 5")
    case False
    then show ?thesis using less(2) by (intro exI [of _ 0]) (simp add: decode_fields.simps [of e d])
  next
    case True
    from less(2) True obtain t h1 data1 where 1: "pull_uint e (dec_hu5 d) (data_left d) 5 = Done (Some t, h1, data1)"
      by (auto simp: decode_fields.simps [of e d] bind_outcome_Done_iff split: option.splits)
    from less(2) True 1 obtain l h2 data2 where 2: "pull_uint e h1 data1 10 = Done (Some l, h2, data2)"
      by (auto simp: decode_fields.simps [of e d] bind_outcome_Done_iff split: option.splits)
    from less(2) True 1 2 obtain d2 where f: "decode_field e (bech32_charset ! unat t) (unat l) (d\<lparr>dec_hu5 := h2, data_left := data2\<rparr>) = Done (None, d2)"
        and rec: "decode_fields e d2 = Done (Inr d')"
      by (auto simp: decode_fields.simps [of e d] bind_outcome_Done_iff split: option.splits if_splits)
    have "data_left d2 = drop (unat l + 2 + 1) (data_left d)"
      using any_field.consumes [OF f] pull_uint_data [OF 1] pull_uint_data [OF 2] by (simp add: add.commute)
    moreover have "length (data_left d2) < length (data_left d)"
      using field_progress [OF 1 2 f] by simp
    then obtain k where "data_left d' = drop k (data_left d2)" "length (data_left d') \<le> 104"
      using less(1) [OF _ rec] by blast
    ultimately show ?thesis by (intro exI [of _ "k + (unat l + 2 + 1)"]) (simp add: add.commute)
  qed
qed

lemma nosig_signature:
  assumes "bolt11_decode_nosig e s = Done (Inr (b, sig))"
  shows "groups_ok 5 sig" and "length sig \<le> 104"
proof -
  define str where "str = (if strstarts s (cs ''lightning:'') \<or> strstarts s (cs ''LIGHTNING:'') then drop 10 s else s)"
  obtain enc hrp data where dec: "bech32_decode str (2 ^ 64 - 1) = (enc, hrp, data)" by (metis prod_cases3)
  note n = assms [unfolded bolt11_decode_nosig_def Let_def, folded str_def, unfolded dec prod.case]
  have enc: "enc = BECH32_ENCODING_BECH32" using n by (auto split: if_splits)
  then have "symbols_ok data" using bech32_decode_sound [OF dec] by simp
  then have groups: "groups_ok 5 data" by (simp add: symbols_ok_def groups_ok_def)
  from n enc obtain amt where am: "decode_amount e (drop (length (takeWhile (\<lambda>c. \<not> is_digit_c c) hrp)) hrp) = Inr amt"
    by (cases "decode_amount e (drop (length (takeWhile (\<lambda>c. \<not> is_digit_c c) hrp)) hrp)")
      (auto simp: bind_outcome_Done_iff split: if_split_asm)
  from n enc am obtain h v h' data' r where
    p: "pull_uint e h data 35 = Done (Some v, h', data')"
      "decode_fields e \<lparr>dec_b11 = new_bolt11\<lparr>msat := amt, timestamp := Some v\<rparr>, dec_hu5 = h', data_left = data', have_p = False, have_d = False,
         have_h = False, have_n = False, have_x = False, have_c = False, have_m = False\<rparr> = Done r"
      "(case r of Inl err \<Rightarrow> Done (Inl err) | Inr d \<Rightarrow> if \<not> have_p d then Done (Inl No_valid_p_field) else Done (Inr (dec_b11 d, data_left d))) = Done (Inr (b, sig))"
    by (auto simp: bind_outcome_Done_iff split: if_split_asm option.split_asm)
  obtain d' where d': "r = Inr d'" "sig = data_left d'" using p(3) by (cases r) (auto split: if_split_asm)
  have "data' = drop 7 data" using pull_uint_data [OF p(1)] by simp
  moreover obtain k where "data_left d' = drop k data'" "length (data_left d') \<le> 104"
    using decode_fields_tail [OF p(2) [unfolded d'(1)]] by auto
  ultimately show "groups_ok 5 sig" "length sig \<le> 104" using groups d'(2) by (auto intro: groups_ok_drop)
qed

section \<open>The properties of the decoder\<close>

text \<open>C1. Decoding refines the specification: the string of every invoice whose parts are in
  order, with or without the scheme, is decoded, and to exactly the members that its fields
  determine, in the order of the fields: the first usable field of a type counts, every other
  field is recorded as an extra one.\<close>

theorem bolt11_decode_invoice:
  assumes "invoice_ok iv amt" and "decode_amount e (hrp_amount (inv_hrp iv)) = Inr amt" and "length (be_val_bytes e) = 8"
    and "s \<in> {invoice_string iv, cs ''lightning:'' @ invoice_string iv, cs ''LIGHTNING:'' @ invoice_string iv}"
  shows "bolt11_decode e s = Done (Inr (fst (spec_fields (inv_fields iv) (invoice_state iv amt))))"
  by (rule bolt11_decode_valid [OF assms(1-3)]) (use assms(4) in simp)

text \<open>C10. The assertion behind the signature never fails: what the field loop leaves is at most
  104 values, and with exactly 104 the invoice is accepted, with fewer it is reported as
  truncated.\<close>

theorem bolt11_signature_assertion:
  assumes "bolt11_decode_nosig e s = Done (Inr (b, sig))"
  shows "length sig \<le> 104 \<and> bolt11_decode e s = Done (if length sig = 104 then Inr b else Inl Signature_truncated)"
proof (cases "length sig = 104")
  case True
  then obtain dst where "pull_bits e None sig 65 520 False = Done (True, dst, None, [])"
    using pull_signature nosig_signature(1) [OF assms] by blast
  then show ?thesis using True by (simp add: bolt11_decode_def assms)
next
  case False
  then have "length sig < quintets 520" using nosig_signature(2) [OF assms] by simp
  then show ?thesis using False nosig_signature(2) [OF assms] pull_bits_too_short [of sig 520 e None 65 False]
    by (simp add: bolt11_decode_def assms)
qed

text \<open>C21. Recording a field of \<open>len\<close> values writes one byte beyond the buffer of \<open>num_u8 len\<close> bytes
  exactly when one, two or three bits are left over, and a field without data has a buffer without
  elements, which is undefined as well; any other field is consumed and appended.\<close>

theorem unknown_field_overflow:
  assumes "decoder_ok d" and "len \<le> length (data_left d)"
  shows "if len = 0 \<or> 5 * len mod 8 \<in> {1, 2, 3} then unknown_field e c len d = Undefined
    else \<exists>d'. unknown_field e c len d = Done (None, d') \<and> data_left d' = drop len (data_left d) \<and>
      extra_fields (dec_b11 d') = extra_fields (dec_b11 d) @ [\<lparr>field_tag = c, field_data = take len (data_left d)\<rparr>]"
  using unknown_field_eq [OF assms, of e c] by (auto split: if_splits)

text \<open>The decoders of the fields of bytes, whether one has been seen, and the length they insist on.\<close>

definition byte_fields :: "((env \<Rightarrow> nat \<Rightarrow> decoder \<Rightarrow> (problem option \<times> decoder) outcome) \<times> (decoder \<Rightarrow> bool) \<times> nat option) list" where
  "byte_fields = [(decode_p, have_p, Some 52), (decode_h, have_h, Some 52), (decode_n, have_n, Some 53),
     (decode_d, have_d, None), (decode_m, have_m, None)]"

text \<open>C23. A field of bytes whose bits behind the last whole byte are not all zero, or that leaves a
  whole value over, stops the process: the assertion around \<open>pull_bits\<close> fails on the input.\<close>

theorem byte_field_padding_abort:
  assumes "(dec, seen, fixed) \<in> set byte_fields" and "\<not> seen d" and "fixed \<in> {None, Some len}"
    and "decoder_ok d" and "len \<le> length (data_left d)"
  shows "dec e len d = Abort \<longleftrightarrow> \<not> padding_ok (take len (data_left d))"
proof -
  define gs where "gs = take len (data_left d)"
  have g: "take (length gs) (data_left d) = gs" "length gs \<le> length (data_left d)" "length gs = len"
    using assms(5) by (simp_all add: gs_def)
  have pull: "(\<exists>h. pull_bits_certain e (dec_hu5 d) (data_left d) room nbits False = Done (field_bytes gs, h, drop len (data_left d))) \<and> padding_ok gs \<or>
      pull_bits_certain e (dec_hu5 d) (data_left d) room nbits False = Abort \<and> \<not> padding_ok gs"
    if "quintets nbits = len" "5 * len div 8 \<le> room" for nbits room
    using pull_field_bytes [OF assms(4) g(1,2), of nbits room e] that g(3) by (cases "padding_ok gs") auto
  have utf: "\<exists>r. utf8_str e buf = Done r" for buf
    by (simp add: utf8_str_def utf8_check_def check_loop_iff UTF8_STATE_INIT_def)
  have "decode_p e len d = Abort \<longleftrightarrow> \<not> padding_ok gs" if "\<not> have_p d" "len = 52"
    using pull [of 256 32] that by (auto simp: decode_p_def)
  moreover have "decode_h e len d = Abort \<longleftrightarrow> \<not> padding_ok gs" if "\<not> have_h d" "len = 52"
    using pull [of 256 32] that by (auto simp: decode_h_def)
  moreover have "decode_n e len d = Abort \<longleftrightarrow> \<not> padding_ok gs" if "\<not> have_n d" "len = 53"
    using pull [of 265 33] that by (auto simp: decode_n_def)
  moreover have "decode_m e len d = Abort \<longleftrightarrow> \<not> padding_ok gs" if "\<not> have_m d"
    using pull [of "len * 5" "len * 5 div 8"] that by (auto simp: decode_m_def mult.commute)
  moreover have "decode_d e len d = Abort \<longleftrightarrow> \<not> padding_ok gs" if "\<not> have_d d"
    using pull [of "len * 5" "len * 5 div 8"] utf [of "field_bytes gs"] that by (auto simp: decode_d_def mult.commute Let_def split: if_splits)
  moreover have "dec = decode_p \<and> seen = have_p \<and> fixed = Some 52 \<or> dec = decode_h \<and> seen = have_h \<and> fixed = Some 52 \<or>
      dec = decode_n \<and> seen = have_n \<and> fixed = Some 53 \<or> dec = decode_d \<and> seen = have_d \<or> dec = decode_m \<and> seen = have_m"
    using assms(1) by (simp add: byte_fields_def) blast
  ultimately show ?thesis using assms(2,3) unfolding gs_def [symmetric] by auto
qed

text \<open>An expiry or delay field without data is undefined: the 64-bit value is shifted by 64.\<close>

theorem empty_integer_field_undefined:
  assumes "decoder_ok d" and "\<not> have_x d" and "\<not> have_c d"
  shows "decode_x e 0 d = Undefined \<and> decode_c e 0 d = Undefined"
proof -
  have ok: "groups_ok 5 (data_left d)" "hash_ok (dec_hu5 d) (length (data_left d))" using assms(1) by (simp_all add: decoder_ok_def)
  obtain h where "pull_bits e (Some (dec_hu5 d)) (data_left d) 8 (0 * 5) True =
      Done (True, snd (bech32_convert_bits 8 (take 0 (data_left d)) 5 True), Some h, drop 0 (data_left d))"
    using pull_bits_pad [OF quintets_simps(1) le0 ok, of e 8] by auto
  then show ?thesis using assms(2,3) by (simp add: decode_x_def decode_c_def pull_uint_def)
qed

text \<open>The multiplier letters, and the tenths of a millisatoshi one unit is worth under each.\<close>

definition amount_factors :: "(cstr \<times> nat) list" where
  "amount_factors = [([], 10 ^ 12), ([0x6d], 10 ^ 9), ([0x75], 10 ^ 6), ([0x6e], 10 ^ 3), ([0x70], 1)]"

text \<open>C32. The amount is exact up to the wrap-around of its product: digits with or without a
  multiplier letter are read as their number times the factor, modulo two to the 64, in tenths of
  a millisatoshi, and refused when that is no whole millisatoshi.\<close>

theorem decode_amount_wraps:
  assumes "digits ds" and "ds \<noteq> []" and "dec_value ds < 2 ^ 64 - 1" and "(suffix, factor) \<in> set amount_factors"
  shows "decode_amount e (ds @ suffix) = (let p = dec_value ds * factor mod 2 ^ 64 in
    if p mod 10 \<noteq> 0 then Inl (Invalid_sub_millisatoshi_amount ds) else Inr (Some (AMOUNT_MSAT (word_of_nat (p div 10)))))"
proof -
  have last: "is_digit_c (last ds)" using assms(1,2) by (simp add: digits_def)
  have letters: "\<not> is_digit_c 0x6d" "\<not> is_digit_c 0x75" "\<not> is_digit_c 0x6e" "\<not> is_digit_c 0x70" by (simp_all add: is_digit_unat)
  then have not_last: "last ds \<noteq> 0x6d" "last ds \<noteq> 0x75" "last ds \<noteq> 0x6e" "last ds \<noteq> 0x70" using last by auto
  obtain m10 :: u64 where m10: "(case trim_multiplier multipliers (ds @ suffix) of None \<Rightarrow> (10 * MSAT_PER_BTC, ds @ suffix)
      | Some (m10, s) \<Rightarrow> (m10, s)) = (m10, ds)" "unat m10 = factor"
    using assms(4) not_last
    by (auto simp: amount_factors_def multipliers_def MSAT_PER_BTC_def MSAT_PER_SAT_def SAT_PER_BTC_def)
  have tw: "takeWhile is_digit_c ds = ds" using assms(1) by (simp add: takeWhile_eq_all_conv digits_def)
  define v where "v = dec_value ds"
  have st: "strtoull ds = (word_of_nat v, False, [])" using assms(3) by (simp add: strtoull_def tw v_def)
  have u: "unat (word_of_nat v :: u64) = v" using assms(3) by (simp add: unat_of_nat v_def)
  have "unat (- 1 :: u64) = 2 ^ 64 - 1" by (simp add: unsigned_minus_1_eq_mask mask_eq_exp_minus_1)
  then have max: "(word_of_nat v :: u64) \<noteq> - 1" using assms(3) u by (metis less_irrefl v_def)
  have prod: "unat (word_of_nat v * m10) = v * factor mod 2 ^ 64" using u m10(2) by (simp add: unat_word_ariths)
  have "decode_amount e (ds @ suffix) =
      (if word_of_nat v * m10 mod 10 \<noteq> 0 then Inl (Invalid_sub_millisatoshi_amount ds)
       else Inr (Some (amount_msat (word_of_nat v * m10 div 10))))"
    using assms(2) max unfolding decode_amount_def m10(1) by (simp add: st)
  moreover have "word_of_nat v * m10 mod 10 = 0 \<longleftrightarrow> v * factor mod 2 ^ 64 mod 10 = 0"
    unfolding word_unat_eq_iff [where 'a = 64] unat_mod prod by simp
  moreover have "word_of_nat v * m10 div 10 = word_of_nat (v * factor mod 2 ^ 64 div 10)"
  proof -
    have "v * factor mod 2 ^ 64 div 10 < 2 ^ 64" by (rule le_less_trans [OF div_le_dividend]) simp
    then show ?thesis unfolding word_unat_eq_iff [where 'a = 64] unat_div prod by (simp add: unat_of_nat)
  qed
  ultimately show ?thesis by (simp only: Let_def v_def amount_msat_def)
qed

section \<open>Witnesses\<close>

definition example_env :: env where
  "example_env = \<lparr>env_platform = \<lparr>little_endian = True, unaligned_access = False\<rparr>, hrp_address = 0, data_address = 0,
     be_val_bytes = replicate 8 0xAA, env_errno = ENONE\<rparr>"

definition example_invoice :: invoice where
  "example_invoice = \<lparr>inv_hrp = cs ''lnbc20u'', inv_time = replicate 7 1, inv_fields = [(1, replicate 52 0)], inv_signature = replicate 104 0\<rparr>"

lemma groups_ok_replicate: "take_bit 5 x = x \<Longrightarrow> groups_ok 5 (replicate k x)"
  by (simp add: groups_ok_def)

lemma group_bits_zeros: "group_bits 5 (replicate k 0) = replicate (5 * k) False"
  by (induction k) (simp_all add: msb_bits_0_word replicate_add)

lemma padding_ok_zeros: "5 * k mod 8 < 5 \<Longrightarrow> padding_ok (replicate k 0)"
  by (simp add: padding_ok_iff groups_ok_replicate list_all_iff group_bits_zeros)

lemma example_type: "type_char 1 = 0x70"
  by (simp add: type_char_def bech32_charset_def)

lemma example_used: "used_field 0x70 (replicate 52 0) {}"
  by (simp add: used_field_def)

lemma example_spec: "0x70 \<notin> snd st \<Longrightarrow> spec_fields (inv_fields example_invoice) st =
    ((fst st)\<lparr>payment_hash := Some (field_bytes (replicate 52 0))\<rparr>, insert 0x70 (snd st))"
  by (cases st) (auto simp: spec_fields_def example_invoice_def example_type spec_field_def used_field_def)

lemma example_amount: "decode_amount example_env (hrp_amount (inv_hrp example_invoice)) = Inr (Some (AMOUNT_MSAT 2000000))"
proof -
  have d: "\<not> is_digit_c 108" "\<not> is_digit_c 110" "\<not> is_digit_c 98" "\<not> is_digit_c 99" "is_digit_c 50" "is_digit_c 48" "\<not> is_digit_c 117"
    by (simp_all add: is_digit_unat)
  have "hrp_amount (inv_hrp example_invoice) = cs ''20u''"
    by (simp add: hrp_amount_def hrp_prefix_def example_invoice_def d)
  then show ?thesis
    by (simp add: decode_amount_def multipliers_def strtoull_def d MSAT_PER_BTC_def MSAT_PER_SAT_def SAT_PER_BTC_def dec_value_def
        example_env_def amount_msat_def)
qed

lemma example_invoice_ok: "invoice_ok example_invoice (Some (AMOUNT_MSAT 2000000))"
proof -
  have d: "\<not> is_digit_c 108" "\<not> is_digit_c 110" "\<not> is_digit_c 98" "\<not> is_digit_c 99" "is_digit_c 50"
    by (simp_all add: is_digit_unat)
  have "hrp_ok (inv_hrp example_invoice)"
    by (simp add: hrp_ok_def example_invoice_def hrp_char_def is_upper_c_iff)
  moreover have "strstarts (hrp_prefix (inv_hrp example_invoice)) (cs ''ln'')"
    by (simp add: hrp_prefix_def example_invoice_def d strstarts_def)
  moreover have "fields_ok (inv_fields example_invoice) (invoice_state example_invoice (Some (AMOUNT_MSAT 2000000)))"
    using example_used padding_ok_zeros [of 52]
    by (simp add: example_invoice_def example_type field_ok_def invoice_state_def groups_ok_replicate take_bit_eq_mod)
  moreover have "0x70 \<in> snd (spec_fields (inv_fields example_invoice) (invoice_state example_invoice (Some (AMOUNT_MSAT 2000000))))"
    by (simp add: example_spec invoice_state_def)
  ultimately show ?thesis unfolding invoice_ok_def
    by (simp add: example_invoice_def invoice_data_def encode_field_pair groups_ok_replicate take_bit_eq_mod)
qed

text \<open>A decoder at the start of the fields.\<close>

definition example_decoder :: "u5 list \<Rightarrow> decoder" where
  "example_decoder gs = \<lparr>dec_b11 = new_bolt11, dec_hu5 = \<lparr>hu5_buf = 0, hu5_num_bits = 0, hu5_hash = sha256_init\<rparr>, data_left = gs,
     have_p = False, have_d = False, have_h = False, have_n = False, have_x = False, have_c = False, have_m = False\<rparr>"

lemma example_decoder_simps [simp]:
  "data_left (example_decoder gs) = gs" "\<not> have_p (example_decoder gs)" "\<not> have_x (example_decoder gs)" "\<not> have_c (example_decoder gs)"
  by (simp_all add: example_decoder_def)

lemma example_decoder_ok: "groups_ok 5 gs \<Longrightarrow> length gs < 2 ^ 50 \<Longrightarrow> decoder_ok (example_decoder gs)"
proof -
  assume g: "groups_ok 5 gs" "length gs < 2 ^ 50"
  obtain h where h: "hash_u5_init (env_platform example_env) 0 [] = Done h" "packs h [] []" using hash_u5_init_packs by blast
  then have "packs \<lparr>hu5_buf = 0, hu5_num_bits = 0, hu5_hash = sha256_init\<rparr> [] []"
    using sha.holds_start by (auto simp: packs_def sha256_init_def intro!: exI [of _ "[]"])
  then have "hash_ok (dec_hu5 (example_decoder gs)) (length gs)"
    unfolding hash_ok_def by (intro exI [of _ "[]"]) (use g in \<open>simp add: example_decoder_def\<close>)
  then show ?thesis using g by (simp add: decoder_ok_def)
qed

lemma bolt11_decode_invoice_witness:
  "bolt11_decode example_env (cs ''lightning:'' @ invoice_string example_invoice) =
     Done (Inr (fst (spec_fields (inv_fields example_invoice) (invoice_state example_invoice (Some (AMOUNT_MSAT 2000000))))))"
  by (rule bolt11_decode_invoice [OF example_invoice_ok example_amount]) (simp_all add: example_env_def)

lemma bolt11_signature_assertion_witness:
  "length (inv_signature example_invoice) \<le> 104 \<and> bolt11_decode example_env (invoice_string example_invoice) =
     Done (if length (inv_signature example_invoice) = 104
       then Inr (fst (spec_fields (inv_fields example_invoice) (invoice_state example_invoice (Some (AMOUNT_MSAT 2000000)))))
       else Inl Signature_truncated)"
proof (rule bolt11_signature_assertion)
  show "bolt11_decode_nosig example_env (invoice_string example_invoice) =
      Done (Inr (fst (spec_fields (inv_fields example_invoice) (invoice_state example_invoice (Some (AMOUNT_MSAT 2000000)))), inv_signature example_invoice))"
    by (rule nosig_valid [OF example_invoice_ok example_amount]) (simp_all add: example_env_def)
qed

lemma unknown_field_overflow_witness:
  "unknown_field example_env 0x7a 2 (example_decoder (replicate 2 0)) = Undefined"
proof -
  have "decoder_ok (example_decoder (replicate 2 0))" by (simp add: example_decoder_ok groups_ok_replicate take_bit_eq_mod)
  then show ?thesis using unknown_field_overflow [where d = "example_decoder (replicate 2 0)" and len = 2] by simp
qed

lemma byte_field_padding_abort_witness:
  "decode_p example_env 52 (example_decoder (replicate 51 0 @ [1])) = Abort"
proof -
  have g: "groups_ok 5 (replicate 51 0 @ [1])" by (simp add: groups_ok_replicate take_bit_eq_mod)
  have "group_bits 5 (replicate 51 0 @ [1]) = replicate 255 False @ [False, False, False, False, True]"
    by (simp add: group_bits_zeros msb_bits_def upt_rec)
  then have "\<not> padding_ok (replicate 51 0 @ [1])" using g by (simp add: padding_ok_iff)
  then show ?thesis
    using byte_field_padding_abort [of decode_p have_p "Some 52" "example_decoder (replicate 51 0 @ [1])" 52 example_env] g
    by (simp add: byte_fields_def example_decoder_ok)
qed

lemma empty_integer_field_undefined_witness:
  "decode_x example_env 0 (example_decoder []) = Undefined \<and> decode_c example_env 0 (example_decoder []) = Undefined"
  by (rule empty_integer_field_undefined) (simp_all add: example_decoder_ok)

lemma decode_amount_wraps_witness:
  "decode_amount example_env (cs ''25'' @ [0x75]) = Inr (Some (AMOUNT_MSAT 2500000)) \<and>
   decode_amount example_env (cs ''184467441'' @ []) = Inr (Some (AMOUNT_MSAT 26290448384))"
proof -
  have d: "digits (cs ''25'')" "digits (cs ''184467441'')"
    by (simp_all add: digits_def is_digit_unat)
  show ?thesis
    using decode_amount_wraps [OF d(1), of "[0x75]" "10 ^ 6" example_env] decode_amount_wraps [OF d(2), of "[]" "10 ^ 12" example_env]
    by (simp add: amount_factors_def dec_value_def)
qed

end
