(* ===== verification/Damus.thy ===== *)
theory Damus
  imports Amount
begin

text \<open>
  \<open>damus.c\<close>: splitting the content of a note into text, mentions, hashtags, links and
  invoices.  A cursor is the content and the offset of \<open>p\<close>; \<open>start\<close> is offset 0 and
  \<open>end\<close> the length of the content.  The pointers of a \<open>str_block\<close> are offsets.  The
  array of a \<open>struct blocks\<close> has \<open>MAX_BLOCKS\<close> entries, \<open>None\<close> where nothing was
  stored yet.  \<open>bolt11_decode\<close> is the argument \<open>decode\<close>.
\<close>

section \<open>The cursor\<close>

record cursor =
  content :: cstr
  pos :: nat

definition at_end :: "cursor \<Rightarrow> bool" where
  "at_end cur \<longleftrightarrow> pos cur \<ge> length (content cur)"

definition advance :: "nat \<Rightarrow> cursor \<Rightarrow> cursor" where
  "advance n cur = cur\<lparr>pos := pos cur + n\<rparr>"

definition is_whitespace :: "u8 \<Rightarrow> bool" where
  "is_whitespace c \<longleftrightarrow> c = 32 \<or> c = 9 \<or> c = 10 \<or> c = 11 \<or> c = 12 \<or> c = 13"

definition make_cursor :: "cstr \<Rightarrow> cursor" where
  "make_cursor s = \<lparr>content = s, pos = 0\<rparr>"

function consume_until_whitespace :: "cursor \<Rightarrow> bool \<Rightarrow> bool \<times> cursor" where
  "consume_until_whitespace cur or_end =
     (if at_end cur then (or_end, cur)
      else if is_whitespace (content cur ! pos cur) then (True, cur)
      else consume_until_whitespace (advance 1 cur) or_end)"
  by pat_completeness auto
termination by (relation "measure (\<lambda>(cur, or_end). length (content cur) - pos cur)") (auto simp: at_end_def advance_def)

declare consume_until_whitespace.simps [simp del]

definition parse_char :: "cursor \<Rightarrow> u8 \<Rightarrow> bool \<times> cursor" where
  "parse_char cur c =
     (if at_end cur then (False, cur)
      else if content cur ! pos cur = c then (True, advance 1 cur)
      else (False, cur))"

definition peek_char :: "cursor \<Rightarrow> int \<Rightarrow> int" where
  "peek_char cur ind =
     (if int (pos cur) + ind < 0 \<or> int (pos cur) + ind \<ge> int (length (content cur)) then -1
      else uint (content cur ! nat (int (pos cur) + ind)))"

definition parse_digit :: "cursor \<Rightarrow> int option \<times> cursor" where
  "parse_digit cur =
     (let c = peek_char cur 0 in
      if c = -1 then (None, cur)
      else let c = c - 48 in if 0 \<le> c \<and> c \<le> 9 then (Some c, advance 1 cur) else (None, cur))"

fun same_chars :: "cstr \<Rightarrow> nat \<Rightarrow> cstr \<Rightarrow> bool" where
  "same_chars s i [] = True"
| "same_chars s i (c # str) = (if tolower_c (s ! i) \<noteq> tolower_c c then False else same_chars s (Suc i) str)"

definition parse_str :: "cursor \<Rightarrow> cstr \<Rightarrow> bool \<times> cursor" where
  "parse_str cur str =
     (if pos cur + length str \<ge> length (content cur) then (False, cur)
      else if same_chars (content cur) (pos cur) str then (True, advance (length str) cur)
      else (False, cur))"

section \<open>Blocks\<close>

record str_block =
  str_start :: nat
  str_end :: nat

datatype 'b block =
    BLOCK_HASHTAG str_block
  | BLOCK_TEXT str_block
  | BLOCK_MENTION int
  | BLOCK_URL str_block
  | BLOCK_INVOICE str_block 'b

definition MAX_BLOCKS :: nat where "MAX_BLOCKS = 1024"

record 'b blocks =
  num_blocks :: nat
  block_array :: "'b block option list"

definition blocks_init :: "'b blocks" where
  "blocks_init = \<lparr>num_blocks = 0, block_array = replicate MAX_BLOCKS None\<rparr>"

definition blocks_free :: "'b blocks \<Rightarrow> 'b blocks" where
  "blocks_free bs = bs\<lparr>num_blocks := 0, block_array := []\<rparr>"

definition add_block :: "'b blocks \<Rightarrow> 'b block \<Rightarrow> (bool \<times> 'b blocks) outcome" where
  "add_block bs b =
     (if num_blocks bs + 1 \<ge> MAX_BLOCKS then Done (False, bs)
      else if num_blocks bs \<ge> length (block_array bs) then Undefined
      else Done (True, bs\<lparr>num_blocks := num_blocks bs + 1, block_array := (block_array bs)[num_blocks bs := Some b]\<rparr>))"

definition add_text_block :: "'b blocks \<Rightarrow> nat \<Rightarrow> nat \<Rightarrow> (bool \<times> 'b blocks) outcome" where
  "add_text_block bs s e =
     (if s = e then Done (True, bs) else add_block bs (BLOCK_TEXT \<lparr>str_start = s, str_end = e\<rparr>))"

section \<open>Parsers of one block\<close>

text \<open>Reading \<open>d2\<close> before it was stored is undefined.\<close>

definition parse_mention :: "cursor \<Rightarrow> ('b block option \<times> cursor) outcome" where
  "parse_mention cur =
     (let start = pos cur;
          (ok, cur) = parse_str cur (cs ''#['')
      in if \<not> ok then Done (None, cur)
         else let (d1, cur) = parse_digit cur in
         case d1 of None \<Rightarrow> Done (None, cur\<lparr>pos := start\<rparr>)
         | Some d1 \<Rightarrow>
           let ind = d1;
               (d2, cur) = parse_digit cur;
               ind = (case d2 of None \<Rightarrow> ind | Some d2 \<Rightarrow> d1 * 10 + d2);
               (d3, cur) = parse_digit cur
           in bind_outcome
             (case d3 of None \<Rightarrow> Done ind
              | Some d3 \<Rightarrow> (case d2 of None \<Rightarrow> Undefined | Some d2 \<Rightarrow> Done (d1 * 100 + d2 * 10 + d3)))
             (\<lambda>ind. let (ok, cur) = parse_char cur 93 in
               if \<not> ok then Done (None, cur\<lparr>pos := start\<rparr>)
               else Done (Some (BLOCK_MENTION ind), cur)))"

definition parse_hashtag :: "cursor \<Rightarrow> ('b block option \<times> cursor) outcome" where
  "parse_hashtag cur =
     (let start = pos cur;
          (ok, cur) = parse_char cur 35
      in if \<not> ok then Done (None, cur)
         else let c = peek_char cur 0 in
         if c = -1 \<or> is_whitespace (word_of_int c) \<or> c = 35 then Done (None, cur\<lparr>pos := start\<rparr>)
         else let (_, cur) = consume_until_whitespace cur True in
           Done (Some (BLOCK_HASHTAG \<lparr>str_start = start + 1, str_end = pos cur\<rparr>), cur))"

definition parse_url :: "cursor \<Rightarrow> ('b block option \<times> cursor) outcome" where
  "parse_url cur =
     (let start = pos cur;
          (ok, cur) = parse_str cur (cs ''http'')
      in if \<not> ok then Done (None, cur)
         else let (s, cur) = parse_char cur 115;
                  (s, cur) = (if s then (s, cur) else parse_char cur 83);
                  (ok, cur) = parse_str cur (cs ''://'')
         in if \<not> ok then Done (None, cur\<lparr>pos := start\<rparr>)
         else let (ok, cur) = consume_until_whitespace cur True in
           if \<not> ok then Done (None, cur\<lparr>pos := start\<rparr>)
           else Done (Some (BLOCK_URL \<lparr>str_start = start, str_end = pos cur\<rparr>), cur))"

definition parse_invoice :: "(cstr \<Rightarrow> 'b option outcome) \<Rightarrow> cursor \<Rightarrow> ('b block option \<times> cursor) outcome" where
  "parse_invoice decode cur =
     (let (_, cur) = parse_str cur (cs ''lightning:'');
          start = pos cur;
          (ok, cur) = parse_str cur (cs ''lnbc'')
      in if \<not> ok then Done (None, cur)
         else let (ok, cur) = consume_until_whitespace cur True in
         if \<not> ok then Done (None, cur\<lparr>pos := start\<rparr>)
         else let end = pos cur in
           bind_outcome (decode (take (end - start) (drop start (content cur)))) (\<lambda>bolt11.
             case bolt11 of None \<Rightarrow> Done (None, cur\<lparr>pos := start\<rparr>)
             | Some bolt11 \<Rightarrow> Done (Some (BLOCK_INVOICE \<lparr>str_start = start, str_end = end\<rparr> bolt11),
                 cur\<lparr>pos := pos cur + (end - start)\<rparr>)))"

section \<open>The content of a note\<close>

text \<open>The result of \<open>add_text_then_block\<close> is its flag, the blocks and the new \<open>start\<close>.\<close>

definition add_text_then_block :: "cursor \<Rightarrow> 'b blocks \<Rightarrow> 'b block \<Rightarrow> nat \<Rightarrow> nat \<Rightarrow> (bool \<times> 'b blocks \<times> nat) outcome" where
  "add_text_then_block cur bs b start pre_mention =
     bind_outcome (add_text_block bs start pre_mention) (\<lambda>(ok, bs).
       if \<not> ok then Done (False, bs, start)
       else bind_outcome (add_block bs b) (\<lambda>(ok, bs). Done (ok, bs, pos cur)))"

definition parse_mention_or_hashtag :: "cursor \<Rightarrow> ('b block option \<times> cursor) outcome" where
  "parse_mention_or_hashtag cur =
     bind_outcome (parse_mention cur) (\<lambda>(b, cur). if b \<noteq> None then Done (b, cur) else parse_hashtag cur)"

text \<open>The chain of conditions of the loop: the first parser that applies and succeeds.\<close>

definition parse_block :: "(cstr \<Rightarrow> 'b option outcome) \<Rightarrow> cursor \<Rightarrow> ('b block option \<times> cursor) outcome" where
  "parse_block decode cur =
     (let cp = peek_char cur (-1); c = peek_char cur 0 in
      if cp = -1 \<or> is_whitespace (word_of_int cp) then
        if c = 35 then parse_mention_or_hashtag cur
        else if c = 104 \<or> c = 72 then parse_url cur
        else if c = 108 \<or> c = 76 then parse_invoice decode cur
        else Done (None, cur)
      else Done (None, cur))"

section \<open>What the parsers do to the cursor\<close>

lemma cursor_simps [simp]:
  "content (advance n cur) = content cur" "pos (advance n cur) = pos cur + n"
  by (simp_all add: advance_def)

lemma parse_char_cursor:
  "parse_char cur c = (ok, cur') \<Longrightarrow> content cur' = content cur \<and> pos cur' = pos cur + (if ok then 1 else 0)"
  by (auto simp: parse_char_def split: if_splits)

lemma parse_digit_cursor:
  "parse_digit cur = (d, cur') \<Longrightarrow> content cur' = content cur \<and> pos cur' = pos cur + (if d = None then 0 else 1)"
  by (auto simp: parse_digit_def Let_def split: if_splits)

lemma parse_str_cursor:
  "parse_str cur str = (ok, cur') \<Longrightarrow> content cur' = content cur \<and> pos cur' = pos cur + (if ok then length str else 0)"
  by (auto simp: parse_str_def split: if_splits)

definition word_end :: "cstr \<Rightarrow> nat \<Rightarrow> nat" where
  "word_end s i = i + length (takeWhile (\<lambda>c. \<not> is_whitespace c) (drop i s))"

lemma consume_eq:
  "consume_until_whitespace cur True = (True, cur\<lparr>pos := word_end (content cur) (pos cur)\<rparr>)"
proof (induction cur "True" rule: consume_until_whitespace.induct)
  case (1 cur)
  show ?case
  proof (cases "at_end cur \<or> is_whitespace (content cur ! pos cur)")
    case True
    then have "takeWhile (\<lambda>c. \<not> is_whitespace c) (drop (pos cur) (content cur)) = []"
      by (cases "at_end cur") (auto simp: at_end_def Cons_nth_drop_Suc [symmetric])
    then show ?thesis using True by (auto simp: consume_until_whitespace.simps [of cur] word_end_def)
  next
    case False
    then have "drop (pos cur) (content cur) = content cur ! pos cur # drop (Suc (pos cur)) (content cur)"
      by (simp add: at_end_def Cons_nth_drop_Suc)
    then have "word_end (content cur) (pos cur) = word_end (content cur) (Suc (pos cur))"
      using False by (simp add: word_end_def)
    then show ?thesis using False 1 by (simp add: consume_until_whitespace.simps [of cur] advance_def)
  qed
qed

lemma word_end_ge: "i \<le> word_end s i"
  by (simp add: word_end_def)

lemma word_end_gt: "i < k \<Longrightarrow> i < word_end s k"
  using word_end_ge [of k s] by linarith

text \<open>The contract of a parser that the main loop relies on: the content stays, success advances
  the cursor, failure does not move it back; some parsers also restore it on failure.\<close>

locale cursor_parser =
  fixes parse :: "cursor \<Rightarrow> ('b block option \<times> cursor) outcome"
  assumes content_kept: "parse cur = Done (b, cur') \<Longrightarrow> content cur' = content cur"
    and success_advances: "parse cur = Done (Some x, cur') \<Longrightarrow> pos cur < pos cur'"
    and failure_forward: "parse cur = Done (None, cur') \<Longrightarrow> pos cur \<le> pos cur'"

locale restoring_parser = cursor_parser +
  assumes failure_restores: "parse cur = Done (None, cur') \<Longrightarrow> cur' = cur"
begin

text \<open>Trying another parser after a restoring one starts at the same place.\<close>

lemma alternative:
  assumes "cursor_parser q"
  shows "cursor_parser (\<lambda>cur. bind_outcome (parse cur) (\<lambda>(b, cur). if b \<noteq> None then Done (b, cur) else q cur))"
  by unfold_locales
    (auto simp: bind_outcome_Done_iff split: if_splits
      dest: content_kept success_advances failure_restores
        cursor_parser.content_kept [OF assms] cursor_parser.success_advances [OF assms] cursor_parser.failure_forward [OF assms])

end

lemma cursor_eqI: "content c = content d \<Longrightarrow> pos c = pos d \<Longrightarrow> c = (d :: cursor)"
  by simp

lemma parse_mention_cursor:
  "parse_mention cur = Done (b, cur') \<Longrightarrow> content cur' = content cur \<and> (if b = None then pos cur' = pos cur else pos cur < pos cur')"
  by (auto simp: parse_mention_def Let_def bind_outcome_Done_iff split: if_splits option.splits prod.splits
      dest!: parse_str_cursor parse_digit_cursor parse_char_cursor)

lemma parse_hashtag_cursor:
  "parse_hashtag cur = Done (b, cur') \<Longrightarrow> content cur' = content cur \<and> (if b = None then pos cur' = pos cur else pos cur < pos cur')"
  using word_end_ge [of "Suc (pos cur)" "content cur"]
  by (auto simp: parse_hashtag_def Let_def consume_eq split: if_splits prod.splits dest!: parse_char_cursor)

lemma parse_url_cursor:
  "parse_url cur = Done (b, cur') \<Longrightarrow> content cur' = content cur \<and> (if b = None then pos cur' = pos cur else pos cur < pos cur')"
  by (auto simp: parse_url_def Let_def consume_eq split: if_splits prod.splits dest!: parse_char_cursor parse_str_cursor
      intro!: word_end_gt)

lemma parse_invoice_cursor:
  "parse_invoice decode cur = Done (b, cur') \<Longrightarrow> content cur' = content cur \<and> (if b = None then pos cur \<le> pos cur' else pos cur < pos cur')"
  by (auto simp: parse_invoice_def Let_def consume_eq bind_outcome_Done_iff split: if_splits prod.splits option.splits
      dest!: parse_str_cursor intro!: trans_less_add1 word_end_gt)

interpretation mention: restoring_parser parse_mention
  by unfold_locales (auto dest: parse_mention_cursor)

interpretation hashtag: restoring_parser parse_hashtag
  by unfold_locales (auto dest: parse_hashtag_cursor)

interpretation url: restoring_parser parse_url
  by unfold_locales (auto dest: parse_url_cursor)

interpretation invoice: cursor_parser "parse_invoice decode" for decode
  by unfold_locales (auto dest: parse_invoice_cursor)

interpretation mention_or_hashtag: cursor_parser parse_mention_or_hashtag
  unfolding parse_mention_or_hashtag_def [abs_def]
  by (rule mention.alternative [OF hashtag.cursor_parser_axioms])

interpretation block: cursor_parser "parse_block decode" for decode
  by unfold_locales
    (auto simp: parse_block_def Let_def split: if_splits
      dest: mention_or_hashtag.content_kept mention_or_hashtag.success_advances mention_or_hashtag.failure_forward
        url.content_kept url.success_advances url.failure_forward
        invoice.content_kept invoice.success_advances invoice.failure_forward)

lemma parse_block_cursor:
  "parse_block decode cur = Done (b, cur') \<Longrightarrow> content cur' = content cur \<and> (if b = None then pos cur \<le> pos cur' else pos cur < pos cur')"
  by (cases b) (auto dest: block.content_kept block.success_advances block.failure_forward)

section \<open>The main loop\<close>

text \<open>One iteration of the \<open>while\<close> loop, and the text block behind it.  Every iteration
  advances the cursor.\<close>

function damus_parse_loop :: "(cstr \<Rightarrow> 'b option outcome) \<Rightarrow> cursor \<Rightarrow> 'b blocks \<Rightarrow> nat \<Rightarrow> (bool \<times> 'b blocks) outcome" where
  "damus_parse_loop decode cur bs start =
     (if \<not> at_end cur \<and> num_blocks bs < MAX_BLOCKS then
        let pre_mention = pos cur in
        bind_outcome (parse_block decode cur) (\<lambda>(b, cur).
          case b of
            Some b \<Rightarrow> bind_outcome (add_text_then_block cur bs b start pre_mention) (\<lambda>(ok, bs, start).
              if \<not> ok then Done (False, bs) else damus_parse_loop decode cur bs start)
          | None \<Rightarrow> damus_parse_loop decode (advance 1 cur) bs start)
      else if int (pos cur) - int start > 0 then add_text_block bs start (pos cur)
      else Done (True, bs))"
  by pat_completeness auto
termination
proof (relation "measure (\<lambda>(decode, cur, bs, start). length (content cur) - pos cur)")
  show "wf (measure (\<lambda>(decode, cur, bs, start). length (content cur) - pos cur))" by simp
qed (auto simp: at_end_def dest!: parse_block_cursor)

definition damus_parse_content :: "(cstr \<Rightarrow> 'b option outcome) \<Rightarrow> 'b blocks \<Rightarrow> cstr \<Rightarrow> (bool \<times> 'b blocks) outcome" where
  "damus_parse_content decode bs s = damus_parse_loop decode (make_cursor s) (bs\<lparr>num_blocks := 0\<rparr>) 0"

declare damus_parse_loop.simps [simp del]

section \<open>The specification\<close>

text \<open>What stands at an offset of the content, and where it ends.\<close>

definition matches_at :: "cstr \<Rightarrow> nat \<Rightarrow> cstr \<Rightarrow> bool" where
  "matches_at s i str \<longleftrightarrow> i + length str < length s \<and> map tolower_c (take (length str) (drop i s)) = map tolower_c str"

definition boundary :: "cstr \<Rightarrow> nat \<Rightarrow> bool" where
  "boundary s i \<longleftrightarrow> i = 0 \<or> is_whitespace (s ! (i - 1))"

definition mention_at :: "cstr \<Rightarrow> nat \<Rightarrow> (nat \<times> nat) option" where
  "mention_at s i =
     (let ds = takeWhile is_digit_c (drop (i + 2) s); j = i + 2 + length ds in
      if matches_at s i (cs ''#['') \<and> ds \<noteq> [] \<and> length ds \<le> 3 \<and> j < length s \<and> s ! j = 93
      then Some (dec_value ds, j + 1) else None)"

definition hashtag_at :: "cstr \<Rightarrow> nat \<Rightarrow> nat option" where
  "hashtag_at s i =
     (if i + 1 < length s \<and> s ! i = 35 \<and> \<not> is_whitespace (s ! (i + 1)) \<and> s ! (i + 1) \<noteq> 35
      then Some (word_end s (i + 1)) else None)"

definition url_at :: "cstr \<Rightarrow> nat \<Rightarrow> nat option" where
  "url_at s i = (if matches_at s i (cs ''http://'') \<or> matches_at s i (cs ''https://'') then Some (word_end s i) else None)"

definition invoice_start :: "cstr \<Rightarrow> nat \<Rightarrow> nat" where
  "invoice_start s i = (if matches_at s i (cs ''lightning:'') then i + 10 else i)"

text \<open>Behind an invoice the cursor stands as far beyond its end as the invoice is long.\<close>

definition invoice_at :: "(cstr \<Rightarrow> 'b option outcome) \<Rightarrow> cstr \<Rightarrow> nat \<Rightarrow> ('b block \<times> nat) option outcome" where
  "invoice_at decode s i =
     (let st = invoice_start s i; en = word_end s st in
      if matches_at s st (cs ''lnbc'') then
        bind_outcome (decode (take (en - st) (drop st s))) (\<lambda>r.
          Done (map_option (\<lambda>b. (BLOCK_INVOICE \<lparr>str_start = st, str_end = en\<rparr> b, en + (en - st))) r))
      else Done None)"

definition entity_at :: "(cstr \<Rightarrow> 'b option outcome) \<Rightarrow> cstr \<Rightarrow> nat \<Rightarrow> ('b block \<times> nat) option outcome" where
  "entity_at decode s i =
     (if \<not> boundary s i then Done None else
      case mention_at s i of Some (n, j) \<Rightarrow> Done (Some (BLOCK_MENTION (int n), j)) | None \<Rightarrow>
      case hashtag_at s i of Some j \<Rightarrow> Done (Some (BLOCK_HASHTAG \<lparr>str_start = i + 1, str_end = j\<rparr>, j)) | None \<Rightarrow>
      case url_at s i of Some j \<Rightarrow> Done (Some (BLOCK_URL \<lparr>str_start = i, str_end = j\<rparr>, j)) | None \<Rightarrow>
      invoice_at decode s i)"

lemma word_end_bounds: "i \<le> length s \<Longrightarrow> word_end s i \<le> length s"
  using length_takeWhile_le [of "\<lambda>c. \<not> is_whitespace c" "drop i s"] by (simp add: word_end_def)

lemma word_end_skip:
  assumes "\<forall>c\<in>set (take k (drop i s)). \<not> is_whitespace c" and "i + k \<le> length s"
  shows "word_end s (i + k) = word_end s i"
proof -
  have "drop i s = take k (drop i s) @ drop (i + k) s"
    by (metis append_take_drop_id drop_drop add.commute)
  moreover have "takeWhile (\<lambda>c. \<not> is_whitespace c) (take k (drop i s) @ drop (i + k) s) =
      take k (drop i s) @ takeWhile (\<lambda>c. \<not> is_whitespace c) (drop (i + k) s)"
    by (rule takeWhile_append2) (use assms(1) in blast)
  ultimately have "length (takeWhile (\<lambda>c. \<not> is_whitespace c) (drop i s)) =
      length (take k (drop i s) @ takeWhile (\<lambda>c. \<not> is_whitespace c) (drop (i + k) s))"
    by metis
  then show ?thesis using assms(2) by (simp add: word_end_def)
qed

lemma same_chars_iff:
  "i + length str \<le> length s \<Longrightarrow> same_chars s i str \<longleftrightarrow> map tolower_c (take (length str) (drop i s)) = map tolower_c str"
proof (induction s i str rule: same_chars.induct)
  case (2 s i c str)
  then have "drop i s = s ! i # drop (Suc i) s" by (simp add: Cons_nth_drop_Suc)
  then show ?case using 2 by simp
qed simp

lemma parse_str_eq:
  "parse_str \<lparr>content = s, pos = i\<rparr> str =
     (if matches_at s i str then (True, \<lparr>content = s, pos = i + length str\<rparr>) else (False, \<lparr>content = s, pos = i\<rparr>))"
  by (auto simp: parse_str_def matches_at_def same_chars_iff advance_def)

lemma parse_char_eq:
  "parse_char \<lparr>content = s, pos = i\<rparr> c =
     (if i < length s \<and> s ! i = c then (True, \<lparr>content = s, pos = Suc i\<rparr>) else (False, \<lparr>content = s, pos = i\<rparr>))"
  by (auto simp: parse_char_def at_end_def advance_def)

lemma peek_char_0: "peek_char \<lparr>content = s, pos = i\<rparr> 0 = (if i < length s then uint (s ! i) else -1)"
  by (simp add: peek_char_def)

lemma digit_uint: "0 \<le> uint c - 48 \<and> uint c - 48 \<le> 9 \<longleftrightarrow> is_digit_c c" "is_digit_c c \<Longrightarrow> int (unat c - 48) = uint c - 48"
proof -
  have u: "uint c = int (unat c)" by simp
  show "0 \<le> uint c - 48 \<and> uint c - 48 \<le> 9 \<longleftrightarrow> is_digit_c c" unfolding u is_digit_unat by linarith
  show "int (unat c - 48) = uint c - 48" if "is_digit_c c" using that unfolding u is_digit_unat by linarith
qed

lemma parse_digit_eq:
  "parse_digit \<lparr>content = s, pos = i\<rparr> =
     (if i < length s \<and> is_digit_c (s ! i) then (Some (int (unat (s ! i) - 48)), \<lparr>content = s, pos = Suc i\<rparr>)
      else (None, \<lparr>content = s, pos = i\<rparr>))"
proof -
  have "uint (s ! i) \<noteq> -1" using unsigned_greater_eq [of "s ! i", where 'a = int] by linarith
  then show ?thesis
    unfolding parse_digit_def peek_char_0 Let_def by (simp only: digit_uint if_cancel split: if_split) (simp add: digit_uint advance_def)
qed

lemma takeWhile_drop:
  "takeWhile P (drop i s) = (if i < length s \<and> P (s ! i) then s ! i # takeWhile P (drop (Suc i) s) else [])"
  by (cases "i < length s") (auto simp: Cons_nth_drop_Suc [symmetric])

lemma parse_mention_eq:
  "parse_mention \<lparr>content = s, pos = i\<rparr> = Done (case mention_at s i of
     None \<Rightarrow> (None, \<lparr>content = s, pos = i\<rparr>)
   | Some (n, j) \<Rightarrow> (Some (BLOCK_MENTION (int n)), \<lparr>content = s, pos = j\<rparr>))"
proof (cases "matches_at s i (cs ''#['')")
  case True
  define p where "p = Suc (Suc i)"
  define d where "d k \<longleftrightarrow> k < length s \<and> is_digit_c (s ! k)" for k
  define ds where "ds = takeWhile is_digit_c (drop p s)"
  note tw = takeWhile_drop [of is_digit_c _ s, folded d_def]
  have not_93: "\<not> is_digit_c 93" by (simp add: is_digit_unat)
  have pd: "parse_digit \<lparr>content = s, pos = k\<rparr> = (if d k then (Some (int (unat (s ! k) - 48)), \<lparr>content = s, pos = Suc k\<rparr>)
      else (None, \<lparr>content = s, pos = k\<rparr>))" for k
    by (simp add: parse_digit_eq d_def)
  have m: "mention_at s i = (if ds \<noteq> [] \<and> length ds \<le> 3 \<and> p + length ds < length s \<and> s ! (p + length ds) = 93
      then Some (dec_value ds, Suc (p + length ds)) else None)"
    using True by (simp add: mention_at_def ds_def p_def Let_def)
  have c: "parse_mention \<lparr>content = s, pos = i\<rparr> =
     (if \<not> d p then Done (None, \<lparr>content = s, pos = i\<rparr>)
      else if \<not> d (Suc p) then
        (if Suc p < length s \<and> s ! Suc p = 93 then Done (Some (BLOCK_MENTION (int (unat (s ! p) - 48))), \<lparr>content = s, pos = Suc (Suc p)\<rparr>)
         else Done (None, \<lparr>content = s, pos = i\<rparr>))
      else if \<not> d (Suc (Suc p)) then
        (if Suc (Suc p) < length s \<and> s ! Suc (Suc p) = 93
         then Done (Some (BLOCK_MENTION (int (unat (s ! p) - 48) * 10 + int (unat (s ! Suc p) - 48))), \<lparr>content = s, pos = Suc (Suc (Suc p))\<rparr>)
         else Done (None, \<lparr>content = s, pos = i\<rparr>))
      else
        (if Suc (Suc (Suc p)) < length s \<and> s ! Suc (Suc (Suc p)) = 93
         then Done (Some (BLOCK_MENTION (int (unat (s ! p) - 48) * 100 + int (unat (s ! Suc p) - 48) * 10 + int (unat (s ! Suc (Suc p)) - 48))),
           \<lparr>content = s, pos = Suc (Suc (Suc (Suc p)))\<rparr>)
         else Done (None, \<lparr>content = s, pos = i\<rparr>)))"
    using True by (simp add: parse_mention_def parse_str_eq pd parse_char_eq p_def [symmetric] Let_def)
  consider "\<not> d p" | "d p" "\<not> d (Suc p)" | "d p" "d (Suc p)" "\<not> d (Suc (Suc p))"
    | "d p" "d (Suc p)" "d (Suc (Suc p))" "\<not> d (Suc (Suc (Suc p)))"
    | "d p" "d (Suc p)" "d (Suc (Suc p))" "d (Suc (Suc (Suc p)))" by blast
  then show ?thesis
  proof cases
    case 1
    then have "ds = []" by (simp add: ds_def tw)
    then show ?thesis using 1 unfolding m c by simp
  next
    case 2
    then have "ds = [s ! p]" by (simp add: ds_def tw)
    then show ?thesis using 2 unfolding m c by (simp add: dec_value_def)
  next
    case 3
    then have "ds = [s ! p, s ! Suc p]" by (simp add: ds_def tw)
    then show ?thesis using 3 unfolding m c by (simp add: dec_value_def)
  next
    case 4
    then have "ds = [s ! p, s ! Suc p, s ! Suc (Suc p)]" by (simp add: ds_def tw)
    then show ?thesis using 4 unfolding m c by (simp add: dec_value_def)
  next
    case 5
    then have "\<exists>r. ds = s ! p # s ! Suc p # s ! Suc (Suc p) # s ! Suc (Suc (Suc p)) # r" by (simp add: ds_def tw)
    moreover have "s ! Suc (Suc (Suc p)) \<noteq> 93" using 5(4) not_93 by (auto simp: d_def)
    ultimately show ?thesis using 5 unfolding m c by auto
  qed
qed (simp add: parse_mention_def mention_at_def parse_str_eq Let_def)

lemma parse_hashtag_eq:
  "parse_hashtag \<lparr>content = s, pos = i\<rparr> = Done (case hashtag_at s i of
     None \<Rightarrow> (None, \<lparr>content = s, pos = i\<rparr>)
   | Some j \<Rightarrow> (Some (BLOCK_HASHTAG \<lparr>str_start = i + 1, str_end = j\<rparr>), \<lparr>content = s, pos = j\<rparr>))"
proof -
  have "uint (s ! Suc i) \<noteq> -1" using unsigned_greater_eq [of "s ! Suc i", where 'a = int] by linarith
  moreover have "uint (s ! Suc i) = 35 \<longleftrightarrow> s ! Suc i = 35" by (simp add: word_uint_eq_iff)
  ultimately show ?thesis
    by (simp add: parse_hashtag_def hashtag_at_def parse_char_eq peek_char_0 consume_eq Let_def)
qed

lemma matches_at_append: "matches_at s i (a @ b) \<longleftrightarrow> matches_at s i a \<and> matches_at s (i + length a) b"
proof -
  have "take (length (a @ b)) (drop i s) = take (length a) (drop i s) @ take (length b) (drop (i + length a) s)"
    by (simp add: take_add add.commute)
  moreover have "length (take (length a) (drop i s)) = length a" if "i + length a < length s" using that by simp
  ultimately show ?thesis by (auto simp: matches_at_def)
qed

lemma matches_at_Cons: "matches_at s i (c # b) \<longleftrightarrow> tolower_c (s ! i) = tolower_c c \<and> matches_at s (Suc i) b"
proof (cases "i < length s")
  case True
  then show ?thesis by (auto simp: matches_at_def Cons_nth_drop_Suc [symmetric])
qed (simp add: matches_at_def)

lemma is_whitespace_tolower [simp]: "is_whitespace (tolower_c c) = is_whitespace c"
proof -
  have w: "is_whitespace x \<longleftrightarrow> unat x \<in> {32, 9, 10, 11, 12, 13}" for x
    by (simp add: is_whitespace_def word_unat_eq_iff)
  show ?thesis unfolding w unat_tolower_c by auto
qed

lemma matches_nth:
  assumes "matches_at s i str" and "k < length str"
  shows "tolower_c (s ! (i + k)) = tolower_c (str ! k)"
proof -
  have l: "i + length str < length s" and e: "map tolower_c (take (length str) (drop i s)) = map tolower_c str"
    using assms(1) by (simp_all add: matches_at_def)
  show ?thesis using arg_cong [OF e, of "\<lambda>l. l ! k"] l assms(2) by simp
qed

lemma matches_no_space:
  assumes "matches_at s i str" and "\<forall>c\<in>set str. \<not> is_whitespace c" and "k < length str"
  shows "\<not> is_whitespace (s ! (i + k))"
proof -
  have "\<not> is_whitespace (tolower_c (s ! (i + k)))"
    unfolding matches_nth [OF assms(1,3)] is_whitespace_tolower using assms(2,3) by simp
  then show ?thesis by simp
qed

lemma matches_word_end:
  assumes "matches_at s i str" and "\<forall>c\<in>set str. \<not> is_whitespace c"
  shows "word_end s (i + length str) = word_end s i"
proof (rule word_end_skip)
  show "\<forall>c\<in>set (take (length str) (drop i s)). \<not> is_whitespace c"
    using matches_no_space [OF assms] assms(1) by (auto simp: in_set_conv_nth matches_at_def)
  show "i + length str \<le> length s" using assms(1) by (simp add: matches_at_def)
qed

lemma tolower_eq_iff: "tolower_c c = 115 \<longleftrightarrow> c = 115 \<or> c = 83" "tolower_c c = 58 \<longleftrightarrow> c = 58"
  unfolding word_unat_eq_iff unat_tolower_c by auto

lemma tolower_letters: "tolower_c 115 = 115" "tolower_c 58 = 58" "tolower_c 47 = 47"
  by (simp_all add: word_unat_eq_iff unat_tolower_c)

lemma parse_url_eq:
  "parse_url \<lparr>content = s, pos = i\<rparr> = Done (case url_at s i of
     None \<Rightarrow> (None, \<lparr>content = s, pos = i\<rparr>)
   | Some j \<Rightarrow> (Some (BLOCK_URL \<lparr>str_start = i, str_end = j\<rparr>), \<lparr>content = s, pos = j\<rparr>))"
proof (cases "matches_at s i (cs ''http'')")
  case True
  define k where "k = Suc (Suc (Suc (Suc i)))"
  have plain: "matches_at s i (cs ''http://'') \<longleftrightarrow> matches_at s k (cs ''://'')"
    using matches_at_append [of s i "cs ''http''" "cs ''://''"] True by (simp add: k_def)
  have secure: "matches_at s i (cs ''https://'') \<longleftrightarrow> (s ! k = 115 \<or> s ! k = 83) \<and> matches_at s (Suc k) (cs ''://'')"
    using matches_at_append [of s i "cs ''http''" "cs ''s://''"] True matches_at_Cons [of s k 115 "cs ''://''"]
    by (simp add: k_def tolower_eq_iff tolower_letters)
  have colon: "matches_at s j (cs ''://'') \<Longrightarrow> s ! j = 58 \<and> j < length s" for j
    using matches_at_Cons [of s j 58 "cs ''//''"] by (auto simp: tolower_eq_iff tolower_letters matches_at_def)
  have e1: "matches_at s k (cs ''://'') \<Longrightarrow> word_end s (Suc (Suc (Suc k))) = word_end s i"
    using matches_word_end [of s i "cs ''http://''"] plain by (simp add: is_whitespace_def k_def)
  have e2: "s ! k = 115 \<or> s ! k = 83 \<Longrightarrow> matches_at s (Suc k) (cs ''://'') \<Longrightarrow> word_end s (Suc (Suc (Suc (Suc k)))) = word_end s i"
    using matches_word_end [of s i "cs ''https://''"] secure by (simp add: is_whitespace_def k_def)
  define t where "t = cs ''://''"
  have lt: "length t = Suc (Suc (Suc 0))" by (simp add: t_def)
  have code: "parse_url \<lparr>content = s, pos = i\<rparr> =
     (let j = (if k < length s \<and> (s ! k = 115 \<or> s ! k = 83) then Suc k else k) in
      if matches_at s j t then Done (Some (BLOCK_URL \<lparr>str_start = i, str_end = word_end s (Suc (Suc (Suc j)))\<rparr>), \<lparr>content = s, pos = word_end s (Suc (Suc (Suc j)))\<rparr>)
      else Done (None, \<lparr>content = s, pos = i\<rparr>))"
    using True unfolding parse_url_def t_def [symmetric]
    by (auto simp: parse_str_eq parse_char_eq consume_eq k_def lt Let_def)
  show ?thesis
  proof (cases "s ! k = 115 \<or> s ! k = 83")
    case True
    have n: "\<not> matches_at s k t" using colon [of k] True by (auto simp: t_def)
    have "k < length s" if "matches_at s (Suc k) t" using that by (simp add: matches_at_def)
    then show ?thesis using True n e2 unfolding code url_at_def plain secure t_def [symmetric] by (auto simp: Let_def)
  next
    case False
    then show ?thesis using e1 unfolding code url_at_def plain secure t_def [symmetric] by (auto simp: Let_def)
  qed
next
  case False
  then show ?thesis
    using matches_at_append [of s i "cs ''http''" "cs ''://''"] matches_at_append [of s i "cs ''http''" "cs ''s://''"]
    by (simp add: parse_url_def url_at_def parse_str_eq)
qed

lemma parse_invoice_eq:
  "parse_invoice decode \<lparr>content = s, pos = i\<rparr> = bind_outcome (invoice_at decode s i) (\<lambda>r. Done (case r of
     None \<Rightarrow> (None, \<lparr>content = s, pos = invoice_start s i\<rparr>)
   | Some (b, j) \<Rightarrow> (Some b, \<lparr>content = s, pos = j\<rparr>)))"
proof -
  define lt l where "lt = cs ''lightning:''" and "l = cs ''lnbc''"
  have lens: "length lt = 10" "length l = 4" by (simp_all add: lt_def l_def)
  have "\<forall>c\<in>set l. \<not> is_whitespace c" by (simp add: l_def is_whitespace_def)
  then have e: "word_end s (j + 4) = word_end s j" if "matches_at s j l" for j
    using matches_word_end [OF that] lens by simp
  define st where "st = invoice_start s i"
  have "snd (parse_str \<lparr>content = s, pos = i\<rparr> lt) = \<lparr>content = s, pos = st\<rparr>"
    unfolding st_def invoice_start_def lt_def [symmetric] by (simp add: parse_str_eq lens)
  then have "parse_invoice decode \<lparr>content = s, pos = i\<rparr> =
     (if matches_at s st l
      then bind_outcome (decode (take (word_end s (st + 4) - st) (drop st s))) (\<lambda>r. Done (case r of
          None \<Rightarrow> (None, \<lparr>content = s, pos = st\<rparr>)
        | Some b \<Rightarrow> (Some (BLOCK_INVOICE \<lparr>str_start = st, str_end = word_end s (st + 4)\<rparr> b),
            \<lparr>content = s, pos = word_end s (st + 4) + (word_end s (st + 4) - st)\<rparr>)))
      else Done (None, \<lparr>content = s, pos = st\<rparr>))"
    unfolding parse_invoice_def lt_def [symmetric] l_def [symmetric]
    by (cases "parse_str \<lparr>content = s, pos = i\<rparr> lt")
      (simp add: parse_str_eq [of s st] consume_eq lens Let_def option.case_distrib [of Done] cong: option.case_cong)
  then show ?thesis
    unfolding invoice_at_def st_def [symmetric] l_def [symmetric]
    by (cases "decode (take (word_end s st - st) (drop st s))") (auto simp: e Let_def split: option.split)
qed

text \<open>Each block begins with its own character.\<close>

lemma tolower_first:
  "tolower_c c = 35 \<longleftrightarrow> c = 35" "tolower_c c = 104 \<longleftrightarrow> c = 104 \<or> c = 72" "tolower_c c = 108 \<longleftrightarrow> c = 108 \<or> c = 76"
  "tolower_c 35 = 35" "tolower_c 104 = 104" "tolower_c 108 = 108"
  unfolding word_unat_eq_iff unat_tolower_c by auto

lemma first_characters:
  "s ! i \<noteq> 35 \<Longrightarrow> mention_at s i = None"
  "s ! i \<noteq> 35 \<Longrightarrow> hashtag_at s i = None"
  "s ! i \<noteq> 104 \<Longrightarrow> s ! i \<noteq> 72 \<Longrightarrow> url_at s i = None"
  "s ! i \<noteq> 108 \<Longrightarrow> s ! i \<noteq> 76 \<Longrightarrow> invoice_start s i = i"
  "s ! i \<noteq> 108 \<Longrightarrow> s ! i \<noteq> 76 \<Longrightarrow> invoice_at decode s i = Done None"
  by (simp_all add: mention_at_def hashtag_at_def url_at_def invoice_start_def invoice_at_def matches_at_Cons tolower_first Let_def)

lemma uint_char_eq: "uint (c :: u8) = 35 \<longleftrightarrow> c = 35" "uint c = 104 \<longleftrightarrow> c = 104" "uint c = 72 \<longleftrightarrow> c = 72"
  "uint c = 108 \<longleftrightarrow> c = 108" "uint c = 76 \<longleftrightarrow> c = 76"
  by (simp_all add: word_uint_eq_iff)

lemma peek_boundary:
  assumes "i < length s"
  defines "cp \<equiv> peek_char \<lparr>content = s, pos = i\<rparr> (-1)"
  shows "cp = -1 \<or> is_whitespace (word_of_int cp) \<longleftrightarrow> boundary s i"
proof (cases "i = 0")
  case False
  have "uint (s ! (i - 1)) \<noteq> -1" using unsigned_greater_eq [of "s ! (i - 1)", where 'a = int] by linarith
  moreover have "cp = uint (s ! (i - 1))" using False assms(1) by (simp add: cp_def peek_char_def nat_diff_distrib)
  ultimately show ?thesis using False by (simp add: boundary_def)
qed (simp add: cp_def peek_char_def boundary_def)

lemma parse_block_eq:
  assumes "i < length s"
  shows "parse_block decode \<lparr>content = s, pos = i\<rparr> = bind_outcome (entity_at decode s i) (\<lambda>r. Done (case r of
     None \<Rightarrow> (None, \<lparr>content = s, pos = if boundary s i then invoice_start s i else i\<rparr>)
   | Some (b, j) \<Rightarrow> (Some b, \<lparr>content = s, pos = j\<rparr>)))"
proof (cases "boundary s i")
  case True
  define c where "c = s ! i"
  have code: "parse_block decode \<lparr>content = s, pos = i\<rparr> =
      (if c = 35 then parse_mention_or_hashtag \<lparr>content = s, pos = i\<rparr>
       else if c = 104 \<or> c = 72 then parse_url \<lparr>content = s, pos = i\<rparr>
       else if c = 108 \<or> c = 76 then parse_invoice decode \<lparr>content = s, pos = i\<rparr>
       else Done (None, \<lparr>content = s, pos = i\<rparr>))"
    unfolding parse_block_def Let_def peek_boundary [OF assms] using True assms
    by (simp add: peek_char_0 uint_char_eq c_def)
  note first = first_characters [where s = s and i = i, folded c_def] first_characters(5) [where s = s and i = i and decode = decode, folded c_def]
  consider "c = 35" | "c = 104 \<or> c = 72" | "c = 108 \<or> c = 76" | "c \<notin> {35, 104, 72, 108, 76}" by blast
  then show ?thesis
  proof cases
    case 1
    then show ?thesis using True first unfolding code
      by (auto simp: parse_mention_or_hashtag_def parse_mention_eq parse_hashtag_eq entity_at_def split: option.split)
  next
    case 2
    then show ?thesis using True first unfolding code
      by (auto simp: parse_url_eq entity_at_def split: option.split)
  next
    case 3
    then show ?thesis using True first unfolding code
      by (auto simp: parse_invoice_eq entity_at_def)
  next
    case 4
    then show ?thesis using True first unfolding code by (auto simp: entity_at_def)
  qed
next
  case False
  then show ?thesis using peek_boundary [OF assms] by (simp add: parse_block_def entity_at_def Let_def)
qed

text \<open>The offsets that a failed attempt at an invoice skips start no block.\<close>

lemma skipped_no_entity:
  assumes "i < k" and "k \<le> invoice_start s i"
  shows "entity_at decode s k = Done None"
proof -
  have m: "matches_at s i (cs ''lightning:'')" and k: "k \<le> i + 10"
    using assms by (auto simp: invoice_start_def simp del: cs_simps split: if_splits)
  have ns: "\<forall>c\<in>set (cs ''lightning:''). \<not> is_whitespace c" by (simp add: is_whitespace_def)
  have "\<not> is_whitespace (s ! (i + (k - 1 - i)))"
    by (rule matches_no_space [OF m ns]) (use assms k in simp)
  then have "\<not> boundary s k" using assms(1) by (simp add: boundary_def)
  then show ?thesis by (simp add: entity_at_def)
qed

lemma invoice_start_bound: "i < length s \<Longrightarrow> invoice_start s i < length s"
  by (auto simp: invoice_start_def matches_at_def simp del: cs_simps split: if_splits)

text \<open>A block ends behind its beginning.\<close>

lemma entity_at_progress:
  assumes "entity_at decode s i = Done (Some (b, j))"
  shows "i < j"
proof -
  have b: "boundary s i" using assms by (auto simp: entity_at_def split: if_splits)
  have u: "url_at s i = Some j \<Longrightarrow> i < j" for j
    using parse_url_cursor [of "\<lparr>content = s, pos = i\<rparr>", unfolded parse_url_eq] by auto
  have m: "mention_at s i = Some (n, j) \<Longrightarrow> i < j" for n j by (auto simp: mention_at_def Let_def split: if_splits)
  have h: "hashtag_at s i = Some j \<Longrightarrow> i < j" for j
    using word_end_ge [of "i + 1" s] by (auto simp: hashtag_at_def split: if_splits)
  have v: "invoice_at decode s i = Done (Some (b, j)) \<Longrightarrow> i < j"
    using parse_invoice_cursor [of decode "\<lparr>content = s, pos = i\<rparr>" "Some b" "\<lparr>content = s, pos = j\<rparr>"]
    by (simp add: parse_invoice_eq)
  show ?thesis using assms b m h u v by (auto simp: entity_at_def split: option.splits)
qed

text \<open>The blocks of a content, each with the range of the content it stands for: text from
  \<open>start\<close> up to the next block.\<close>

definition text_span :: "nat \<Rightarrow> nat \<Rightarrow> (nat \<times> nat \<times> 'b block) list" where
  "text_span start i = (if start < i then [(start, i, BLOCK_TEXT \<lparr>str_start = start, str_end = i\<rparr>)] else [])"

function segments :: "(cstr \<Rightarrow> 'b option outcome) \<Rightarrow> cstr \<Rightarrow> nat \<Rightarrow> nat \<Rightarrow> (nat \<times> nat \<times> 'b block) list outcome" where
  "segments decode s start i =
     (if i < length s then
        bind_outcome (entity_at decode s i) (\<lambda>r.
          case r of None \<Rightarrow> segments decode s start (Suc i)
          | Some (b, j) \<Rightarrow> bind_outcome (segments decode s j j) (\<lambda>rest. Done (text_span start i @ (i, j, b) # rest)))
      else Done (text_span start i))"
  by pat_completeness auto
termination
proof (relation "measure (\<lambda>(decode, s, start, i). length s - i)")
  show "wf (measure (\<lambda>(decode, s, start, i). length s - i))" by simp
qed (auto dest!: entity_at_progress)

declare segments.simps [simp del]

lemma segments_skip:
  assumes "\<forall>k. i \<le> k \<and> k < j \<longrightarrow> entity_at decode s k = Done None" and "i \<le> j" and "j \<le> length s"
  shows "segments decode s start i = segments decode s start j"
  using assms
proof (induction "j - i" arbitrary: i)
  case (Suc n)
  then have "i < length s" "entity_at decode s i = Done None" by auto
  then have "segments decode s start i = segments decode s start (Suc i)" by (simp add: segments.simps [of decode s start i])
  also have "\<dots> = segments decode s start j" by (rule Suc(1)) (use Suc in auto)
  finally show ?case .
qed simp

section \<open>The loop computes the blocks\<close>

definition stored :: "'b block option list \<Rightarrow> 'b block list \<Rightarrow> 'b blocks" where
  "stored arr bl = \<lparr>num_blocks = length bl, block_array = map Some bl @ drop (length bl) arr\<rparr>"

definition block_of :: "nat \<times> nat \<times> 'b block \<Rightarrow> 'b block" where
  "block_of span = snd (snd span)"

lemma add_block_stored:
  assumes "length arr = MAX_BLOCKS" and "length bl < MAX_BLOCKS"
  shows "add_block (stored arr bl) b =
    Done (if length bl + 1 < MAX_BLOCKS then (True, stored arr (bl @ [b])) else (False, stored arr bl))"
proof -
  have "drop (length bl) arr = arr ! length bl # drop (Suc (length bl)) arr"
    using assms by (simp add: Cons_nth_drop_Suc)
  then show ?thesis using assms by (auto simp: add_block_def stored_def list_update_append not_le)
qed

lemma add_text_block_stored:
  assumes "length arr = MAX_BLOCKS" and "length bl < MAX_BLOCKS" and "start \<le> i"
  shows "add_text_block (stored arr bl) start i =
    Done (if length (bl @ map block_of (text_span start i)) < MAX_BLOCKS then (True, stored arr (bl @ map block_of (text_span start i))) else (False, stored arr bl))"
  using assms by (auto simp: add_text_block_def add_block_stored text_span_def block_of_def)

text \<open>What the code returns when the blocks of the content are \<open>bl\<close>.\<close>

definition parse_result :: "'b block option list \<Rightarrow> 'b block list \<Rightarrow> bool \<times> 'b blocks" where
  "parse_result arr bl =
     (if length bl < MAX_BLOCKS then (True, stored arr bl) else (False, stored arr (take (MAX_BLOCKS - 1) bl)))"

lemma add_text_then_block_stored:
  assumes "length arr = MAX_BLOCKS" and "length bl < MAX_BLOCKS" and "start \<le> i"
  shows "add_text_then_block cur (stored arr bl) b start i = (let bl' = bl @ map block_of (text_span start i) @ [b] in
    Done (if length bl' < MAX_BLOCKS then (True, stored arr bl', pos cur)
      else (False, stored arr (take (MAX_BLOCKS - 1) bl'), if length (bl @ map block_of (text_span start i)) < MAX_BLOCKS then pos cur else start)))"
proof (cases "length (bl @ map block_of (text_span start i)) < MAX_BLOCKS")
  case True
  define bl1 where "bl1 = bl @ map block_of (text_span start i)"
  have "length bl1 = MAX_BLOCKS - 1" if "\<not> length bl1 + 1 < MAX_BLOCKS" using that True by (simp add: bl1_def)
  then show ?thesis using True add_block_stored [of arr bl1 b] assms(1)
    by (auto simp: add_text_then_block_def add_text_block_stored [OF assms] Let_def simp flip: bl1_def append_assoc)
next
  case False
  then have "text_span start i \<noteq> []" and len: "length bl = MAX_BLOCKS - 1"
    using assms(2) by (auto simp: text_span_def split: if_splits)
  then show ?thesis using False
    by (auto simp: add_text_then_block_def add_text_block_stored [OF assms] Let_def)
qed

lemma damus_parse_loop_eq:
  assumes "length arr = MAX_BLOCKS" and "segments decode s start i = Done spans" and "start \<le> i" and "length bl < MAX_BLOCKS"
  shows "damus_parse_loop decode \<lparr>content = s, pos = i\<rparr> (stored arr bl) start = Done (parse_result arr (bl @ map block_of spans))"
  using assms(2-4)
proof (induction "length s - i" arbitrary: i start bl spans rule: less_induct)
  case less
  note loop = damus_parse_loop.simps [of decode "\<lparr>content = s, pos = i\<rparr>"]
  have num: "num_blocks (stored arr bl) = length bl" by (simp add: stored_def)
  show ?case
  proof (cases "i < length s")
    case False
    then have spans: "spans = text_span start i" using less(2) by (simp add: segments.simps [of decode s start i])
    have "damus_parse_loop decode \<lparr>content = s, pos = i\<rparr> (stored arr bl) start = add_text_block (stored arr bl) start i"
      using False less(3) by (auto simp: loop at_end_def add_text_block_def)
    also have "\<dots> = Done (parse_result arr (bl @ map block_of spans))"
      using less(4) unfolding add_text_block_stored [OF assms(1) less(4,3)] spans
      by (auto simp: parse_result_def text_span_def)
    finally show ?thesis .
  next
    case True
    have guard: "\<not> at_end \<lparr>content = s, pos = i\<rparr>" using True by (simp add: at_end_def)
    note seg = less(2) [unfolded segments.simps [of decode s start i]]
    obtain r where r: "entity_at decode s i = Done r"
      using seg True by (cases "entity_at decode s i") auto
    show ?thesis
    proof (cases r)
      case None
      define k where "k = (if boundary s i then invoice_start s i else i)"
      have k: "i \<le> k" "k < length s" using invoice_start_bound [OF True] True
        by (auto simp: k_def invoice_start_def)
      have skip: "entity_at decode s m = Done None" if "Suc i \<le> m \<and> m < Suc k" for m
        using that skipped_no_entity [of i m s decode] by (auto simp: k_def split: if_splits)
      have "segments decode s start (Suc i) = segments decode s start (Suc k)"
        by (rule segments_skip) (use skip k in auto)
      then have nxt: "segments decode s start (Suc k) = Done spans" using seg True r None by simp
      have "damus_parse_loop decode \<lparr>content = s, pos = i\<rparr> (stored arr bl) start =
          damus_parse_loop decode \<lparr>content = s, pos = Suc k\<rparr> (stored arr bl) start"
        using guard less(4) by (simp add: loop num parse_block_eq [OF True] r None k_def advance_def)
      also have "\<dots> = Done (parse_result arr (bl @ map block_of spans))"
        by (rule less(1) [OF _ nxt]) (use k less in auto)
      finally show ?thesis .
    next
      case (Some bj)
      obtain b j where bj: "bj = (b, j)" by fastforce
      note r = r [unfolded Some bj]
      obtain rest where rest: "segments decode s j j = Done rest" "spans = text_span start i @ (i, j, b) # rest"
        using seg True r by (auto simp: bind_outcome_Done_iff)
      define bl' where "bl' = bl @ map block_of (text_span start i) @ [b]"
      have spans: "bl @ map block_of spans = bl' @ map block_of rest" by (simp add: bl'_def rest(2) block_of_def)
      note step = add_text_then_block_stored [OF assms(1) less(4,3), where b = b, unfolded Let_def, folded bl'_def]
      show ?thesis
      proof (cases "length bl' < MAX_BLOCKS")
        case True
        have "damus_parse_loop decode \<lparr>content = s, pos = i\<rparr> (stored arr bl) start =
            damus_parse_loop decode \<lparr>content = s, pos = j\<rparr> (stored arr bl') j"
          using guard less(4) True by (simp add: loop num parse_block_eq [OF \<open>i < length s\<close>] r step Let_def)
        also have "\<dots> = Done (parse_result arr (bl' @ map block_of rest))"
          by (rule less(1) [OF _ rest(1)]) (use \<open>i < length s\<close> True entity_at_progress [OF r] in auto)
        finally show ?thesis unfolding spans .
      next
        case False
        then show ?thesis
          using guard less(4) unfolding spans
          by (simp add: loop num parse_block_eq [OF \<open>i < length s\<close>] r step Let_def parse_result_def)
      qed
    qed
  qed
qed

section \<open>The properties\<close>

text \<open>C2. \<open>damus_parse_content\<close> stores exactly the blocks of the content, in order, when there
  are at most 1023 of them, and fails with the first 1023 stored otherwise; it always returns
  when \<open>bolt11_decode\<close> does, never writes outside the array and never reads the uninitialised second digit
  of a mention.\<close>

theorem damus_parse_content_blocks:
  assumes "length (block_array bs) = MAX_BLOCKS" and "segments decode s 0 0 = Done spans"
  shows "damus_parse_content decode bs s = Done (parse_result (block_array bs) (map block_of spans))"
proof -
  have "bs\<lparr>num_blocks := 0\<rparr> = stored (block_array bs) []" by (simp add: stored_def)
  then show ?thesis
    using damus_parse_loop_eq [OF assms(1,2), of "[]"]
    by (simp add: damus_parse_content_def make_cursor_def MAX_BLOCKS_def)
qed

text \<open>The ranges of the blocks follow each other.\<close>

fun spans_from :: "nat \<Rightarrow> nat \<Rightarrow> (nat \<times> nat \<times> 'b block) list \<Rightarrow> bool" where
  "spans_from p q [] \<longleftrightarrow> p = q"
| "spans_from p q ((a, b, x) # r) \<longleftrightarrow> a = p \<and> a < b \<and> spans_from b q r"

lemma spans_from_append: "spans_from p q (xs @ ys) \<longleftrightarrow> (\<exists>m. spans_from p m xs \<and> spans_from m q ys)"
  by (induction xs arbitrary: p) auto

text \<open>How a block describes its range \<open>a\<close> to \<open>b\<close> of the content.\<close>

fun describes :: "cstr \<Rightarrow> nat \<times> nat \<times> 'b block \<Rightarrow> bool" where
  "describes s (a, b, BLOCK_TEXT t) \<longleftrightarrow> t = \<lparr>str_start = a, str_end = b\<rparr>"
| "describes s (a, b, BLOCK_HASHTAG t) \<longleftrightarrow> boundary s a \<and> s ! a = 35 \<and> t = \<lparr>str_start = a + 1, str_end = b\<rparr> \<and> b = word_end s a"
| "describes s (a, b, BLOCK_URL t) \<longleftrightarrow> boundary s a \<and> t = \<lparr>str_start = a, str_end = b\<rparr> \<and> b = word_end s a"
| "describes s (a, b, BLOCK_MENTION n) \<longleftrightarrow> boundary s a \<and> 0 \<le> n \<and> n \<le> 999 \<and>
     (\<exists>ds. take (b - a) (drop a s) = cs ''#['' @ ds @ [93] \<and> digits ds \<and> ds \<noteq> [] \<and> int (dec_value ds) = n)"
| "describes s (a, b, BLOCK_INVOICE t x) \<longleftrightarrow> boundary s a \<and> str_start t = invoice_start s a \<and>
     str_end t = word_end s (str_start t) \<and> b = str_end t + (str_end t - str_start t)"

definition is_invoice :: "'b block \<Rightarrow> bool" where
  "is_invoice b \<longleftrightarrow> (case b of BLOCK_INVOICE _ _ \<Rightarrow> True | _ \<Rightarrow> False)"

lemma dec_value_bound: "digits ds \<Longrightarrow> dec_value ds < 10 ^ length ds"
proof (induction ds)
  case (Cons c ds)
  have "unat c - 48 \<le> 9" using Cons.prems by (simp add: is_digit_unat le_diff_conv)
  then have "(unat c - 48) * 10 ^ length ds \<le> 9 * 10 ^ length ds" by (rule mult_le_mono1)
  moreover have "dec_value ds < 10 ^ length ds" using Cons by simp
  ultimately show ?case unfolding dec_value_Cons length_Cons power_Suc by linarith
qed (simp add: dec_value_def)

lemma digits_takeWhile: "digits (takeWhile is_digit_c l)"
  by (auto simp: digits_def dest: set_takeWhileD)

lemma mention_at_text:
  assumes "mention_at s i = Some (n, j)"
  shows "\<exists>ds. take (j - i) (drop i s) = cs ''#['' @ ds @ [93] \<and> digits ds \<and> ds \<noteq> [] \<and> dec_value ds = n" and "n \<le> 999" and "j \<le> length s"
proof -
  define ds where "ds = takeWhile is_digit_c (drop (i + 2) s)"
  have m: "matches_at s i (cs ''#['')" "ds \<noteq> []" "length ds \<le> 3" "i + 2 + length ds < length s"
      "s ! (i + 2 + length ds) = 93" "n = dec_value ds" "j = i + 2 + length ds + 1"
    using assms by (auto simp: mention_at_def ds_def Let_def simp del: cs_simps split: if_splits)
  have d: "digits ds" by (simp add: ds_def digits_takeWhile)
  have t: "tolower_c c = 35 \<longleftrightarrow> c = 35" "tolower_c c = 91 \<longleftrightarrow> c = 91" "tolower_c 35 = 35" "tolower_c 91 = 91" for c
    unfolding word_unat_eq_iff unat_tolower_c by auto
  have p: "s ! i = 35" "s ! Suc i = 91" "Suc (Suc i) < length s"
    using m(1) by (simp_all add: matches_at_Cons t) (simp add: matches_at_def)
  have "take (length ds) (drop (i + 2) s) = ds" unfolding ds_def by (metis takeWhile_eq_take)
  then have "take (length ds + 1) (drop (i + 2) s) = ds @ [93]"
    using m(4,5) by (simp add: take_Suc_conv_app_nth)
  moreover have "drop i s = 35 # 91 # drop (i + 2) s"
    using p by (metis Cons_nth_drop_Suc Suc_lessD add_2_eq_Suc')
  moreover have "j - i = Suc (Suc (length ds + 1))" by (simp add: m(7))
  ultimately have "take (j - i) (drop i s) = cs ''#['' @ ds @ [93]" by simp
  then show "\<exists>ds. take (j - i) (drop i s) = cs ''#['' @ ds @ [93] \<and> digits ds \<and> ds \<noteq> [] \<and> dec_value ds = n"
    using d m(2,6) by blast
  have "dec_value ds < 10 ^ length ds" by (rule dec_value_bound [OF d])
  also have "(10::nat) ^ length ds \<le> 10 ^ 3" using m(3) by (intro power_increasing) auto
  finally show "n \<le> 999" using m(6) by simp
  show "j \<le> length s" using m(4,7) by simp
qed

lemma entity_describes:
  assumes "entity_at decode s i = Done (Some (b, j))" and "i < length s"
  shows "describes s (i, j, b)" and "\<not> is_invoice b \<Longrightarrow> j \<le> length s"
proof -
  have b: "boundary s i" using assms(1) by (auto simp: entity_at_def split: if_splits)
  have h: "hashtag_at s i = Some j \<Longrightarrow> s ! i = 35 \<and> j = word_end s i \<and> j \<le> length s" for j
  proof -
    assume a: "hashtag_at s i = Some j"
    then have h: "s ! i = 35" "j = word_end s (i + 1)" "i + 1 < length s" by (auto simp: hashtag_at_def split: if_splits)
    have "take 1 (drop i s) = [s ! i]" using assms(2) by (simp add: take_Suc_conv_app_nth)
    then have "word_end s (i + 1) = word_end s i" using h by (intro word_end_skip) (auto simp: is_whitespace_def)
    then show ?thesis using h word_end_bounds [of "i + 1" s] by simp
  qed
  have u: "url_at s i = Some j \<Longrightarrow> j = word_end s i \<and> j \<le> length s" for j
    using word_end_bounds [of i s] assms(2) by (auto simp: url_at_def simp del: cs_simps split: if_splits)
  have "describes s (i, j, b) \<and> (\<not> is_invoice b \<longrightarrow> j \<le> length s)"
    using assms(1) b mention_at_text [of s i] h u
    by (auto simp: entity_at_def invoice_at_def bind_outcome_Done_iff is_invoice_def Let_def simp del: cs_simps
        split: option.splits if_splits)
  then show "describes s (i, j, b)" "\<not> is_invoice b \<Longrightarrow> j \<le> length s" by auto
qed

lemma segments_spans:
  assumes "segments decode s start i = Done spans" and "start \<le> i" and "i \<le> length s \<or> start = i"
  shows "\<exists>q. spans_from start q spans \<and> length s \<le> q \<and> list_all (describes s) spans \<and>
    (i \<le> length s \<and> list_all (\<lambda>sp. \<not> is_invoice (block_of sp)) spans \<longrightarrow> q = length s)"
  using assms
proof (induction "length s - i" arbitrary: i start spans rule: less_induct)
  case less
  have t: "spans_from start i (text_span start i)" "list_all (describes s) (text_span start i)"
    using less(3) by (auto simp: text_span_def)
  show ?case
  proof (cases "i < length s")
    case False
    then have "spans = text_span start i" using less(2) by (simp add: segments.simps [of decode s start i])
    then show ?thesis using t False by (intro exI [of _ i]) auto
  next
    case True
    note seg = less(2) [unfolded segments.simps [of decode s start i]]
    obtain r where r: "entity_at decode s i = Done r"
      using seg True by (cases "entity_at decode s i") auto
    show ?thesis
    proof (cases r)
      case None
      then show ?thesis using less(1) [of "Suc i" start spans] seg True r less(3) by auto
    next
      case (Some bj)
      obtain b j where bj: "bj = (b, j)" by fastforce
      note r = r [unfolded Some bj]
      obtain rest where rest: "segments decode s j j = Done rest" "spans = text_span start i @ (i, j, b) # rest"
        using seg True r by (auto simp: bind_outcome_Done_iff)
      note d = entity_describes [OF r True] and j = entity_at_progress [OF r]
      obtain q where q: "spans_from j q rest" "length s \<le> q" "list_all (describes s) rest"
          "j \<le> length s \<and> list_all (\<lambda>sp. \<not> is_invoice (block_of sp)) rest \<longrightarrow> q = length s"
        using less(1) [OF _ rest(1)] diff_less_mono2 [OF j, of "length s"] j True by auto
      show ?thesis
        using t q d j by (intro exI [of _ q]) (auto simp: rest(2) spans_from_append block_of_def)
    qed
  qed
qed

text \<open>C6. When the content is accepted, the stored blocks stand, in order and without a gap, for
  ranges of the content that begin at its start: a text block is its range, a hashtag, link
  or mention stands behind white space or at the start and is described by its range (a mention holds the
  number, at most 999, between its brackets).  Without an invoice the ranges end with the content.\<close>

theorem damus_parse_content_covers:
  assumes "length (block_array bs) = MAX_BLOCKS" and "segments decode s 0 0 = Done spans" and "length spans < MAX_BLOCKS"
  shows "\<exists>bs' q. damus_parse_content decode bs s = Done (True, bs') \<and>
    take (num_blocks bs') (block_array bs') = map (Some \<circ> block_of) spans \<and>
    spans_from 0 q spans \<and> list_all (describes s) spans \<and>
    (if list_all (\<lambda>sp. \<not> is_invoice (block_of sp)) spans then q = length s else length s \<le> q)"
proof -
  have "bs\<lparr>num_blocks := 0\<rparr> = stored (block_array bs) []" by (simp add: stored_def)
  then have "damus_parse_content decode bs s = Done (True, stored (block_array bs) (map block_of spans))"
    using damus_parse_loop_eq [OF assms(1,2), of "[]"] assms(3)
    by (simp add: damus_parse_content_def make_cursor_def MAX_BLOCKS_def parse_result_def)
  then show ?thesis using segments_spans [OF assms(2)] by (auto simp: stored_def)
qed

lemma segments_behind_invoice:
  assumes "matches_at s 0 (cs ''lnbc'')" and "decode (takeWhile (\<lambda>c. \<not> is_whitespace c) s) = Done (Some b)"
    and "k = length (takeWhile (\<lambda>c. \<not> is_whitespace c) s)" and "segments decode s (2 * k) (2 * k) = Done spans"
  shows "segments decode s 0 0 = Done ((0, 2 * k, BLOCK_INVOICE \<lparr>str_start = 0, str_end = k\<rparr> b) # spans)"
proof -
  define invstr where "invstr = takeWhile (\<lambda>c. \<not> is_whitespace c) s"
  have e: "word_end s 0 = length invstr" "take (length invstr) s = invstr" by (simp_all add: word_end_def invstr_def takeWhile_eq_take [symmetric])
  have l: "s ! 0 = 108 \<or> s ! 0 = 76" "tolower_c (s ! 1) = 110" "0 < length s"
    using assms(1) by (simp_all add: matches_at_Cons tolower_first) (auto simp: tolower_c_def is_upper_c_iff word_le_nat_alt matches_at_def split: if_splits)
  have "tolower_c 105 = 105" by (simp add: word_unat_eq_iff unat_tolower_c)
  then have st: "invoice_start s 0 = 0" using l(2) by (simp add: invoice_start_def matches_at_Cons)
  have ns: "s ! 0 \<noteq> 35" "s ! 0 \<noteq> 104" "s ! 0 \<noteq> 72" using l(1) by auto
  note first = first_characters(1) [OF ns(1)] first_characters(2) [OF ns(1)] first_characters(3) [OF ns(2,3)]
  have "entity_at decode s 0 = Done (Some (BLOCK_INVOICE \<lparr>str_start = 0, str_end = length invstr\<rparr> b, 2 * length invstr))"
    using assms(1,2) first unfolding entity_at_def invoice_at_def st e Let_def
    by (simp add: boundary_def e invstr_def [symmetric])
  then show ?thesis using l(3) assms(3,4) unfolding invstr_def [symmetric]
    by (simp add: segments.simps [of decode s 0 0] text_span_def)
qed

lemma segments_at_invoice:
  assumes "matches_at s 0 (cs ''lnbc'')" and "decode (takeWhile (\<lambda>c. \<not> is_whitespace c) s) = Done (Some b)"
    and "length s \<le> 2 * length (takeWhile (\<lambda>c. \<not> is_whitespace c) s)"
  shows "segments decode s 0 0 = Done [(0, 2 * length (takeWhile (\<lambda>c. \<not> is_whitespace c) s),
    BLOCK_INVOICE \<lparr>str_start = 0, str_end = length (takeWhile (\<lambda>c. \<not> is_whitespace c) s)\<rparr> b)]"
proof -
  define k where "k = length (takeWhile (\<lambda>c. \<not> is_whitespace c) s)"
  have "segments decode s (2 * k) (2 * k) = Done []"
    using assms(3) unfolding k_def [symmetric] by (simp add: segments.simps [of decode s "2 * k"] text_span_def)
  from segments_behind_invoice [OF assms(1,2) k_def this] show ?thesis by (simp add: k_def)
qed

text \<open>C31. The text behind an invoice is lost: after a decoded invoice of n characters at the start of the
  content, the parser goes on at twice its length.  The block of the invoice is followed by the blocks of the
  content from that place on, which stand for ranges that begin there, so that the n characters behind the
  invoice are in no block, whatever they are; a longer rest is parsed from there.\<close>

theorem invoice_drops_text:
  assumes "length (block_array bs) = MAX_BLOCKS" and "matches_at (invstr @ rest) 0 (cs ''lnbc'')"
    and "\<forall>c\<in>set invstr. \<not> is_whitespace c" and "rest = [] \<or> is_whitespace (hd rest)"
    and "decode invstr = Done (Some b)"
    and "segments decode (invstr @ rest) (2 * length invstr) (2 * length invstr) = Done spans"
  shows "damus_parse_content decode bs (invstr @ rest) =
      Done (parse_result (block_array bs) (BLOCK_INVOICE \<lparr>str_start = 0, str_end = length invstr\<rparr> b # map block_of spans)) \<and>
    (\<exists>q. spans_from (2 * length invstr) q spans)"
proof -
  have t: "takeWhile (\<lambda>c. \<not> is_whitespace c) (invstr @ rest) = invstr"
    using assms(3,4) by (cases rest) (auto simp: takeWhile_append)
  have "segments decode (invstr @ rest) 0 0 =
      Done ((0, 2 * length invstr, BLOCK_INVOICE \<lparr>str_start = 0, str_end = length invstr\<rparr> b) # spans)"
    using segments_behind_invoice [OF assms(2), unfolded t, OF assms(5) refl assms(6)] .
  moreover have "bs\<lparr>num_blocks := 0\<rparr> = stored (block_array bs) []" by (simp add: stored_def)
  ultimately have "damus_parse_content decode bs (invstr @ rest) =
      Done (parse_result (block_array bs) (BLOCK_INVOICE \<lparr>str_start = 0, str_end = length invstr\<rparr> b # map block_of spans))"
    using damus_parse_loop_eq [OF assms(1), where decode = decode and s = "invstr @ rest" and start = 0 and i = 0 and bl = "[]"]
    by (simp add: damus_parse_content_def make_cursor_def MAX_BLOCKS_def block_of_def)
  moreover from segments_spans [OF assms(6) order_refl] have "\<exists>q. spans_from (2 * length invstr) q spans" by blast
  ultimately show ?thesis by blast
qed

section \<open>Witnesses\<close>

lemma example_segments:
  "segments (\<lambda>_. Done (None :: unit option)) (cs ''a #[7]'') 0 0 =
     Done [(0, 2, BLOCK_TEXT \<lparr>str_start = 0, str_end = 2\<rparr>), (2, 6, BLOCK_MENTION 7)]"
  by (simp add: segments.simps entity_at_def boundary_def is_whitespace_def mention_at_def hashtag_at_def url_at_def invoice_at_def
      invoice_start_def matches_at_def tolower_c_def is_upper_c_iff is_digit_c_def dec_value_def text_span_def word_le_nat_alt Let_def
      takeWhile_drop)

lemma length_blocks_init: "length (block_array blocks_init) = MAX_BLOCKS"
  by (simp add: blocks_init_def)

lemma damus_parse_content_blocks_witness:
  "damus_parse_content (\<lambda>_. Done (None :: unit option)) blocks_init (cs ''a #[7]'') =
     Done (parse_result (block_array blocks_init) [BLOCK_TEXT \<lparr>str_start = 0, str_end = 2\<rparr>, BLOCK_MENTION 7])"
  using damus_parse_content_blocks [OF length_blocks_init example_segments] by (simp add: block_of_def del: cs_simps)

lemma damus_parse_content_covers_witness:
  "\<exists>bs' q. damus_parse_content (\<lambda>_. Done (None :: unit option)) blocks_init (cs ''a #[7]'') = Done (True, bs') \<and>
    take (num_blocks bs') (block_array bs') = [Some (BLOCK_TEXT \<lparr>str_start = 0, str_end = 2\<rparr>), Some (BLOCK_MENTION 7)] \<and> q = 6"
  using damus_parse_content_covers [OF length_blocks_init example_segments]
  by (simp add: block_of_def is_invoice_def MAX_BLOCKS_def del: cs_simps) auto

lemma example_lost_text:
  "segments (\<lambda>_. Done (Some ())) (cs ''lnbc1x'' @ cs '' lost? kept'') (2 * length (cs ''lnbc1x'')) (2 * length (cs ''lnbc1x'')) =
     Done [(12, 17, BLOCK_TEXT \<lparr>str_start = 12, str_end = 17\<rparr>)]"
  by (simp add: segments.simps entity_at_def boundary_def is_whitespace_def mention_at_def hashtag_at_def url_at_def invoice_at_def
      invoice_start_def matches_at_def tolower_c_def is_upper_c_iff is_digit_c_def dec_value_def text_span_def word_le_nat_alt Let_def
      takeWhile_drop)

lemma invoice_drops_text_witness:
  "damus_parse_content (\<lambda>_. Done (Some ())) blocks_init (cs ''lnbc1x'' @ cs '' lost? kept'') =
     Done (parse_result (block_array blocks_init)
       [BLOCK_INVOICE \<lparr>str_start = 0, str_end = 6\<rparr> (), BLOCK_TEXT \<lparr>str_start = 12, str_end = 17\<rparr>])"
  using invoice_drops_text [OF length_blocks_init _ _ _ _ example_lost_text, of "()"]
  by (simp add: matches_at_def is_whitespace_def block_of_def) (simp add: eval_nat_numeral)

end
