(* ===== verification/Notes.thy ===== *)
theory Notes
  imports Damus Bolt11
begin

text \<open>
  The composition of \<open>damus.c\<close> and \<open>bolt11.c\<close>: \<open>parse_invoice\<close> calls \<open>bolt11_decode\<close> on the
  characters up to the next white space, and a result of \<open>NULL\<close> is no block.
\<close>

definition bolt11_source :: "env \<Rightarrow> cstr \<Rightarrow> bolt11 option outcome" where
  "bolt11_source e s = bind_outcome (bolt11_decode e s) (\<lambda>r. Done (case r of Inl _ \<Rightarrow> None | Inr b \<Rightarrow> Some b))"

definition parse_note :: "env \<Rightarrow> bolt11 blocks \<Rightarrow> cstr \<Rightarrow> (bool \<times> bolt11 blocks) outcome" where
  "parse_note e = damus_parse_content (bolt11_source e)"

lemma charset_not_whitespace: "c \<in> set bech32_charset \<Longrightarrow> \<not> is_whitespace c"
  by (auto simp: bech32_charset_def is_whitespace_def)

lemma hrp_char_not_whitespace: "hrp_char c \<Longrightarrow> \<not> is_whitespace c"
  by (auto simp: hrp_char_def is_whitespace_def)

lemma symbol_not_whitespace:
  fixes d :: "'a :: len word"
  assumes "take_bit 5 d = d"
  shows "\<not> is_whitespace (bech32_charset ! unat d)"
proof -
  have "unat (take_bit 5 d) < 2 ^ 5" by (simp only: unsigned_take_bit_eq take_bit_nat_less_exp)
  then have "unat d < length bech32_charset" using assms by (simp add: bech32_charset_def)
  then show ?thesis by (rule charset_not_whitespace [OF nth_mem])
qed

lemma invoice_ok_parts:
  assumes "invoice_ok iv amt"
  shows "hrp_ok (inv_hrp iv)" and "groups_ok 5 (invoice_data iv)"
proof -
  show "hrp_ok (inv_hrp iv)" using assms unfolding invoice_ok_def by blast
  have "groups_ok 5 (inv_time iv)" "groups_ok 5 (inv_signature iv)" "fields_ok (inv_fields iv) (invoice_state iv amt)"
    using assms unfolding invoice_ok_def by blast+
  then show "groups_ok 5 (invoice_data iv)" using fields_ok_groups by (auto simp: invoice_data_def)
qed

lemma invoice_string_not_whitespace:
  assumes "invoice_ok iv amt" and "c \<in> set (invoice_string iv)"
  shows "\<not> is_whitespace c"
proof -
  note parts = invoice_ok_parts [OF assms(1)]
  from assms(2) consider "c \<in> set (inv_hrp iv)" | "c = 49" | d where "d \<in> set (invoice_data iv)" "c = bech32_charset ! unat d"
    | v where "v \<in> set (bech32_checksum 1 (inv_hrp iv) (invoice_data iv))" "c = bech32_charset ! unat v"
    by (auto simp: invoice_string_def bech32_string_def)
  then show ?thesis
  proof cases
    case 1
    then show ?thesis using parts(1) hrp_char_not_whitespace by (auto simp: hrp_ok_def)
  next
    case 2
    then show ?thesis by (simp add: is_whitespace_def)
  next
    case 3
    then show ?thesis using parts(2) symbol_not_whitespace by (auto simp: groups_ok_def)
  next
    case 4
    then show ?thesis using symbols_ok_checksum symbol_not_whitespace [of v] by auto
  qed
qed

lemma matches_at_prefix: "r \<noteq> [] \<Longrightarrow> matches_at (str @ r) 0 str"
  by (cases r) (simp_all add: matches_at_def)

lemma parse_note_single:
  assumes "length (block_array bs) = MAX_BLOCKS" and "segments (bolt11_source e) s 0 0 = Done [sp]"
  shows "parse_note e bs s = Done (True, stored (block_array bs) [block_of sp])"
proof -
  have "bs\<lparr>num_blocks := 0\<rparr> = stored (block_array bs) []" by (simp add: stored_def)
  then show ?thesis
    using damus_parse_loop_eq [OF assms(1,2) le0, of "[]"]
    by (simp add: parse_note_def damus_parse_content_def make_cursor_def MAX_BLOCKS_def parse_result_def)
qed

text \<open>C7. A note that consists of an invoice in order, for the main network, becomes a single block:
  the invoice, over the whole content, with the members that its fields determine.\<close>

theorem parse_note_invoice:
  assumes "length (block_array bs) = MAX_BLOCKS"
    and "invoice_ok iv amt" and "decode_amount e (hrp_amount (inv_hrp iv)) = Inr amt" and "length (be_val_bytes e) = 8"
    and "strstarts (inv_hrp iv) (cs ''lnbc'')"
  shows "parse_note e bs (invoice_string iv) = Done (True, stored (block_array bs)
    [BLOCK_INVOICE \<lparr>str_start = 0, str_end = length (invoice_string iv)\<rparr> (fst (spec_fields (inv_fields iv) (invoice_state iv amt)))])"
proof -
  define s where "s = invoice_string iv"
  obtain q where q: "inv_hrp iv = cs ''lnbc'' @ q" using assms(5) by (auto simp: strstarts_iff simp del: cs_simps)
  then obtain r where "s = cs ''lnbc'' @ r" "r \<noteq> []"
    by (simp add: s_def invoice_string_def bech32_string_def del: cs_simps)
  then have m: "matches_at s 0 (cs ''lnbc'')" using matches_at_prefix [of r "cs ''lnbc''"] by (simp only: not_False_eq_True)
  have t: "takeWhile (\<lambda>c. \<not> is_whitespace c) s = s"
    using invoice_string_not_whitespace [OF assms(2)] by (simp add: s_def takeWhile_eq_all_conv)
  have "bolt11_source e s = Done (Some (fst (spec_fields (inv_fields iv) (invoice_state iv amt))))"
    using bolt11_decode_valid [OF assms(2-4), of s] by (simp add: bolt11_source_def s_def)
  from segments_at_invoice [OF m, unfolded t, where decode = "bolt11_source e", OF this]
  have "segments (bolt11_source e) s 0 0 = Done [(0, 2 * length s, BLOCK_INVOICE \<lparr>str_start = 0, str_end = length s\<rparr>
      (fst (spec_fields (inv_fields iv) (invoice_state iv amt))))]"
    by simp
  from parse_note_single [OF assms(1) this] show ?thesis by (simp add: block_of_def s_def)
qed

lemma parse_note_invoice_witness:
  "parse_note example_env \<lparr>num_blocks = 0, block_array = replicate MAX_BLOCKS None\<rparr> (invoice_string example_invoice) =
     Done (True, stored (replicate MAX_BLOCKS None) [BLOCK_INVOICE \<lparr>str_start = 0, str_end = length (invoice_string example_invoice)\<rparr>
       (fst (spec_fields (inv_fields example_invoice) (invoice_state example_invoice (Some (AMOUNT_MSAT 2000000)))))])"
proof -
  have "strstarts (inv_hrp example_invoice) (cs ''lnbc'')" by (simp add: example_invoice_def strstarts_def)
  moreover have "length (be_val_bytes example_env) = 8" by (simp add: example_env_def)
  ultimately show ?thesis
    using parse_note_invoice [OF _ example_invoice_ok example_amount, of "\<lparr>num_blocks = 0, block_array = replicate MAX_BLOCKS None\<rparr>"]
    by simp
qed

end
