(* ===== verification/Linked_List.thy ===== *)
theory Linked_List
  imports Prelude
begin

text \<open>
  \<open>list.h\<close> and \<open>list.c\<close>: circular doubly linked lists, on an explicit heap.  An address is a
  64-bit word; the heap holds the nodes in memory, and to read or write the member of a node that
  is not there is undefined.  The operations write the pointers in the order of the code, so
  that aliased nodes are treated the way the code treats them.  \<open>CCAN_LIST_DEBUG\<close> is not
  defined, so \<open>list_debug\<close> does nothing.  The operations are shown to refine those on HOL's
  lists, and \<open>list_check\<close> to return on every heap.
\<close>

section \<open>The heap\<close>

type_synonym addr = "64 word"

record list_node =
  node_next :: addr
  node_prev :: addr

type_synonym heap = "addr \<rightharpoonup> list_node"

definition get_next :: "heap \<Rightarrow> addr \<Rightarrow> addr outcome" where
  "get_next h a = (case h a of None \<Rightarrow> Undefined | Some nd \<Rightarrow> Done (node_next nd))"

definition get_prev :: "heap \<Rightarrow> addr \<Rightarrow> addr outcome" where
  "get_prev h a = (case h a of None \<Rightarrow> Undefined | Some nd \<Rightarrow> Done (node_prev nd))"

definition set_next :: "heap \<Rightarrow> addr \<Rightarrow> addr \<Rightarrow> heap outcome" where
  "set_next h a v = (case h a of None \<Rightarrow> Undefined | Some nd \<Rightarrow> Done (h(a \<mapsto> nd\<lparr>node_next := v\<rparr>)))"

definition set_prev :: "heap \<Rightarrow> addr \<Rightarrow> addr \<Rightarrow> heap outcome" where
  "set_prev h a v = (case h a of None \<Rightarrow> Undefined | Some nd \<Rightarrow> Done (h(a \<mapsto> nd\<lparr>node_prev := v\<rparr>)))"

section \<open>The operations\<close>

definition list_head_init :: "heap \<Rightarrow> addr \<Rightarrow> heap outcome" where
  "list_head_init h lh = bind_outcome (set_prev h lh lh) (\<lambda>h. set_next h lh lh)"

definition list_node_init :: "heap \<Rightarrow> addr \<Rightarrow> heap outcome" where
  "list_node_init h n = bind_outcome (set_prev h n n) (\<lambda>h. set_next h n n)"

definition list_add_after :: "heap \<Rightarrow> addr \<Rightarrow> addr \<Rightarrow> addr \<Rightarrow> heap outcome" where
  "list_add_after h lh p n =
     bind_outcome (get_next h p) (\<lambda>p_next.
     bind_outcome (set_next h n p_next) (\<lambda>h.
     bind_outcome (set_prev h n p) (\<lambda>h.
     bind_outcome (get_next h p) (\<lambda>p_next.
     bind_outcome (set_prev h p_next n) (\<lambda>h.
     set_next h p n)))))"

definition list_add :: "heap \<Rightarrow> addr \<Rightarrow> addr \<Rightarrow> heap outcome" where
  "list_add h lh n = list_add_after h lh lh n"

definition list_add_before :: "heap \<Rightarrow> addr \<Rightarrow> addr \<Rightarrow> addr \<Rightarrow> heap outcome" where
  "list_add_before h lh p n =
     bind_outcome (set_next h n p) (\<lambda>h.
     bind_outcome (get_prev h p) (\<lambda>p_prev.
     bind_outcome (set_prev h n p_prev) (\<lambda>h.
     bind_outcome (get_prev h p) (\<lambda>p_prev.
     bind_outcome (set_next h p_prev n) (\<lambda>h.
     set_prev h p n)))))"

definition list_add_tail :: "heap \<Rightarrow> addr \<Rightarrow> addr \<Rightarrow> heap outcome" where
  "list_add_tail h lh n = list_add_before h lh lh n"

definition list_empty :: "heap \<Rightarrow> addr \<Rightarrow> bool outcome" where
  "list_empty h lh = bind_outcome (get_next h lh) (\<lambda>n. Done (n = lh))"

definition list_empty_nocheck :: "heap \<Rightarrow> addr \<Rightarrow> bool outcome" where
  "list_empty_nocheck h lh = bind_outcome (get_next h lh) (\<lambda>n. Done (n = lh))"

definition list_del :: "heap \<Rightarrow> addr \<Rightarrow> heap outcome" where
  "list_del h n =
     bind_outcome (get_next h n) (\<lambda>n_next.
     bind_outcome (get_prev h n) (\<lambda>n_prev.
     bind_outcome (set_prev h n_next n_prev) (\<lambda>h.
     bind_outcome (get_prev h n) (\<lambda>n_prev.
     bind_outcome (get_next h n) (\<lambda>n_next.
     set_next h n_prev n_next)))))"

definition list_del_init :: "heap \<Rightarrow> addr \<Rightarrow> heap outcome" where
  "list_del_init h n = bind_outcome (list_del h n) (\<lambda>h. list_node_init h n)"

definition list_del_from :: "heap \<Rightarrow> addr \<Rightarrow> addr \<Rightarrow> heap outcome" where
  "list_del_from h lh n =
     bind_outcome (list_empty h lh) (\<lambda>e. if e then Abort else list_del h n)"

text \<open>\<open>*n = *o\<close> copies both members.\<close>

definition list_swap :: "heap \<Rightarrow> addr \<Rightarrow> addr \<Rightarrow> heap outcome" where
  "list_swap h old n =
     bind_outcome (get_next h old) (\<lambda>o_next.
     bind_outcome (get_prev h old) (\<lambda>o_prev.
     bind_outcome (set_next h n o_next) (\<lambda>h.
     bind_outcome (set_prev h n o_prev) (\<lambda>h.
     bind_outcome (get_next h n) (\<lambda>n_next.
     bind_outcome (set_prev h n_next n) (\<lambda>h.
     bind_outcome (get_prev h n) (\<lambda>n_prev.
     set_next h n_prev n)))))))"

text \<open>Entries: the node is a member of a larger object, \<open>off\<close> bytes into it.  The null pointer is 0.\<close>

definition list_node_to_off :: "addr \<Rightarrow> u64 \<Rightarrow> addr" where
  "list_node_to_off n off = n - off"

definition list_node_from_off :: "addr \<Rightarrow> u64 \<Rightarrow> addr" where
  "list_node_from_off p off = p + off"

definition list_top :: "heap \<Rightarrow> addr \<Rightarrow> u64 \<Rightarrow> addr outcome" where
  "list_top h lh off =
     bind_outcome (list_empty h lh) (\<lambda>e.
       if e then Done 0 else bind_outcome (get_next h lh) (\<lambda>n. Done (n - off)))"

definition list_pop :: "heap \<Rightarrow> addr \<Rightarrow> u64 \<Rightarrow> (addr \<times> heap) outcome" where
  "list_pop h lh off =
     bind_outcome (list_empty h lh) (\<lambda>e.
       if e then Done (0, h)
       else bind_outcome (get_next h lh) (\<lambda>n.
         bind_outcome (list_del h n) (\<lambda>h. Done (n - off, h))))"

definition list_tail :: "heap \<Rightarrow> addr \<Rightarrow> u64 \<Rightarrow> addr outcome" where
  "list_tail h lh off =
     bind_outcome (list_empty h lh) (\<lambda>e.
       if e then Done 0 else bind_outcome (get_prev h lh) (\<lambda>n. Done (n - off)))"

definition list_entry_or_null :: "addr \<Rightarrow> addr \<Rightarrow> u64 \<Rightarrow> addr" where
  "list_entry_or_null lh n off = (if n = lh then 0 else n - off)"

definition list_next :: "heap \<Rightarrow> addr \<Rightarrow> addr \<Rightarrow> u64 \<Rightarrow> addr outcome" where
  "list_next h lh i off = bind_outcome (get_next h (i + off)) (\<lambda>n. Done (list_entry_or_null lh n off))"

definition list_prev :: "heap \<Rightarrow> addr \<Rightarrow> addr \<Rightarrow> u64 \<Rightarrow> addr outcome" where
  "list_prev h lh i off = bind_outcome (get_prev h (i + off)) (\<lambda>n. Done (list_entry_or_null lh n off))"

definition list_append_list :: "heap \<Rightarrow> addr \<Rightarrow> addr \<Rightarrow> heap outcome" where
  "list_append_list h to from =
     bind_outcome (get_prev h from) (\<lambda>from_tail.
     bind_outcome (get_prev h to) (\<lambda>to_tail.
     bind_outcome (set_prev h to from_tail) (\<lambda>h.
     bind_outcome (set_next h from_tail to) (\<lambda>h.
     bind_outcome (set_next h to_tail from) (\<lambda>h.
     bind_outcome (set_prev h from to_tail) (\<lambda>h.
     bind_outcome (list_del h from) (\<lambda>h.
     list_head_init h from)))))))"

definition list_prepend_list :: "heap \<Rightarrow> addr \<Rightarrow> addr \<Rightarrow> heap outcome" where
  "list_prepend_list h to from =
     bind_outcome (get_prev h from) (\<lambda>from_tail.
     bind_outcome (get_next h to) (\<lambda>to_head.
     bind_outcome (set_next h to from) (\<lambda>h.
     bind_outcome (set_prev h from to) (\<lambda>h.
     bind_outcome (set_prev h to_head from_tail) (\<lambda>h.
     bind_outcome (set_next h from_tail to_head) (\<lambda>h.
     bind_outcome (list_del h from) (\<lambda>h.
     list_head_init h from)))))))"

text \<open>The loops of the iteration macros, in the direction \<open>dir\<close>, around a body that changes the
  heap and the variables \<open>s\<close> of its surroundings.  A loop that does not end is \<open>None\<close>.\<close>

partial_function (option) for_each_loop ::
  "(heap \<Rightarrow> addr \<Rightarrow> addr outcome) \<Rightarrow> (addr \<Rightarrow> heap \<times> 's \<Rightarrow> (heap \<times> 's) outcome) \<Rightarrow> addr \<Rightarrow> u64 \<Rightarrow> addr \<Rightarrow> heap \<times> 's \<Rightarrow>
     (heap \<times> 's) outcome option" where
  "for_each_loop dir body lh off i st =
     (if list_node_from_off i off = lh then Some (Done st)
      else case body i st of Abort \<Rightarrow> Some Abort | Undefined \<Rightarrow> Some Undefined
      | Done st \<Rightarrow> (case dir (fst st) (list_node_from_off i off) of Abort \<Rightarrow> Some Abort | Undefined \<Rightarrow> Some Undefined
        | Done n \<Rightarrow> for_each_loop dir body lh off (list_node_to_off n off) st))"

definition list_for_each_off_dir where
  "list_for_each_off_dir dir body lh off st =
     (case dir (fst st) lh of Abort \<Rightarrow> Some Abort | Undefined \<Rightarrow> Some Undefined
      | Done n \<Rightarrow> for_each_loop dir body lh off (list_node_to_off n off) st)"

partial_function (option) for_each_safe_loop ::
  "(heap \<Rightarrow> addr \<Rightarrow> addr outcome) \<Rightarrow> (addr \<Rightarrow> heap \<times> 's \<Rightarrow> (heap \<times> 's) outcome) \<Rightarrow> addr \<Rightarrow> u64 \<Rightarrow> addr \<Rightarrow> addr \<Rightarrow> heap \<times> 's \<Rightarrow>
     (heap \<times> 's) outcome option" where
  "for_each_safe_loop dir body lh off i nxt st =
     (if list_node_from_off i off = lh then Some (Done st)
      else case body i st of Abort \<Rightarrow> Some Abort | Undefined \<Rightarrow> Some Undefined
      | Done st \<Rightarrow> (case dir (fst st) (list_node_from_off nxt off) of Abort \<Rightarrow> Some Abort | Undefined \<Rightarrow> Some Undefined
        | Done n \<Rightarrow> for_each_safe_loop dir body lh off nxt (list_node_to_off n off) st))"

definition list_for_each_safe_off_dir where
  "list_for_each_safe_off_dir dir body lh off st =
     (case dir (fst st) lh of Abort \<Rightarrow> Some Abort | Undefined \<Rightarrow> Some Undefined
      | Done i \<Rightarrow> (case dir (fst st) i of Abort \<Rightarrow> Some Abort | Undefined \<Rightarrow> Some Undefined
        | Done n \<Rightarrow> for_each_safe_loop dir body lh off (list_node_to_off i off) (list_node_to_off n off) st))"

text \<open>\<open>corrupt\<close> returns the null pointer, or stops the process after its message.\<close>

definition corrupt :: "cstr option \<Rightarrow> addr outcome" where
  "corrupt abortstr = (if abortstr \<noteq> None then Abort else Done 0)"

text \<open>The counter is an \<open>int\<close>, whose overflow is undefined.\<close>

partial_function (option) check_node_loop ::
  "heap \<Rightarrow> cstr option \<Rightarrow> addr \<Rightarrow> addr \<Rightarrow> addr \<Rightarrow> int \<Rightarrow> addr outcome option" where
  "check_node_loop h abortstr node p n count =
     (if n \<noteq> node then
        if count = 2 ^ 31 - 1 then Some Undefined
        else case get_prev h n of Abort \<Rightarrow> Some Abort | Undefined \<Rightarrow> Some Undefined
        | Done n_prev \<Rightarrow>
            if n_prev \<noteq> p then Some (corrupt abortstr)
            else (case get_next h n of Abort \<Rightarrow> Some Abort | Undefined \<Rightarrow> Some Undefined
              | Done n' \<Rightarrow> check_node_loop h abortstr node n n' (count + 1))
      else Some (bind_outcome (get_prev h node) (\<lambda>node_prev.
        if node_prev \<noteq> p then corrupt abortstr else Done node)))"

definition list_check_node :: "heap \<Rightarrow> addr \<Rightarrow> cstr option \<Rightarrow> addr outcome option" where
  "list_check_node h node abortstr =
     (case get_next h node of Abort \<Rightarrow> Some Abort | Undefined \<Rightarrow> Some Undefined
      | Done n \<Rightarrow> check_node_loop h abortstr node node n 0)"

definition list_check :: "heap \<Rightarrow> addr \<Rightarrow> cstr option \<Rightarrow> addr outcome option" where
  "list_check h lh abortstr =
     map_option (\<lambda>r. bind_outcome r (\<lambda>p. Done (if p = 0 then 0 else lh))) (list_check_node h lh abortstr)"

section \<open>Chains of nodes\<close>

text \<open>The members of the nodes, as maps.\<close>

definition nexts :: "heap \<Rightarrow> addr \<rightharpoonup> addr" where "nexts h a = map_option node_next (h a)"

definition prevs :: "heap \<Rightarrow> addr \<rightharpoonup> addr" where "prevs h a = map_option node_prev (h a)"

lemma get_next_alt: "get_next h a = (case nexts h a of None \<Rightarrow> Undefined | Some v \<Rightarrow> Done v)"
  by (simp add: get_next_def nexts_def split: option.split)

lemma get_prev_alt: "get_prev h a = (case prevs h a of None \<Rightarrow> Undefined | Some v \<Rightarrow> Done v)"
  by (simp add: get_prev_def prevs_def split: option.split)

lemma member_dom: "nexts h a = Some v \<Longrightarrow> a \<in> dom h" "prevs h a = Some v \<Longrightarrow> a \<in> dom h"
  by (auto simp: nexts_def prevs_def)

text \<open>A write that succeeds.\<close>

definition put_next :: "addr \<Rightarrow> addr \<Rightarrow> heap \<Rightarrow> heap" where
  "put_next a v h = h(a := map_option (\<lambda>nd. nd\<lparr>node_next := v\<rparr>) (h a))"

definition put_prev :: "addr \<Rightarrow> addr \<Rightarrow> heap \<Rightarrow> heap" where
  "put_prev a v h = h(a := map_option (\<lambda>nd. nd\<lparr>node_prev := v\<rparr>) (h a))"

lemma set_next_put: "set_next h a v = (if a \<in> dom h then Done (put_next a v h) else Undefined)"
  by (cases "h a") (auto simp: set_next_def put_next_def)

lemma set_prev_put: "set_prev h a v = (if a \<in> dom h then Done (put_prev a v h) else Undefined)"
  by (cases "h a") (auto simp: set_prev_def put_prev_def)

lemma put_members [simp]:
  "a \<in> dom h \<Longrightarrow> nexts (put_next a v h) = (nexts h)(a \<mapsto> v)" "prevs (put_next a v h) = prevs h"
  "a \<in> dom h \<Longrightarrow> prevs (put_prev a v h) = (prevs h)(a \<mapsto> v)" "nexts (put_prev a v h) = nexts h"
  "dom (put_next a v h) = dom h" "dom (put_prev a v h) = dom h"
  by (cases "h a"; auto simp: put_next_def put_prev_def nexts_def prevs_def split: if_splits)+

lemmas heap_steps = set_next_put set_prev_put get_next_alt get_prev_alt

text \<open>Two nodes that point to each other, and a list of nodes each of which does so with the next.\<close>

fun chain :: "(addr \<rightharpoonup> addr) \<Rightarrow> (addr \<rightharpoonup> addr) \<Rightarrow> addr list \<Rightarrow> bool" where
  "chain N P (a # b # as) \<longleftrightarrow> N a = Some b \<and> P b = Some a \<and> chain N P (b # as)"
| "chain N P as \<longleftrightarrow> True"

lemma chain_append: "chain N P (xs @ p # ys) \<longleftrightarrow> chain N P (xs @ [p]) \<and> chain N P (p # ys)"
proof (induction xs)
  case (Cons x xs)
  then show ?case by (cases xs) auto
qed simp

lemma chain_join:
  "xs \<noteq> [] \<Longrightarrow> ys \<noteq> [] \<Longrightarrow>
     chain N P (xs @ ys) \<longleftrightarrow> chain N P xs \<and> chain N P ys \<and> N (last xs) = Some (hd ys) \<and> P (hd ys) = Some (last xs)"
proof (induction xs)
  case (Cons x xs)
  then show ?case by (cases xs; cases ys) auto
qed simp

lemma chain_cong:
  "\<forall>a\<in>set (butlast as). N a = N' a \<Longrightarrow> \<forall>a\<in>set (tl as). P a = P' a \<Longrightarrow> chain N P as \<longleftrightarrow> chain N' P' as"
  by (induction N P as rule: chain.induct) auto

lemma chain_upd:
  "a \<notin> set (butlast as) \<Longrightarrow> chain (N(a \<mapsto> v)) P as \<longleftrightarrow> chain N P as"
  "a \<notin> set (tl as) \<Longrightarrow> chain N (P(a \<mapsto> v)) as \<longleftrightarrow> chain N P as"
  by (rule chain_cong; force)+

text \<open>A list of nodes that closes: its first and last are the same node, the others differ.\<close>

definition ring :: "(addr \<rightharpoonup> addr) \<Rightarrow> (addr \<rightharpoonup> addr) \<Rightarrow> addr list \<Rightarrow> bool" where
  "ring N P as \<longleftrightarrow> chain N P as \<and> distinct (butlast as) \<and> distinct (tl as)"

text \<open>A ring taken apart behind a node \<open>p\<close>.\<close>

lemma ring_split:
  assumes "ys \<noteq> []"
  shows "ring N P (us @ p # ys) \<longleftrightarrow> chain N P (us @ [p]) \<and> chain N P (p # ys) \<and>
    distinct us \<and> p \<notin> set us \<and> distinct (butlast ys) \<and> p \<notin> set (butlast ys) \<and> set us \<inter> set (butlast ys) = {} \<and>
    distinct (tl (us @ [p])) \<and> distinct ys \<and> set (tl (us @ [p])) \<inter> set ys = {}"
proof -
  have "butlast (us @ p # ys) = us @ p # butlast ys" using assms by (simp add: butlast_append)
  moreover have "tl (us @ p # ys) = tl (us @ [p]) @ ys" by (cases us) simp_all
  moreover have "chain N P (us @ p # ys) \<longleftrightarrow> chain N P (us @ [p]) \<and> chain N P (p # ys)" by (rule chain_append)
  ultimately show ?thesis unfolding ring_def by auto
qed

lemma in_butlast: "a \<in> set (butlast as) \<Longrightarrow> a \<in> set as"
  by (rule in_set_butlastD)

text \<open>Nodes that are linked go in behind \<open>p\<close>.\<close>

lemma ring_splice:
  assumes "ring N P (us @ p # q # vs)" and "chain N P ns" and "ns \<noteq> []" and "distinct ns" and "set ns \<inter> set (us @ p # q # vs) = {}"
  shows "ring (N(last ns \<mapsto> q, p \<mapsto> hd ns)) (P(hd ns \<mapsto> p, q \<mapsto> last ns)) (us @ p # ns @ q # vs)"
proof -
  define B T where "B = butlast (q # vs)" and "T = tl (us @ [p])"
  have B: "set B \<subseteq> set (q # vs)" "set T \<subseteq> set (us @ [p])"
    by (auto simp: B_def T_def dest: in_butlast) (cases us; auto)
  note r = assms(1) [unfolded ring_split [of "q # vs" N P us p, OF list.distinct(2)], folded B_def T_def]
  have bl: "butlast (ns @ q # vs) = ns @ B" by (simp add: B_def butlast_append)
  have up: "butlast (us @ [p]) = us" by simp
  let ?N = "N(last ns \<mapsto> q, p \<mapsto> hd ns)" and ?P = "P(hd ns \<mapsto> p, q \<mapsto> last ns)"
  have ends: "last ns \<in> set ns" "hd ns \<in> set ns" using assms(3) by simp_all
  have inner: "last ns \<notin> set (butlast ns)" "hd ns \<notin> set (tl ns)"
    using assms(3,4) by (metis append_butlast_last_id distinct_append disjoint_insert(1) list.simps(15), metis distinct.simps(2) list.collapse)
  have "chain ?N ?P (us @ [p]) = chain N P (us @ [p])"
    by (rule chain_cong; unfold up T_def [symmetric]) (use r B assms(5) ends in auto)
  moreover have "chain ?N ?P (q # vs) = chain N P (q # vs)"
    by (rule chain_cong; unfold B_def [symmetric] list.sel) (use r B assms(5) ends in auto)
  moreover have "chain ?N ?P ns = chain N P ns"
    by (rule chain_cong) (use assms(5) inner in \<open>auto dest: in_butlast list.set_sel(2) [OF assms(3)]\<close>)
  moreover have n: "p \<noteq> last ns" "q \<noteq> hd ns" "p \<noteq> hd ns" "q \<noteq> last ns" using assms(5) ends by auto
  moreover have "chain ?N ?P (p # ns @ q # vs)"
    using calculation r assms(2,3) chain_join [of "[p]" "ns @ q # vs" ?N ?P] chain_join [of ns "q # vs" ?N ?P] by simp
  moreover have "ns @ q # vs \<noteq> []" by simp
  note ring_split [OF this, of ?N ?P us p]
  ultimately show ?thesis using r B assms(3-5) unfolding bl T_def [symmetric] by auto
qed

lemma ring_insert:
  assumes "ring N P (us @ p # q # vs)" and "n \<notin> set (us @ p # q # vs)"
  shows "ring (N(n \<mapsto> q, p \<mapsto> n)) (P(n \<mapsto> p, q \<mapsto> n)) (us @ p # n # q # vs)"
  using ring_splice [OF assms(1), of "[n]"] assms(2) by auto

lemma ring_remove:
  assumes "ring N P (us @ p # n # q # vs)"
  shows "ring (N(p \<mapsto> q)) (P(q \<mapsto> p)) (us @ p # q # vs)"
proof -
  define B T where "B = butlast (q # vs)" and "T = tl (us @ [p])"
  have B: "set B \<subseteq> set (q # vs)" "set T \<subseteq> set (us @ [p])"
    by (auto simp: B_def T_def dest: in_butlast) (cases us; auto)
  have bl: "butlast (n # q # vs) = n # B" by (simp add: B_def)
  note r = assms(1) [unfolded ring_split [of "n # q # vs" N P us p, OF list.distinct(2)] bl, folded T_def]
  have up: "butlast (us @ [p]) = us" by simp
  let ?N = "N(p \<mapsto> q)" and ?P = "P(q \<mapsto> p)"
  have "chain ?N ?P (us @ [p]) = chain N P (us @ [p])"
    by (rule chain_cong; unfold up T_def [symmetric]) (use r B in auto)
  moreover have "chain ?N ?P (q # vs) = chain N P (q # vs)"
    by (rule chain_cong; unfold B_def [symmetric] list.sel) (use r B in auto)
  ultimately show ?thesis using r B
    unfolding ring_split [of "q # vs" ?N ?P us p, OF list.distinct(2)] B_def [symmetric] T_def [symmetric] by auto
qed

lemma ring_replace:
  assumes "ring N P (us @ p # old # q # vs)" and "n \<notin> set (us @ p # q # vs)"
  shows "ring (N(n \<mapsto> q, p \<mapsto> n)) (P(n \<mapsto> p, q \<mapsto> n)) (us @ p # n # q # vs)"
proof -
  have "n \<noteq> p" "n \<noteq> q" using assms(2) by auto
  then have "(N(p \<mapsto> q))(n \<mapsto> q, p \<mapsto> n) = N(n \<mapsto> q, p \<mapsto> n)" "(P(q \<mapsto> p))(n \<mapsto> p, q \<mapsto> n) = P(n \<mapsto> p, q \<mapsto> n)" by auto
  then show ?thesis using ring_insert [OF ring_remove [OF assms(1)] assms(2)] by simp
qed

lemma ring_edges:
  assumes "ring N P (us @ p # q # vs)"
  shows "N p = Some q" and "P q = Some p"
proof -
  have "chain N P (p # q # vs)" using assms chain_append [of N P us p "q # vs"] by (simp only: ring_def)
  then show "N p = Some q" "P q = Some p" by simp_all
qed

lemma ring_cong:
  "\<forall>a\<in>set as. N a = N' a \<and> P a = P' a \<Longrightarrow> ring N P as \<longleftrightarrow> ring N' P' as"
  unfolding ring_def by (subst chain_cong [of as N N' P P']) (auto dest: in_butlast list.set_sel(2) [rotated], cases as, auto)

lemma ring_last:
  assumes "ring N P (t # xs @ [t])"
  shows "N (last (t # xs)) = Some t" and "P t = Some (last (t # xs))" and "N t = Some (hd (xs @ [t]))" and "P (hd (xs @ [t])) = Some t"
proof -
  show "N t = Some (hd (xs @ [t]))" "P (hd (xs @ [t])) = Some t"
    using ring_edges [of N P "[]" t "hd (xs @ [t])" "tl (xs @ [t])"] assms by simp_all
  have "t # xs @ [t] = butlast (t # xs) @ last (t # xs) # [t]"
    by (metis append_Cons append_butlast_last_id append_Nil append_assoc list.distinct(2))
  then show "N (last (t # xs)) = Some t" "P t = Some (last (t # xs))"
    using ring_edges [of N P "butlast (t # xs)" "last (t # xs)" t "[]"] assms by metis+
qed

section \<open>The operations on lists of nodes\<close>

definition is_list :: "heap \<Rightarrow> addr \<Rightarrow> addr list \<Rightarrow> bool" where
  "is_list h lh xs \<longleftrightarrow> ring (nexts h) (prevs h) (lh # xs @ [lh])"

text \<open>Only nodes of \<open>A\<close> have changed, and no node has appeared or gone.\<close>

definition changes_in :: "addr set \<Rightarrow> heap \<Rightarrow> heap \<Rightarrow> bool" where
  "changes_in A h h' \<longleftrightarrow> dom h' = dom h \<and> (\<forall>a. a \<notin> A \<longrightarrow> h' a = h a)"

lemma changes_in_put [simp]:
  "changes_in A h (put_next a v h') \<longleftrightarrow> changes_in A h h'" if "a \<in> A"
  using that by (auto simp: changes_in_def put_next_def dom_def)

lemma changes_in_put_prev [simp]:
  "changes_in A h (put_prev a v h') \<longleftrightarrow> changes_in A h h'" if "a \<in> A"
  using that by (auto simp: changes_in_def put_prev_def dom_def)

lemma changes_in_refl [simp]: "changes_in A h h"
  by (simp add: changes_in_def)

lemma is_list_frame: "changes_in A h h' \<Longrightarrow> set (lh # xs) \<inter> A = {} \<Longrightarrow> is_list h' lh xs \<longleftrightarrow> is_list h lh xs"
  unfolding is_list_def by (rule ring_cong) (auto simp: changes_in_def nexts_def prevs_def)

lemma heap_edges:
  assumes "ring (nexts h) (prevs h) (us @ p # q # vs)"
  shows "nexts h p = Some q" and "prevs h q = Some p" and "p \<in> dom h" and "q \<in> dom h"
  using ring_edges [OF assms] member_dom by blast+

lemma put_other [simp]: "b \<noteq> a \<Longrightarrow> put_next a v h b = h b" "b \<noteq> a \<Longrightarrow> put_prev a v h b = h b"
  by (simp_all add: put_next_def put_prev_def)

lemma list_add_after_ring:
  assumes "ring (nexts h) (prevs h) (us @ p # q # vs)" and "n \<notin> set (us @ p # q # vs)" and "n \<in> dom h"
  shows "\<exists>h'. list_add_after h lh p n = Done h' \<and> ring (nexts h') (prevs h') (us @ p # n # q # vs) \<and> changes_in {n, p, q} h h'"
proof -
  note e = heap_edges [OF assms(1)]
  have n: "p \<noteq> n" "q \<noteq> n" using assms(2) by auto
  have "list_add_after h lh p n = Done (put_next p n (put_prev q n (put_prev n p (put_next n q h))))"
    using e n assms(3) by (simp add: list_add_after_def heap_steps del: domIff)
  then show ?thesis using ring_insert [OF assms(1,2)] e n assms(3) by (simp del: domIff)
qed

lemma list_add_before_ring:
  assumes "ring (nexts h) (prevs h) (us @ p # q # vs)" and "n \<notin> set (us @ p # q # vs)" and "n \<in> dom h"
  shows "\<exists>h'. list_add_before h lh q n = Done h' \<and> ring (nexts h') (prevs h') (us @ p # n # q # vs) \<and> changes_in {n, p, q} h h'"
proof -
  note e = heap_edges [OF assms(1)]
  have n: "p \<noteq> n" "q \<noteq> n" using assms(2) by auto
  have "list_add_before h lh q n = Done (put_prev q n (put_next p n (put_prev n p (put_next n q h))))"
    using e n assms(3) by (simp add: list_add_before_def heap_steps del: domIff)
  then show ?thesis using ring_insert [OF assms(1,2)] e n assms(3) by (simp add: fun_upd_twist del: domIff)
qed

lemma list_del_ring:
  assumes "ring (nexts h) (prevs h) (us @ p # n # q # vs)" and "n \<noteq> p" and "n \<noteq> q"
  shows "\<exists>h'. list_del h n = Done h' \<and> ring (nexts h') (prevs h') (us @ p # q # vs) \<and> changes_in {p, q} h h' \<and> h' n = h n"
proof -
  note e = heap_edges [OF assms(1)] heap_edges [of h "us @ [p]" n q vs, simplified, OF assms(1)]
  have "list_del h n = Done (put_next p q (put_prev q p h))"
    using e assms(2,3) by (simp add: list_del_def heap_steps del: domIff)
  then show ?thesis using ring_remove [OF assms(1)] e assms(2,3) by (simp del: domIff)
qed

lemma list_swap_ring:
  assumes "ring (nexts h) (prevs h) (us @ p # old # q # vs)" and "n \<notin> set (us @ p # old # q # vs)" and "n \<in> dom h"
    and "old \<noteq> p" and "old \<noteq> q"
  shows "\<exists>h'. list_swap h old n = Done h' \<and> ring (nexts h') (prevs h') (us @ p # n # q # vs) \<and> changes_in {n, p, q} h h'"
proof -
  note e = heap_edges [OF assms(1)] heap_edges [of h "us @ [p]" old q vs, simplified, OF assms(1)]
  have n: "p \<noteq> n" "q \<noteq> n" "old \<noteq> n" using assms(2) by auto
  have "list_swap h old n = Done (put_next p n (put_prev q n (put_prev n p (put_next n q h))))"
    using e n assms(3-5) by (simp add: list_swap_def heap_steps del: domIff)
  then show ?thesis using ring_replace [OF assms(1), of n] assms(2) e n assms(3) by (simp del: domIff)
qed

text \<open>On lists: where a node goes in or out, as a split of the list.\<close>

lemma is_list_nodes: "is_list h lh xs \<Longrightarrow> distinct (lh # xs)"
  by (simp add: is_list_def ring_def butlast_append)

text \<open>The nodes around a gap of a list.\<close>

lemma list_gap:
  obtains bs p q cs where "last (lh # us) = p" and "hd (vs @ [lh]) = q"
    and "\<And>h ws. is_list h lh (us @ ws @ vs) \<longleftrightarrow> ring (nexts h) (prevs h) (bs @ p # ws @ q # cs)"
    and "set (bs @ p # q # cs) = set (lh # us @ vs)"
proof -
  obtain bs p where l: "lh # us = bs @ [p]" by (metis append_butlast_last_id list.distinct(2))
  obtain q cs where r: "vs @ [lh] = q # cs" by (cases "vs @ [lh]") auto
  show ?thesis
  proof (rule that)
    show "last (lh # us) = p" "hd (vs @ [lh]) = q" unfolding l r by simp_all
    show "is_list h lh (us @ ws @ vs) \<longleftrightarrow> ring (nexts h) (prevs h) (bs @ p # ws @ q # cs)" for h ws
    proof -
      have "lh # (us @ ws @ vs) @ [lh] = (lh # us) @ ws @ (vs @ [lh])" by simp
      then show ?thesis unfolding is_list_def l r by simp
    qed
    have "set (bs @ p # q # cs) = set (lh # us) \<union> set (vs @ [lh])" unfolding l r by auto
    then show "set (bs @ p # q # cs) = set (lh # us @ vs)" by auto
  qed
qed

lemma list_add_after_list:
  assumes "is_list h lh (us @ vs)" and "n \<notin> set (lh # us @ vs)" and "n \<in> dom h"
  shows "\<exists>h'. list_add_after h lh' (last (lh # us)) n = Done h' \<and> is_list h' lh (us @ n # vs) \<and> changes_in (set (lh # n # us @ vs)) h h'"
proof -
  obtain p q bs cs where g: "last (lh # us) = p" "hd (vs @ [lh]) = q"
      "\<And>h ws. is_list h lh (us @ ws @ vs) \<longleftrightarrow> ring (nexts h) (prevs h) (bs @ p # ws @ q # cs)"
      "set (bs @ p # q # cs) = set (lh # us @ vs)"
    by (rule list_gap [of lh us vs], rule that) assumption+
  have "ring (nexts h) (prevs h) (bs @ p # q # cs)" using assms(1) g(3) [of h "[]"] by simp
  from list_add_after_ring [OF this, of n lh'] obtain h' where
    "list_add_after h lh' p n = Done h'" "ring (nexts h') (prevs h') (bs @ p # [n] @ q # cs)" "changes_in {n, p, q} h h'"
    using assms(2,3) g(4) by (auto simp del: domIff)
  moreover have "{n, p, q} \<subseteq> set (lh # n # us @ vs)" using g(4) by auto
  ultimately show ?thesis unfolding g(3) [symmetric] g(1) by (auto simp: changes_in_def)
qed

lemma list_add_before_list:
  assumes "is_list h lh (us @ vs)" and "n \<notin> set (lh # us @ vs)" and "n \<in> dom h"
  shows "\<exists>h'. list_add_before h lh' (hd (vs @ [lh])) n = Done h' \<and> is_list h' lh (us @ n # vs) \<and> changes_in (set (lh # n # us @ vs)) h h'"
proof -
  obtain p q bs cs where g: "last (lh # us) = p" "hd (vs @ [lh]) = q"
      "\<And>h ws. is_list h lh (us @ ws @ vs) \<longleftrightarrow> ring (nexts h) (prevs h) (bs @ p # ws @ q # cs)"
      "set (bs @ p # q # cs) = set (lh # us @ vs)"
    by (rule list_gap [of lh us vs], rule that) assumption+
  have "ring (nexts h) (prevs h) (bs @ p # q # cs)" using assms(1) g(3) [of h "[]"] by simp
  from list_add_before_ring [OF this, of n lh'] obtain h' where
    "list_add_before h lh' q n = Done h'" "ring (nexts h') (prevs h') (bs @ p # [n] @ q # cs)" "changes_in {n, p, q} h h'"
    using assms(2,3) g(4) by (auto simp del: domIff)
  moreover have "{n, p, q} \<subseteq> set (lh # n # us @ vs)" using g(4) by auto
  ultimately show ?thesis unfolding g(3) [symmetric] g(2) by (auto simp: changes_in_def)
qed

lemma list_del_list:
  assumes "is_list h lh (us @ n # vs)"
  shows "\<exists>h'. list_del h n = Done h' \<and> is_list h' lh (us @ vs) \<and> changes_in (set (lh # us @ vs)) h h' \<and> h' n = h n"
proof -
  obtain p q bs cs where g: "last (lh # us) = p" "hd (vs @ [lh]) = q"
      "\<And>h ws. is_list h lh (us @ ws @ vs) \<longleftrightarrow> ring (nexts h) (prevs h) (bs @ p # ws @ q # cs)"
      "set (bs @ p # q # cs) = set (lh # us @ vs)"
    by (rule list_gap [of lh us vs], rule that) assumption+
  have r: "ring (nexts h) (prevs h) (bs @ p # n # q # cs)" using assms(1) g(3) [of h "[n]"] by simp
  have n: "n \<noteq> p" "n \<noteq> q" using is_list_nodes [OF assms] g(4) by auto
  from list_del_ring [OF r n] obtain h' where
    "list_del h n = Done h'" "ring (nexts h') (prevs h') (bs @ p # [] @ q # cs)" "changes_in {p, q} h h'" "h' n = h n"
    by auto
  moreover have "{p, q} \<subseteq> set (lh # us @ vs)" using g(4) by auto
  ultimately show ?thesis unfolding g(3) [symmetric] by (auto simp: changes_in_def)
qed

lemma list_swap_list:
  assumes "is_list h lh (us @ old # vs)" and "n \<notin> set (lh # us @ old # vs)" and "n \<in> dom h"
  shows "\<exists>h'. list_swap h old n = Done h' \<and> is_list h' lh (us @ n # vs) \<and> changes_in (set (lh # n # us @ vs)) h h'"
proof -
  obtain p q bs cs where g: "last (lh # us) = p" "hd (vs @ [lh]) = q"
      "\<And>h ws. is_list h lh (us @ ws @ vs) \<longleftrightarrow> ring (nexts h) (prevs h) (bs @ p # ws @ q # cs)"
      "set (bs @ p # q # cs) = set (lh # us @ vs)"
    by (rule list_gap [of lh us vs], rule that) assumption+
  have r: "ring (nexts h) (prevs h) (bs @ p # old # q # cs)" using assms(1) g(3) [of h "[old]"] by simp
  have n: "old \<noteq> p" "old \<noteq> q" using is_list_nodes [OF assms(1)] g(4) by auto
  from list_swap_ring [OF r _ assms(3) n] obtain h' where
    "list_swap h old n = Done h'" "ring (nexts h') (prevs h') (bs @ p # [n] @ q # cs)" "changes_in {n, p, q} h h'"
    using assms(2) g(4) by auto
  moreover have "{n, p, q} \<subseteq> set (lh # n # us @ vs)" using g(4) by auto
  ultimately show ?thesis unfolding g(3) [symmetric] by (auto simp: changes_in_def)
qed

lemma is_list_ends:
  assumes "is_list h lh xs"
  shows "get_next h lh = Done (hd (xs @ [lh]))" and "get_prev h lh = Done (last (lh # xs))" and "set (lh # xs) \<subseteq> dom h"
    and "get_next h (last (lh # xs)) = Done lh" and "get_prev h (hd (xs @ [lh])) = Done lh"
proof -
  note r = assms [unfolded is_list_def]
  show "get_next h lh = Done (hd (xs @ [lh]))" "get_prev h lh = Done (last (lh # xs))"
      "get_next h (last (lh # xs)) = Done lh" "get_prev h (hd (xs @ [lh])) = Done lh"
    using ring_last [OF r] by (simp_all add: get_next_alt get_prev_alt)
  show "set (lh # xs) \<subseteq> dom h"
  proof
    fix n assume "n \<in> set (lh # xs)"
    then obtain us vs where s: "lh # xs = us @ n # vs" by (metis split_list)
    then have "lh # xs @ [lh] = us @ n # hd (vs @ [lh]) # tl (vs @ [lh])" by (metis append.assoc append_Cons hd_Cons_tl snoc_eq_iff_butlast)
    then show "n \<in> dom h" using heap_edges(3) [of h us n] r by metis
  qed
qed

lemma list_head_init_list:
  assumes "lh \<in> dom h"
  shows "\<exists>h'. list_head_init h lh = Done h' \<and> is_list h' lh [] \<and> changes_in {lh} h h'"
  using assms by (auto simp: list_head_init_def heap_steps is_list_def ring_def simp del: domIff)

lemma list_empty_list:
  assumes "is_list h lh xs"
  shows "list_empty h lh = Done (xs = [])"
  using is_list_ends(1) [OF assms] is_list_nodes [OF assms] by (cases xs) (auto simp: list_empty_def)

lemma list_top_list:
  assumes "is_list h lh xs"
  shows "list_top h lh off = Done (if xs = [] then 0 else hd xs - off)" and "list_tail h lh off = Done (if xs = [] then 0 else last xs - off)"
  using list_empty_list [OF assms] is_list_ends(1,2) [OF assms] by (auto simp: list_top_def list_tail_def)

lemma list_pop_list:
  assumes "is_list h lh (x # xs)"
  shows "\<exists>h'. list_pop h lh off = Done (x - off, h') \<and> is_list h' lh xs \<and> changes_in (set (lh # xs)) h h'"
  using list_empty_list [OF assms] is_list_ends(1) [OF assms] list_del_list [of h lh "[]" x xs] assms
  by (auto simp: list_pop_def)

lemma list_step_list:
  assumes "is_list h lh (us @ n # vs)"
  shows "get_next h n = Done (hd (vs @ [lh]))" and "get_prev h n = Done (last (lh # us))"
proof -
  obtain p q bs cs where g: "last (lh # us) = p" "hd (vs @ [lh]) = q"
      "\<And>h ws. is_list h lh (us @ ws @ vs) \<longleftrightarrow> ring (nexts h) (prevs h) (bs @ p # ws @ q # cs)"
      "set (bs @ p # q # cs) = set (lh # us @ vs)"
    by (rule list_gap [of lh us vs], rule that) assumption+
  have r: "ring (nexts h) (prevs h) (bs @ p # n # q # cs)" using assms(1) g(3) [of h "[n]"] by simp
  show "get_next h n = Done (hd (vs @ [lh]))" "get_prev h n = Done (last (lh # us))"
    unfolding g(1,2) using heap_edges [OF r] heap_edges [of h "bs @ [p]" n q cs] r by (simp_all add: get_next_alt get_prev_alt)
qed

text \<open>Splicing: the nodes of one list, its head included, go into a gap of another; then the head goes.\<close>

lemma splice_list:
  assumes "is_list h4 to (us @ from # ys @ vs)" and "from \<in> dom h4"
  shows "\<exists>h'. bind_outcome (list_del h4 from) (\<lambda>h. list_head_init h from) = Done h' \<and>
    is_list h' to (us @ ys @ vs) \<and> is_list h' from [] \<and> changes_in (set (to # us @ from # ys @ vs)) h4 h'"
proof -
  obtain h5 where 5: "list_del h4 from = Done h5" "is_list h5 to (us @ ys @ vs)" "changes_in (set (to # us @ ys @ vs)) h4 h5"
    using list_del_list [OF assms(1)] by auto
  have "from \<in> dom h5" using assms(2) 5(3) by (simp add: changes_in_def)
  then obtain h6 where 6: "list_head_init h5 from = Done h6" "is_list h6 from []" "changes_in {from} h5 h6"
    using list_head_init_list by blast
  have "is_list h6 to (us @ ys @ vs)"
    using is_list_frame [OF 6(3), of to "us @ ys @ vs"] 5(2) is_list_nodes [OF assms(1)] by auto
  then show ?thesis using 5 6 by (auto simp: changes_in_def)
qed

lemma splice_maps:
  assumes "is_list h to (us @ vs)" and "is_list h from ys" and "set (to # us @ vs) \<inter> set (from # ys) = {}"
    and "nexts h' = (nexts h)(last (from # ys) \<mapsto> hd (vs @ [to]), last (to # us) \<mapsto> from)"
    and "prevs h' = (prevs h)(from \<mapsto> last (to # us), hd (vs @ [to]) \<mapsto> last (from # ys))"
  shows "is_list h' to (us @ from # ys @ vs)"
proof -
  obtain p q bs cs where g: "last (to # us) = p" "hd (vs @ [to]) = q"
      "\<And>h ws. is_list h to (us @ ws @ vs) \<longleftrightarrow> ring (nexts h) (prevs h) (bs @ p # ws @ q # cs)"
      "set (bs @ p # q # cs) = set (to # us @ vs)"
    by (rule list_gap [of to us vs], rule that) assumption+
  have r: "ring (nexts h) (prevs h) (bs @ p # q # cs)" using assms(1) g(3) [of h "[]"] by simp
  have c: "chain (nexts h) (prevs h) (from # ys)" "distinct (from # ys)"
    using assms(2) is_list_nodes [OF assms(2)] chain_join [of "from # ys" "[from]" "nexts h" "prevs h"] by (simp_all add: is_list_def ring_def)
  have "set (from # ys) \<inter> set (bs @ p # q # cs) = {}" using assms(3) unfolding g(4) by auto
  from ring_splice [OF r c(1) list.distinct(2) c(2) this] have "is_list h' to (us @ (from # ys) @ vs)"
    unfolding g(3) assms(4,5) g(1,2) by simp
  then show ?thesis by simp
qed

lemma list_append_list_list:
  assumes "is_list h to xs" and "is_list h from ys" and "set (to # xs) \<inter> set (from # ys) = {}"
  shows "\<exists>h'. list_append_list h to from = Done h' \<and> is_list h' to (xs @ ys) \<and> is_list h' from [] \<and>
    changes_in (set (to # xs) \<union> set (from # ys)) h h'"
proof -
  define a b where "a = last (to # xs)" and "b = last (from # ys)"
  note e1 = is_list_ends [OF assms(1), folded a_def] and e2 = is_list_ends [OF assms(2), folded b_def]
  have ab: "a \<in> set (to # xs)" "b \<in> set (from # ys)" unfolding a_def b_def by (rule last_in_set; simp)+
  then have dom: "to \<in> dom h" "from \<in> dom h" "a \<in> dom h" "b \<in> dom h" using e1(3) e2(3) by auto
  have ne: "a \<noteq> b" "to \<noteq> from" "a \<noteq> from" "b \<noteq> to" using ab assms(3) by auto
  define h4 where "h4 = put_prev from a (put_next a from (put_next b to (put_prev to b h)))"
  have "is_list h4 to (xs @ from # ys @ [])"
    by (rule splice_maps [of h to xs "[]" "from" ys])
      (use assms dom ne in \<open>simp_all add: h4_def a_def [symmetric] b_def [symmetric] fun_upd_twist del: domIff last.simps\<close>)
  moreover have "from \<in> dom h4" using dom by (simp add: h4_def del: domIff)
  ultimately obtain h' where h': "bind_outcome (list_del h4 from) (\<lambda>h. list_head_init h from) = Done h'" "is_list h' to (xs @ ys)"
      "is_list h' from []" "changes_in (set (to # xs @ from # ys)) h4 h'"
    using splice_list [of h4 to xs "from" ys "[]"] by auto
  have "list_append_list h to from = Done h'"
    using e1 e2 dom ne h'(1) by (simp add: list_append_list_def heap_steps h4_def del: domIff)
  moreover have "changes_in (set (to # xs) \<union> set (from # ys)) h h4" using ab unfolding h4_def by auto
  ultimately show ?thesis using h' by (auto simp: changes_in_def)
qed

lemma list_prepend_list_list:
  assumes "is_list h to xs" and "is_list h from ys" and "set (to # xs) \<inter> set (from # ys) = {}"
  shows "\<exists>h'. list_prepend_list h to from = Done h' \<and> is_list h' to (ys @ xs) \<and> is_list h' from [] \<and>
    changes_in (set (to # xs) \<union> set (from # ys)) h h'"
proof -
  define a b where "a = hd (xs @ [to])" and "b = last (from # ys)"
  note e1 = is_list_ends [OF assms(1), folded a_def] and e2 = is_list_ends [OF assms(2), folded b_def]
  have ab: "a \<in> set (to # xs)" "b \<in> set (from # ys)" unfolding a_def b_def by (cases xs; simp) (rule last_in_set; simp)
  then have dom: "to \<in> dom h" "from \<in> dom h" "a \<in> dom h" "b \<in> dom h" using e1(3) e2(3) by auto
  have ne: "a \<noteq> b" "to \<noteq> from" "a \<noteq> from" "b \<noteq> to" using ab assms(3) by auto
  define h4 where "h4 = put_next b a (put_prev a b (put_prev from to (put_next to from h)))"
  have "is_list h4 to ([] @ from # ys @ xs)"
    by (rule splice_maps [of h to "[]" xs "from" ys])
      (use assms dom ne in \<open>simp_all add: h4_def a_def [symmetric] b_def [symmetric] fun_upd_twist last_ConsL del: domIff last.simps\<close>)
  moreover have "from \<in> dom h4" using dom by (simp add: h4_def del: domIff)
  ultimately obtain h' where h': "bind_outcome (list_del h4 from) (\<lambda>h. list_head_init h from) = Done h'" "is_list h' to (ys @ xs)"
      "is_list h' from []" "changes_in (set (to # from # ys @ xs)) h4 h'"
    using splice_list [of h4 to "[]" "from" ys xs] by auto
  have "list_prepend_list h to from = Done h'"
    using e1 e2 dom ne h'(1) by (simp add: list_prepend_list_def heap_steps h4_def del: domIff)
  moreover have "changes_in (set (to # xs) \<union> set (from # ys)) h h4" using ab unfolding h4_def by auto
  ultimately show ?thesis using h' by (auto simp: changes_in_def)
qed

section \<open>Checking a list\<close>

text \<open>The nodes seen so far, up to \<open>p\<close>, are linked both ways and differ; so the loop ends.\<close>

lemma chain_prev_inj:
  assumes "chain N P (us @ [p])" and "distinct (us @ [p])" and "n \<in> set (us @ [p])" and "n \<noteq> hd (us @ [p])" and "P n = Some p"
  shows False
proof -
  obtain as bs where s: "us @ [p] = as @ n # bs" using assms(3) by (metis split_list)
  have "as \<noteq> []" using assms(4) s by (cases as) auto
  then have "P n = Some (last as)" using assms(1) chain_join [of as "n # bs" N P] unfolding s by simp
  then have "p \<in> set as" using assms(5) \<open>as \<noteq> []\<close> by (metis last_in_set option.inject)
  moreover have "p = last (n # bs)" using s by (metis last_append last_snoc list.distinct(1))
  ultimately show False using assms(2) unfolding s by (metis IntI distinct_append empty_iff last_in_set list.distinct(1))
qed

text \<open>A chain from the head follows the list.\<close>

lemma chain_follows:
  assumes "is_list h lh xs" and "chain (nexts h) P (us @ [p])" and "hd (us @ [p]) = lh" and "distinct (us @ [p])"
  shows "\<exists>vs. lh # xs = us @ p # vs"
  using assms(2-4)
proof (induction us arbitrary: p rule: rev_induct)
  case (snoc q us)
  have "chain (nexts h) P (us @ [q])" "nexts h q = Some p"
    using snoc.prems(1) chain_append [of "nexts h" P us q "[p]"] by simp_all
  moreover have "hd (us @ [q]) = lh" using snoc.prems(2) by (cases us) simp_all
  ultimately obtain vs where vs: "lh # xs = us @ q # vs" using snoc.IH [of q] snoc.prems(3) by auto
  have "lh # xs @ [lh] = us @ q # hd (vs @ [lh]) # tl (vs @ [lh])" using vs by (metis append.assoc append_Cons hd_Cons_tl snoc_eq_iff_butlast)
  then have "nexts h q = Some (hd (vs @ [lh]))" using heap_edges(1) assms(1) unfolding is_list_def by metis
  then have p: "p = hd (vs @ [lh])" using \<open>nexts h q = Some p\<close> by simp
  have "p \<noteq> lh" using snoc.prems(2,3) by (cases us) auto
  then show ?case using vs p by (cases vs) auto
qed auto

lemma list_check_follows:
  assumes "is_list h node xs" and "chain (nexts h) (prevs h) (us @ [p])" and "hd (us @ [p]) = node" and "distinct (us @ [p])"
    and "nexts h p = Some n"
  shows "prevs h n = Some p"
proof -
  obtain vs where vs: "node # xs = us @ p # vs" using chain_follows [OF assms(1-4)] by blast
  have "node # xs @ [node] = us @ p # hd (vs @ [node]) # tl (vs @ [node])" using vs by (metis append.assoc append_Cons hd_Cons_tl snoc_eq_iff_butlast)
  then show ?thesis using heap_edges(1,2) assms(1,5) unfolding is_list_def by (metis option.inject)
qed

lemma check_node_loop_result:
  assumes "card (dom h) < 2 ^ 31" and "distinct (us @ [p])" and "hd (us @ [p]) = node" and "chain (nexts h) (prevs h) (us @ [p])"
    and "nexts h p = Some n" and "set (us @ [p]) \<subseteq> dom h" and "count = int (length us)"
  shows "\<exists>r. check_node_loop h s node p n count = Some r \<and>
    ((\<exists>xs. is_list h node xs) \<and> r = Done node \<or> (\<nexists>xs. is_list h node xs) \<and> r \<in> {Undefined, corrupt s})"
  using assms(2-)
proof (induction "card (dom h) - length us" arbitrary: us p n count rule: less_induct)
  case less
  have "card (set (us @ [p])) \<le> card (dom h)" using less.prems(5) by (intro card_mono) simp_all
  then have len: "length us < card (dom h)" using less.prems(1) by (simp only: distinct_card) simp
  note loop = check_node_loop.simps [of h s node p n count]
  have no: "prevs h n \<noteq> Some p \<Longrightarrow> \<nexists>xs. is_list h node xs"
    using list_check_follows [OF _ less.prems(3,2,1,4)] by blast
  have node: "node \<in> dom h" using less.prems(2,5) by (cases us) auto
  show ?case
  proof (cases "n = node")
    case True
    show ?thesis
    proof (cases "prevs h node = Some p")
      case linked: True
      obtain xs where xs: "us @ [p] = node # xs" using less.prems(2) by (cases "us @ [p]") auto
      have "chain (nexts h) (prevs h) ((us @ [p]) @ [node])"
        using chain_join [of "us @ [p]" "[node]" "nexts h" "prevs h"] less.prems(3,4) True linked by simp
      moreover have "distinct (node # xs)" using less.prems(1) unfolding xs .
      ultimately have "is_list h node xs" unfolding xs by (simp add: is_list_def ring_def butlast_append)
      then show ?thesis using loop True linked by (auto simp: get_prev_alt)
    next
      case False
      then show ?thesis using no loop True by (auto simp: get_prev_alt split: option.split)
    qed
  next
    case False
    have c: "count \<noteq> 2 ^ 31 - 1" using len assms(1) less.prems(6) by simp
    show ?thesis
    proof (cases "prevs h n = Some p")
      case linked: True
      then have "n \<in> dom h" by (rule member_dom)
      then obtain n' where n': "nexts h n = Some n'" by (auto simp: nexts_def)
      have "n \<notin> set (us @ [p])" using chain_prev_inj [OF less.prems(3,1) _ _ linked] False less.prems(2) by blast
      moreover have "chain (nexts h) (prevs h) ((us @ [p]) @ [n])"
        using chain_join [of "us @ [p]" "[n]" "nexts h" "prevs h"] less.prems(3,4) linked by simp
      ultimately have "\<exists>r. check_node_loop h s node n n' (count + 1) = Some r \<and>
          ((\<exists>xs. is_list h node xs) \<and> r = Done node \<or> (\<nexists>xs. is_list h node xs) \<and> r \<in> {Undefined, corrupt s})"
        using less.prems(1,2,5,6) n' \<open>n \<in> dom h\<close> len by (intro less.hyps [of "us @ [p]"]) (auto simp: hd_append)
      then show ?thesis using loop False c linked n' by (simp add: get_prev_alt get_next_alt)
    next
      case False
      then show ?thesis using no loop \<open>n \<noteq> node\<close> c by (auto simp: get_prev_alt split: option.split)
    qed
  qed
qed

lemma list_check_node_result:
  assumes "card (dom h) < 2 ^ 31"
  shows "\<exists>r. list_check_node h node s = Some r \<and>
    ((\<exists>xs. is_list h node xs) \<and> r = Done node \<or> (\<nexists>xs. is_list h node xs) \<and> r \<in> {Undefined, corrupt s})"
proof (cases "nexts h node")
  case None
  have "\<not> is_list h node xs" for xs using is_list_ends(1) [of h node xs] None by (auto simp: get_next_alt)
  then show ?thesis using None by (simp add: list_check_node_def get_next_alt)
next
  case (Some n)
  then show ?thesis using check_node_loop_result [OF assms, of "[]" node node n 0 s] member_dom(1) [OF Some]
    by (simp add: list_check_node_def get_next_alt del: domIff)
qed

section \<open>Iteration\<close>

text \<open>A body that leaves the heap alone is folded over the entries, in the direction of the loop.\<close>

lemma for_each_loop_next:
  "is_list h lh (us @ vs) \<Longrightarrow> (\<And>i st. body i (h, st) = Done (h, f i st)) \<Longrightarrow>
     for_each_loop get_next body lh off (hd (vs @ [lh]) - off) (h, st) = Some (Done (h, fold (\<lambda>n. f (n - off)) vs st))"
proof (induction vs arbitrary: us st)
  case Nil
  then show ?case by (simp add: for_each_loop.simps [of get_next] list_node_from_off_def)
next
  case (Cons v vs)
  have "v \<noteq> lh" using is_list_nodes [OF Cons.prems(1)] by auto
  then show ?case using list_step_list(1) [OF Cons.prems(1)] Cons.IH [of "us @ [v]"] Cons.prems
    by (simp add: for_each_loop.simps [of get_next _ _ _ "v - off"] list_node_from_off_def list_node_to_off_def)
qed

lemma for_each_loop_prev:
  "is_list h lh (us @ vs) \<Longrightarrow> (\<And>i st. body i (h, st) = Done (h, f i st)) \<Longrightarrow>
     for_each_loop get_prev body lh off (last (lh # us) - off) (h, st) = Some (Done (h, fold (\<lambda>n. f (n - off)) (rev us) st))"
proof (induction us arbitrary: vs st rule: rev_induct)
  case Nil
  then show ?case by (simp add: for_each_loop.simps [of get_prev] list_node_from_off_def)
next
  case (snoc v us)
  have "v \<noteq> lh" "last (lh # us @ [v]) = v" using is_list_nodes [OF snoc.prems(1)] by auto
  then show ?case using list_step_list(2) [of h lh us v vs] snoc.IH [of "v # vs"] snoc.prems
    by (simp add: for_each_loop.simps [of get_prev _ _ _ "v - off"] list_node_from_off_def list_node_to_off_def del: last.simps)
qed

text \<open>The body of the safe loop may delete the entry it is given.\<close>

lemma for_each_safe_loop_delete:
  assumes "\<And>i h st. body i (h, st) = bind_outcome (list_del h (i + off)) (\<lambda>h. Done (h, f i st))"
  shows "is_list h lh (x # xs) \<Longrightarrow>
     \<exists>h'. for_each_safe_loop get_next body lh off (x - off) (hd (xs @ [lh]) - off) (h, st) = Some (Done (h', fold (\<lambda>n. f (n - off)) (x # xs) st)) \<and>
       is_list h' lh []"
proof (induction xs arbitrary: h x st)
  case Nil
  obtain h' where h': "list_del h x = Done h'" "is_list h' lh []" using list_del_list [of h lh "[]" x "[]"] Nil by auto
  have "x \<noteq> lh" using is_list_nodes [OF Nil] by simp
  then show ?case using h' is_list_ends(1) [OF h'(2)]
    by (simp add: for_each_safe_loop.simps [of get_next] list_node_from_off_def list_node_to_off_def assms)
next
  case (Cons y ys)
  obtain h' where h': "list_del h x = Done h'" "is_list h' lh (y # ys)" using list_del_list [of h lh "[]" x "y # ys"] Cons.prems by auto
  have "x \<noteq> lh" using is_list_nodes [OF Cons.prems] by auto
  then show ?case using h' list_step_list(1) [of h' lh "[]" y ys] Cons.IH [OF h'(2)]
    by (simp add: for_each_safe_loop.simps [of get_next _ _ _ "x - off"] list_node_from_off_def list_node_to_off_def assms)
qed

lemma list_for_each_safe_delete:
  assumes "\<And>i h st. body i (h, st) = bind_outcome (list_del h (i + off)) (\<lambda>h. Done (h, f i st))" and "is_list h lh xs"
  shows "\<exists>h'. list_for_each_safe_off_dir get_next body lh off (h, st) = Some (Done (h', fold (\<lambda>n. f (n - off)) xs st)) \<and> is_list h' lh []"
proof (cases xs)
  case Nil
  then show ?thesis using assms(2) is_list_ends(1) [OF assms(2)]
    by (simp add: list_for_each_safe_off_dir_def for_each_safe_loop.simps [of get_next] list_node_from_off_def list_node_to_off_def)
next
  case (Cons y ys)
  then show ?thesis
    using is_list_ends(1) [OF assms(2)] list_step_list(1) [of h lh "[]" y ys] assms(2) for_each_safe_loop_delete [OF assms(1), of h lh y ys st]
    by (simp add: list_for_each_safe_off_dir_def list_node_to_off_def)
qed

section \<open>Draining a list\<close>

text \<open>What \<open>tal.c\<close> relies on: the loop \<open>while ((i = list_top (...))) { list_del (\&i->list); ... }\<close>
  ends, having met every node in order.  The interface is the three laws it needs.\<close>

partial_function (option) drain ::
  "('h \<Rightarrow> addr \<Rightarrow> addr outcome) \<Rightarrow> ('h \<Rightarrow> addr \<Rightarrow> 'h outcome) \<Rightarrow> addr \<Rightarrow> 'h \<Rightarrow> ('h \<times> addr list) outcome option" where
  "drain peek del lh h =
     (case peek h lh of Abort \<Rightarrow> Some Abort | Undefined \<Rightarrow> Some Undefined
      | Done i \<Rightarrow> if i = 0 then Some (Done (h, []))
        else (case del h i of Abort \<Rightarrow> Some Abort | Undefined \<Rightarrow> Some Undefined
          | Done h \<Rightarrow> Option.bind (drain peek del lh h) (\<lambda>r. Some (bind_outcome r (\<lambda>(h, is). Done (h, i # is))))))"

locale node_sequence =
  fixes rep :: "'h \<Rightarrow> addr \<Rightarrow> addr list \<Rightarrow> bool"
    and peek :: "'h \<Rightarrow> addr \<Rightarrow> addr outcome"
    and del :: "'h \<Rightarrow> addr \<Rightarrow> 'h outcome"
  assumes peek_empty: "rep h lh [] \<Longrightarrow> peek h lh = Done 0"
    and peek_first: "rep h lh (x # xs) \<Longrightarrow> peek h lh = Done x \<and> x \<noteq> 0"
    and del_first: "rep h lh (x # xs) \<Longrightarrow> \<exists>h'. del h x = Done h' \<and> rep h' lh xs"
begin

lemma drain_all: "rep h lh xs \<Longrightarrow> \<exists>h'. drain peek del lh h = Some (Done (h', xs)) \<and> rep h' lh []"
proof (induction xs arbitrary: h)
  case Nil
  then show ?case by (simp add: drain.simps [of peek del lh h] peek_empty)
next
  case (Cons x xs)
  obtain h1 where h1: "del h x = Done h1" "rep h1 lh xs" using del_first [OF Cons.prems] by blast
  then show ?case using Cons.IH [OF h1(2)] peek_first [OF Cons.prems] by (auto simp: drain.simps [of peek del lh h])
qed

end

definition proper_list :: "heap \<Rightarrow> addr \<Rightarrow> addr list \<Rightarrow> bool" where
  "proper_list h lh xs \<longleftrightarrow> is_list h lh xs \<and> 0 \<notin> set xs"

interpretation nodes: node_sequence proper_list "\<lambda>h lh. list_top h lh 0" list_del
proof
  fix h lh x xs
  show "proper_list h lh [] \<Longrightarrow> list_top h lh 0 = Done 0" by (simp add: proper_list_def list_top_list)
  show "proper_list h lh (x # xs) \<Longrightarrow> list_top h lh 0 = Done x \<and> x \<noteq> 0" by (auto simp: proper_list_def list_top_list)
  show "proper_list h lh (x # xs) \<Longrightarrow> \<exists>h'. list_del h x = Done h' \<and> proper_list h' lh xs"
    using list_del_list [of h lh "[]" x xs] by (auto simp: proper_list_def)
qed

section \<open>The properties of the lists\<close>

text \<open>The operations at a node of a list.\<close>

lemma list_at_node:
  assumes "is_list h lh (us @ x # vs)" and "n \<notin> set (lh # us @ x # vs)" and "n \<in> dom h"
  shows "(\<exists>h'. list_add_after h lh x n = Done h' \<and> is_list h' lh (us @ x # n # vs)) \<and>
    (\<exists>h'. list_add_before h lh x n = Done h' \<and> is_list h' lh (us @ n # x # vs)) \<and>
    (\<exists>h'. list_del_from h lh x = Done h' \<and> is_list h' lh (us @ vs)) \<and>
    (\<exists>h'. list_del_init h x = Done h' \<and> is_list h' lh (us @ vs) \<and> is_list h' x []) \<and>
    (\<exists>h'. list_swap h x n = Done h' \<and> is_list h' lh (us @ n # vs)) \<and>
    list_next h lh (x - off) off = Done (if vs = [] then 0 else hd vs - off) \<and>
    list_prev h lh (x - off) off = Done (if us = [] then 0 else last us - off)"
proof (intro conjI)
  note a = assms(1) and d = is_list_nodes [OF assms(1)]
  show "\<exists>h'. list_add_after h lh x n = Done h' \<and> is_list h' lh (us @ x # n # vs)"
    using list_add_after_list [of h lh "us @ [x]" vs n lh] assms by auto
  show "\<exists>h'. list_add_before h lh x n = Done h' \<and> is_list h' lh (us @ n # x # vs)"
    using list_add_before_list [of h lh us "x # vs" n lh] assms by auto
  obtain h1 where h1: "list_del h x = Done h1" "is_list h1 lh (us @ vs)" "changes_in (set (lh # us @ vs)) h h1"
    using list_del_list [OF a] by blast
  then show "\<exists>h'. list_del_from h lh x = Done h' \<and> is_list h' lh (us @ vs)"
    using list_empty_list [OF a] by (simp add: list_del_from_def)
  have "x \<in> dom h1" using h1(3) is_list_ends(3) [OF a] by (auto simp: changes_in_def)
  then obtain h2 where h2: "list_head_init h1 x = Done h2" "is_list h2 x []" "changes_in {x} h1 h2" using list_head_init_list by blast
  then show "\<exists>h'. list_del_init h x = Done h' \<and> is_list h' lh (us @ vs) \<and> is_list h' x []"
    using h1 is_list_frame [OF h2(3), of lh "us @ vs"] d by (auto simp: list_del_init_def list_node_init_def list_head_init_def)
  show "\<exists>h'. list_swap h x n = Done h' \<and> is_list h' lh (us @ n # vs)"
    using list_swap_list [OF a] assms(2,3) by blast
  show "list_next h lh (x - off) off = Done (if vs = [] then 0 else hd vs - off)"
    using list_step_list(1) [OF a] d by (cases vs) (auto simp: list_next_def list_entry_or_null_def)
  show "list_prev h lh (x - off) off = Done (if us = [] then 0 else last us - off)"
  proof (cases "us = []")
    case False
    then have "last us \<noteq> lh" using d last_in_set by fastforce
    then show ?thesis using list_step_list(2) [OF a] False by (simp add: list_prev_def list_entry_or_null_def)
  qed (use list_step_list(2) [OF a] in \<open>simp add: list_prev_def list_entry_or_null_def\<close>)
qed

text \<open>C5. The pointer operations refine those on lists, the empty one included: adding a node at either end,
  testing for emptiness, reading either end (NULL if the list is empty) and popping the first node
  (NULL, and memory as it was, if there is none); deleting from an empty list fails an assertion.  At every
  node of the list: adding behind and before it, deleting it, putting another in its place, and
  reading its neighbours (NULL at the ends).\<close>

theorem list_operations_refine:
  assumes "is_list h lh xs" and "n \<notin> set (lh # xs)" and "n \<in> dom h"
  shows "(\<exists>h'. list_add h lh n = Done h' \<and> is_list h' lh (n # xs)) \<and>
    (\<exists>h'. list_add_tail h lh n = Done h' \<and> is_list h' lh (xs @ [n])) \<and>
    list_empty h lh = Done (xs = []) \<and>
    list_top h lh off = Done (if xs = [] then 0 else hd xs - off) \<and>
    list_tail h lh off = Done (if xs = [] then 0 else last xs - off) \<and>
    (if xs = [] then list_pop h lh off = Done (0, h)
     else \<exists>h'. list_pop h lh off = Done (hd xs - off, h') \<and> is_list h' lh (tl xs)) \<and>
    (xs = [] \<longrightarrow> list_del_from h lh y = Abort) \<and>
    (\<forall>us x vs. xs = us @ x # vs \<longrightarrow>
      (\<exists>h'. list_add_after h lh x n = Done h' \<and> is_list h' lh (us @ x # n # vs)) \<and>
      (\<exists>h'. list_add_before h lh x n = Done h' \<and> is_list h' lh (us @ n # x # vs)) \<and>
      (\<exists>h'. list_del_from h lh x = Done h' \<and> is_list h' lh (us @ vs)) \<and>
      (\<exists>h'. list_del_init h x = Done h' \<and> is_list h' lh (us @ vs) \<and> is_list h' x []) \<and>
      (\<exists>h'. list_swap h x n = Done h' \<and> is_list h' lh (us @ n # vs)) \<and>
      list_next h lh (x - off) off = Done (if vs = [] then 0 else hd vs - off) \<and>
      list_prev h lh (x - off) off = Done (if us = [] then 0 else last us - off))"
proof (intro conjI)
  note a = assms(1) and e = list_empty_list [OF assms(1)]
  show "\<exists>h'. list_add h lh n = Done h' \<and> is_list h' lh (n # xs)"
    using list_add_after_list [of h lh "[]" xs n lh] assms by (auto simp: list_add_def)
  show "\<exists>h'. list_add_tail h lh n = Done h' \<and> is_list h' lh (xs @ [n])"
    using list_add_before_list [of h lh xs "[]" n lh] assms by (auto simp: list_add_tail_def)
  show "list_empty h lh = Done (xs = [])" by (rule e)
  show "list_top h lh off = Done (if xs = [] then 0 else hd xs - off)" "list_tail h lh off = Done (if xs = [] then 0 else last xs - off)"
    by (rule list_top_list [OF a])+
  show "if xs = [] then list_pop h lh off = Done (0, h) else \<exists>h'. list_pop h lh off = Done (hd xs - off, h') \<and> is_list h' lh (tl xs)"
    using list_pop_list [of h lh "hd xs" "tl xs" off] a e by (auto simp: list_pop_def)
  show "xs = [] \<longrightarrow> list_del_from h lh y = Abort" using e by (simp add: list_del_from_def)
qed (use assms list_at_node in blast)

text \<open>C27. Appending and prepending a list moves its nodes, in order, and leaves it empty.\<close>

theorem list_splices_refine:
  assumes "is_list h to xs" and "is_list h from ys" and "set (to # xs) \<inter> set (from # ys) = {}"
  shows "(\<exists>h'. list_append_list h to from = Done h' \<and> is_list h' to (xs @ ys) \<and> is_list h' from []) \<and>
    (\<exists>h'. list_prepend_list h to from = Done h' \<and> is_list h' to (ys @ xs) \<and> is_list h' from [])"
  using list_append_list_list [OF assms] list_prepend_list_list [OF assms] by blast

text \<open>C12. \<open>list_check\<close> always returns, whatever the pointers in memory are: it returns the head exactly
  when the nodes form a list, and otherwise reports the corruption or meets a pointer to nowhere.
  The bound keeps its counter, an \<open>int\<close>, from overflowing.\<close>

theorem list_check_terminates:
  assumes "card (dom h) < 2 ^ 31" and "lh \<noteq> 0"
  shows "list_check h lh s \<noteq> None \<and> (list_check h lh s = Some (Done lh) \<longleftrightarrow> (\<exists>xs. is_list h lh xs)) \<and>
    (list_check h lh s \<noteq> Some (Done lh) \<longrightarrow> list_check h lh s \<in> {Some Undefined, Some (corrupt s)})"
  using list_check_node_result [OF assms(1), of lh s] assms(2)
  by (cases s) (auto simp: list_check_def corrupt_def)

text \<open>C29. The loops of the iteration macros end and meet every entry once, in the order of the list
  or in reverse; the safe loop does so even when its body deletes the entry it is given.\<close>

theorem list_iteration:
  assumes "is_list h lh xs"
  shows "list_for_each_off_dir get_next (\<lambda>i (h, is). Done (h, is @ [i])) lh off (h, []) = Some (Done (h, map (\<lambda>n. n - off) xs)) \<and>
    list_for_each_off_dir get_prev (\<lambda>i (h, is). Done (h, is @ [i])) lh off (h, []) = Some (Done (h, map (\<lambda>n. n - off) (rev xs))) \<and>
    (\<exists>h'. list_for_each_safe_off_dir get_next (\<lambda>i (h, is). bind_outcome (list_del h (i + off)) (\<lambda>h. Done (h, is @ [i]))) lh off (h, []) =
       Some (Done (h', map (\<lambda>n. n - off) xs)) \<and> is_list h' lh [])"
proof -
  have f: "fold (\<lambda>n is. is @ [n - off]) ys is = is @ map (\<lambda>n. n - off) ys" for ys "is"
    by (induction ys arbitrary: "is") auto
  show ?thesis
    using is_list_ends(1,2) [OF assms] for_each_loop_next [of h lh "[]" xs "\<lambda>i (h, is). Done (h, is @ [i])" "\<lambda>i is. is @ [i]" off "[]"]
      for_each_loop_prev [of h lh xs "[]" "\<lambda>i (h, is). Done (h, is @ [i])" "\<lambda>i is. is @ [i]" off "[]"] assms
      list_for_each_safe_delete [of "\<lambda>i (h, is). bind_outcome (list_del h (i + off)) (\<lambda>h. Done (h, is @ [i]))" off "\<lambda>i is. is @ [i]" h lh xs "[]"]
    by (simp add: list_for_each_off_dir_def list_node_to_off_def f)
qed

section \<open>Witnesses\<close>

definition example_heap :: heap where
  "example_heap = [1 \<mapsto> \<lparr>node_next = 2, node_prev = 3\<rparr>, 2 \<mapsto> \<lparr>node_next = 3, node_prev = 1\<rparr>, 3 \<mapsto> \<lparr>node_next = 1, node_prev = 2\<rparr>,
     4 \<mapsto> \<lparr>node_next = 5, node_prev = 5\<rparr>, 5 \<mapsto> \<lparr>node_next = 4, node_prev = 4\<rparr>, 6 \<mapsto> \<lparr>node_next = 0, node_prev = 0\<rparr>]"

lemma example_lists: "is_list example_heap 1 [2, 3]" "is_list example_heap 4 [5]" "6 \<in> dom example_heap" "card (dom example_heap) < 2 ^ 31"
  by (simp_all add: is_list_def ring_def nexts_def prevs_def example_heap_def)

lemma list_operations_refine_witness:
  "(\<exists>h'. list_add_after example_heap 1 2 6 = Done h' \<and> is_list h' 1 [2, 6, 3]) \<and> list_top example_heap 1 0 = Done 2"
  using list_operations_refine [OF example_lists(1), of 6 0] example_lists(3) by fastforce

lemma list_splices_refine_witness:
  "\<exists>h'. list_append_list example_heap 1 4 = Done h' \<and> is_list h' 1 [2, 3, 5] \<and> is_list h' 4 []"
  using list_splices_refine [OF example_lists(1,2)] by simp

lemma list_check_terminates_witness:
  "list_check example_heap 1 None = Some (Done 1)"
  using list_check_terminates [OF example_lists(4), of 1 None] example_lists(1) by auto

lemma list_iteration_witness:
  "list_for_each_off_dir get_prev (\<lambda>i (h, is). Done (h, is @ [i])) 1 1 (example_heap, []) = Some (Done (example_heap, [2, 1]))"
  using list_iteration [OF example_lists(1), of 1] by simp

end
