(* ===== verification/Take.thy ===== *)
theory Take
  imports Linked_List
begin

text \<open>
  \<open>take.c\<close>: the record of the pointers whose ownership a caller has given away with
  \<open>take\<close>.  The arrays keep their full extent: \<open>takenarr\<close> has \<open>max_taken\<close>
  elements, of which the first \<open>num_taken\<close> count.  Whether an allocation succeeds is an
  argument; an element that \<open>realloc\<close> adds is 0 until it is written, at once.  The function
  that is told of a failed allocation is a parameter \<open>call\<close>.
\<close>

record 'fn take_state =
  takenarr :: "addr list"
  labelarr :: "cstr option list option"
  max_taken :: nat
  num_taken :: nat
  allocfail :: nat
  allocfailfn :: "'fn option"

text \<open>The results of \<open>calloc\<close> and the two calls of \<open>realloc\<close>, in their order.\<close>

record allocs =
  calloc_ok :: bool
  taken_ok :: bool
  label_ok :: bool

definition start_state :: "'fn take_state" where
  "start_state = \<lparr>takenarr = [], labelarr = None, max_taken = 0, num_taken = 0, allocfail = 0, allocfailfn = None\<rparr>"

text \<open>Storing the pointer and its label behind the others.\<close>

definition store_taken :: "addr \<Rightarrow> cstr option \<Rightarrow> 'fn take_state \<Rightarrow> (addr \<times> 'fn take_state) outcome" where
  "store_taken p label st =
     (if num_taken st \<ge> length (takenarr st) \<or> (\<exists>ls. labelarr st = Some ls \<and> num_taken st \<ge> length ls) then Undefined
      else Done (p, st\<lparr>labelarr := map_option (\<lambda>ls. ls[num_taken st := label]) (labelarr st),
        takenarr := (takenarr st)[num_taken st := p], num_taken := num_taken st + 1\<rparr>))"

definition init_labels :: "allocs \<Rightarrow> cstr option \<Rightarrow> 'fn take_state \<Rightarrow> 'fn take_state" where
  "init_labels ok label st =
     (if label \<noteq> None \<and> labelarr st = None \<and> calloc_ok ok
      then st\<lparr>labelarr := Some (replicate (max_taken st + 1) None)\<rparr> else st)"

text \<open>One more element, once \<open>realloc\<close> has succeeded for \<open>takenarr\<close>.\<close>

definition grow_arrays :: "allocs \<Rightarrow> 'fn take_state \<Rightarrow> 'fn take_state" where
  "grow_arrays ok st =
     st\<lparr>takenarr := takenarr st @ [0],
        labelarr := (case labelarr st of None \<Rightarrow> None
          | Some ls \<Rightarrow> if label_ok ok then Some (take (max_taken st + 1) (ls @ [None])) else None),
        max_taken := max_taken st + 1\<rparr>"

definition take_ptr :: "('fn \<Rightarrow> addr \<Rightarrow> 'fn take_state \<Rightarrow> 'fn take_state) \<Rightarrow> allocs \<Rightarrow> addr \<Rightarrow> cstr option \<Rightarrow> 'fn take_state \<Rightarrow>
    (addr \<times> 'fn take_state) outcome" where
  "take_ptr call ok p label st =
     (let st = init_labels ok label st
      in if num_taken st = max_taken st then
           if \<not> taken_ok ok then
             (case allocfailfn st of Some fn \<Rightarrow> Done (0, call fn p (st\<lparr>allocfail := allocfail st + 1\<rparr>))
              | None \<Rightarrow> Done (p, st))
           else store_taken p label (grow_arrays ok st)
         else store_taken p label st)"

fun find_taken_loop :: "addr list \<Rightarrow> nat \<Rightarrow> addr \<Rightarrow> nat" where
  "find_taken_loop [] i p = 0"
| "find_taken_loop (q # qs) i p = (if q = p then i + 1 else find_taken_loop qs (i + 1) p)"

definition find_taken :: "'fn take_state \<Rightarrow> addr \<Rightarrow> nat" where
  "find_taken st p = find_taken_loop (take (num_taken st) (takenarr st)) 0 p"

text \<open>\<open>memmove\<close> closes the gap in \<open>takenarr\<close>; \<open>labelarr\<close> is not touched.\<close>

definition taken :: "addr \<Rightarrow> 'fn take_state \<Rightarrow> bool \<times> 'fn take_state" where
  "taken p st =
     (if p = 0 \<and> allocfail st \<noteq> 0 then (True, st\<lparr>allocfail := allocfail st - 1\<rparr>)
      else let i = find_taken st p in
        if i = 0 then (False, st)
        else let n = num_taken st - 1 in
          (True, st\<lparr>takenarr := take (i - 1) (takenarr st) @ take (n - (i - 1)) (drop i (takenarr st)) @ drop n (takenarr st), num_taken := n\<rparr>))"

definition is_taken :: "addr \<Rightarrow> 'fn take_state \<Rightarrow> bool" where
  "is_taken p st = (if p = 0 \<and> allocfail st \<noteq> 0 then True else find_taken st p > 0)"

text \<open>What \<open>taken_any\<close> returns: nothing, a label, or the text of a pointer.\<close>

datatype any_taken = No_taken | Taken_label cstr | Taken_pointer addr

definition taken_any :: "'fn take_state \<Rightarrow> any_taken" where
  "taken_any st =
     (if num_taken st = 0 then No_taken
      else case (case labelarr st of None \<Rightarrow> [] | Some ls \<Rightarrow> filter (\<lambda>l. l \<noteq> None) (take (num_taken st) ls)) of
        Some l # _ \<Rightarrow> Taken_label l
      | _ \<Rightarrow> Taken_pointer (takenarr st ! 0))"

definition take_cleanup :: "'fn take_state \<Rightarrow> 'fn take_state" where
  "take_cleanup st = st\<lparr>max_taken := 0, num_taken := 0, takenarr := [], labelarr := None\<rparr>"

definition take_allocfail :: "'fn option \<Rightarrow> 'fn take_state \<Rightarrow> 'fn take_state" where
  "take_allocfail fn st = st\<lparr>allocfailfn := fn\<rparr>"

section \<open>The pointers that are taken\<close>

definition take_ok :: "'fn take_state \<Rightarrow> bool" where
  "take_ok st \<longleftrightarrow> length (takenarr st) = max_taken st \<and> num_taken st \<le> max_taken st \<and>
     (\<forall>ls. labelarr st = Some ls \<longrightarrow> max_taken st \<le> length ls)"

text \<open>The pointers given away and not yet taken over, the oldest first.\<close>

definition pending :: "'fn take_state \<Rightarrow> addr list" where
  "pending st = take (num_taken st) (takenarr st)"

lemma start_state_ok: "take_ok start_state \<and> pending start_state = []"
  by (simp add: start_state_def take_ok_def pending_def)

lemma find_taken_loop_iff:
  "find_taken_loop qs i p = (if p \<in> set qs then i + length (takeWhile (\<lambda>q. q \<noteq> p) qs) + 1 else 0)"
  by (induction qs arbitrary: i) auto

lemma remove1_takeWhile: "p \<in> set qs \<Longrightarrow>
    take (length (takeWhile (\<lambda>q. q \<noteq> p) qs)) qs @ drop (length (takeWhile (\<lambda>q. q \<noteq> p) qs) + 1) qs = remove1 p qs"
  by (induction qs) auto

lemma taken_pending:
  assumes "take_ok st" and "\<not> (p = 0 \<and> allocfail st \<noteq> 0)"
  shows "fst (taken p st) = (p \<in> set (pending st)) \<and> pending (snd (taken p st)) = remove1 p (pending st) \<and> take_ok (snd (taken p st))"
proof (cases "p \<in> set (pending st)")
  case False
  then show ?thesis using assms by (simp add: taken_def find_taken_def find_taken_loop_iff pending_def remove1_idem)
next
  case True
  define n arr k where "n = num_taken st" and "arr = takenarr st" and "k = length (takeWhile (\<lambda>q. q \<noteq> p) (pending st))"
  have len: "n \<le> length arr" "length (pending st) = n" using assms(1) by (simp_all add: take_ok_def n_def arr_def pending_def)
  have "k < length (pending st)" unfolding k_def using True by (metis (mono_tags, lifting) length_takeWhile_le le_neq_implies_less takeWhile_eq_all_conv takeWhile_eq_take take_all_iff order_refl)
  then have k: "k < n" using len(2) by simp
  have r: "taken p st = (True, st\<lparr>takenarr := take k arr @ take (n - 1 - k) (drop (k + 1) arr) @ drop (n - 1) arr, num_taken := n - 1\<rparr>)"
    using assms(2) True by (auto simp: taken_def find_taken_def find_taken_loop_iff pending_def n_def arr_def k_def Let_def)
  have "remove1 p (pending st) = take k (pending st) @ drop (k + 1) (pending st)"
    using remove1_takeWhile [OF True] by (simp add: k_def)
  also have "\<dots> = take k arr @ take (n - 1 - k) (drop (k + 1) arr)"
    using k by (simp add: pending_def n_def [symmetric] arr_def [symmetric] drop_take)
  finally have "pending (snd (taken p st)) = remove1 p (pending st)"
    using len(1) k by (simp add: r pending_def)
  moreover have "take_ok (snd (taken p st))" using assms(1) k len(1) by (auto simp: r take_ok_def n_def arr_def)
  ultimately show ?thesis using True by (simp add: r)
qed

lemma store_taken_pending:
  assumes "length (takenarr st) = max_taken st" and "num_taken st < max_taken st" and "\<forall>ls. labelarr st = Some ls \<longrightarrow> max_taken st \<le> length ls"
  shows "\<exists>st'. store_taken p label st = Done (p, st') \<and> take_ok st' \<and> pending st' = pending st @ [p] \<and> allocfail st' = allocfail st"
  using assms by (cases "labelarr st") (auto simp: store_taken_def take_ok_def pending_def take_Suc_conv_app_nth)

lemma init_labels_ok:
  "take_ok st \<Longrightarrow> take_ok (init_labels ok label st) \<and> pending (init_labels ok label st) = pending st \<and>
     num_taken (init_labels ok label st) = num_taken st \<and> max_taken (init_labels ok label st) = max_taken st \<and>
     allocfail (init_labels ok label st) = allocfail st"
  by (auto simp: init_labels_def take_ok_def pending_def)

lemma grow_arrays_ok:
  "take_ok st \<Longrightarrow> take_ok (grow_arrays ok st) \<and> pending (grow_arrays ok st) = pending st \<and>
     num_taken (grow_arrays ok st) < max_taken (grow_arrays ok st) \<and> allocfail (grow_arrays ok st) = allocfail st"
  by (auto simp: grow_arrays_def take_ok_def pending_def split: option.splits if_splits)

lemma take_ptr_pending:
  assumes "take_ok st" and "taken_ok ok"
  shows "\<exists>st'. take_ptr call ok p label st = Done (p, st') \<and> take_ok st' \<and> pending st' = pending st @ [p] \<and> allocfail st' = allocfail st"
proof -
  define st1 where "st1 = init_labels ok label st"
  have 1: "take_ok st1" "pending st1 = pending st" "allocfail st1 = allocfail st"
    using init_labels_ok [OF assms(1)] by (simp_all add: st1_def)
  define st2 where "st2 = (if num_taken st1 = max_taken st1 then grow_arrays ok st1 else st1)"
  have "take_ok st2" "num_taken st2 < max_taken st2" "pending st2 = pending st" "allocfail st2 = allocfail st"
    using grow_arrays_ok [OF 1(1), of ok] 1 by (auto simp: st2_def take_ok_def)
  moreover have "take_ptr call ok p label st = store_taken p label st2"
    using assms(2) by (simp add: take_ptr_def st1_def [symmetric] st2_def Let_def)
  ultimately show ?thesis using store_taken_pending [of st2 p label] by (simp add: take_ok_def)
qed

lemma taken_any_iff: "taken_any st = No_taken \<longleftrightarrow> num_taken st = 0"
  by (simp add: taken_any_def split: option.split list.split)

text \<open>C35. The arrays stand for the list of pending pointers: as long as its allocation succeeds,
  \<open>take\<close> adds the pointer at the end, once for every call; \<open>taken\<close> answers whether the
  pointer is pending and takes back the oldest of its entries, so that every \<open>take\<close> is
  answered once; \<open>is_taken\<close> answers the same and changes nothing; and nothing is left after
  the cleanup.  (Answers for the null pointer, which a failed allocation makes true, apart.)\<close>

theorem take_refines:
  assumes "take_ok st" and "taken_ok ok" and "allocfail st = 0"
  shows "(\<exists>st'. take_ptr call ok p label st = Done (p, st') \<and> take_ok st' \<and> pending st' = pending st @ [p]) \<and>
    fst (taken q st) = (q \<in> set (pending st)) \<and> take_ok (snd (taken q st)) \<and> pending (snd (taken q st)) = remove1 q (pending st) \<and>
    is_taken q st = (q \<in> set (pending st)) \<and> (taken_any st = No_taken \<longleftrightarrow> pending st = []) \<and>
    take_ok (take_cleanup st) \<and> pending (take_cleanup st) = []"
proof (intro conjI)
  show "\<exists>st'. take_ptr call ok p label st = Done (p, st') \<and> take_ok st' \<and> pending st' = pending st @ [p]"
    using take_ptr_pending [OF assms(1,2)] by blast
  show "fst (taken q st) = (q \<in> set (pending st))" "take_ok (snd (taken q st))" "pending (snd (taken q st)) = remove1 q (pending st)"
    using taken_pending [OF assms(1)] assms(3) by auto
  show "is_taken q st = (q \<in> set (pending st))"
    using assms(3) by (simp add: is_taken_def find_taken_def find_taken_loop_iff pending_def)
  show "taken_any st = No_taken \<longleftrightarrow> pending st = []"
    using assms(1) by (auto simp: taken_any_iff pending_def take_ok_def)
qed (simp_all add: take_cleanup_def take_ok_def pending_def)

section \<open>Witnesses\<close>

definition example_take :: "unit take_state" where
  "example_take = start_state\<lparr>takenarr := [1, 2, 1], max_taken := 3, num_taken := 2\<rparr>"

lemma take_refines_witness:
  "fst (taken 2 example_take) \<and> pending (snd (taken 2 example_take)) = [1] \<and>
   (\<exists>st'. take_ptr (\<lambda>_ _ st. st) \<lparr>calloc_ok = True, taken_ok = True, label_ok = True\<rparr> 7 None example_take = Done (7, st') \<and>
     take_ok st' \<and> pending st' = [1, 2, 7])"
proof -
  have "take_ok example_take" "pending example_take = [1, 2]" "allocfail example_take = 0"
    by (simp_all add: example_take_def start_state_def take_ok_def pending_def)
  then show ?thesis
    using take_refines [of example_take "\<lparr>calloc_ok = True, taken_ok = True, label_ok = True\<rparr>" "\<lambda>_ _ st. st" 7 None 2] by simp
qed

text \<open>The labels are not moved with their pointers: the label of a pointer that was taken over
  is reported for one that is still pending.\<close>

lemma taken_any_stale_label:
  "taken_any (snd (taken 1 (start_state\<lparr>takenarr := [1, 2], labelarr := Some [Some [0x61], Some [0x62]], max_taken := 2, num_taken := 2\<rparr>))) =
     Taken_label [0x61]"
  by (simp add: taken_any_def taken_def find_taken_def start_state_def)

end
