(* ===== verification/Tal.thy ===== *)
theory Tal
  imports Take
begin

text \<open>
  \<open>tal.c\<close>: the tree of allocations.  Memory is a state of four heaps, by address: the list
  nodes at the beginning of the headers and in the properties of children, the other members of the
  headers, the properties, and the bytes behind the headers (\<open>None\<close> for a byte that has not
  been written).  Sizes and offsets are those of a 64-bit machine.

  What the allocator returns, in turn, is the list \<open>mallocs\<close>; the null pointer, or an empty
  list, is a failure.  \<open>errorfn\<close> is \<open>abort\<close> and the backend is not replaced.
  Callbacks are addresses of functions, and \<open>cb\<close>, an argument, says what a call does to the
  state; \<open>world\<close> is what they change outside of it.  A computation that does not end is \<open>None\<close>.  \<open>errno\<close> is left out.
\<close>

section \<open>Computations that may not end\<close>

definition bind_run :: "'a outcome option \<Rightarrow> ('a \<Rightarrow> 'b outcome option) \<Rightarrow> 'b outcome option" where
  "bind_run m f = Option.bind m (\<lambda>r. case r of Done x \<Rightarrow> f x | Abort \<Rightarrow> Some Abort | Undefined \<Rightarrow> Some Undefined)"

lemma bind_run_simps [simp]:
  "bind_run (Some (Done x)) f = f x" "bind_run (Some Abort) f = Some Abort" "bind_run (Some Undefined) f = Some Undefined"
  "bind_run None f = None"
  by (simp_all add: bind_run_def)

lemma bind_run_mono [partial_function_mono]:
  assumes "mono_option m" and "\<And>y. mono_option (\<lambda>f. c y f)"
  shows "mono_option (\<lambda>f. bind_run (m f) (\<lambda>y. c y f))"
  unfolding bind_run_def
proof (rule bind_mono [OF assms(1)])
  fix y
  show "mono_option (\<lambda>f. case y of Done x \<Rightarrow> c x f | Abort \<Rightarrow> Some Abort | Undefined \<Rightarrow> Some Undefined)"
    by (cases y; simp only: outcome.case; rule assms(2) option.const_mono)
qed

abbreviation run_of :: "'a outcome \<Rightarrow> 'a outcome option" where "run_of \<equiv> Some"

abbreviation ret :: "'a \<Rightarrow> 'a outcome option" where "ret x \<equiv> Some (Done x)"

section \<open>Memory\<close>

datatype prop_type = CHILDREN | NAME | NOTIFIER

record tal_hdr =
  hdr_prop :: addr
  parent_child :: u64
  bytelen :: u64

text \<open>A property with its \<open>next\<close>; a literal is the text of a name, and ends the properties.  The code
  tells a literal by its first byte, which is zero in a property: an empty literal would be taken for
  one and read as such, so it cannot be accessed (\<open>get_prop\<close>).  The
  head of the list of children is a node of its own, inside the property.\<close>

datatype property =
    Children addr addr
  | Name addr cstr
  | Notifier addr u32 addr addr
  | Literal cstr

record 'w tal_state =
  nodes :: heap
  hdrs :: "addr \<rightharpoonup> tal_hdr"
  props :: "addr \<rightharpoonup> property"
  payload :: "addr \<rightharpoonup> u8 option list"
  bounds_start :: addr
  bounds_end :: addr
  notifiers :: u64
  null_parent :: addr
  mallocs :: "addr list"
  takes :: "unit take_state"
  world :: 'w

definition NOTIFY_IS_DESTRUCTOR :: u32 where "NOTIFY_IS_DESTRUCTOR = 512"
definition NOTIFY_EXTRA_ARG :: u32 where "NOTIFY_EXTRA_ARG = 1024"
definition TAL_PTR_OBFUSTICATOR :: u64 where "TAL_PTR_OBFUSTICATOR = 0x1984200820142016"

definition TAL_NOTIFY_FREE :: u32 where "TAL_NOTIFY_FREE = 1"
definition TAL_NOTIFY_STEAL :: u32 where "TAL_NOTIFY_STEAL = 2"
definition TAL_NOTIFY_MOVE :: u32 where "TAL_NOTIFY_MOVE = 4"
definition TAL_NOTIFY_RESIZE :: u32 where "TAL_NOTIFY_RESIZE = 8"
definition TAL_NOTIFY_RENAME :: u32 where "TAL_NOTIFY_RENAME = 16"
definition TAL_NOTIFY_ADD_CHILD :: u32 where "TAL_NOTIFY_ADD_CHILD = 32"
definition TAL_NOTIFY_DEL_CHILD :: u32 where "TAL_NOTIFY_DEL_CHILD = 64"
definition TAL_NOTIFY_ADD_NOTIFIER :: u32 where "TAL_NOTIFY_ADD_NOTIFIER = 128"
definition TAL_NOTIFY_DEL_NOTIFIER :: u32 where "TAL_NOTIFY_DEL_NOTIFIER = 256"

text \<open>The sizes of \<open>struct tal_hdr\<close>, \<open>null_parent\<close> and the properties, and the offset of the
  head in \<open>struct children\<close>.\<close>

definition hdr_size :: u64 where "hdr_size = 40"
definition null_parent_size :: u64 where "null_parent_size = 80"
definition children_size :: u64 where "children_size = 40"
definition name_size :: u64 where "name_size = 16"
definition notifier_size :: u64 where "notifier_size = 32"
definition notifier_extra_arg_size :: u64 where "notifier_extra_arg_size = 40"
definition head_off :: u64 where "head_off = 24"

definition get_hdr :: "'w tal_state \<Rightarrow> addr \<Rightarrow> tal_hdr outcome" where
  "get_hdr st t = (case hdrs st t of None \<Rightarrow> Undefined | Some h \<Rightarrow> Done h)"

definition upd_hdr :: "'w tal_state \<Rightarrow> addr \<Rightarrow> (tal_hdr \<Rightarrow> tal_hdr) \<Rightarrow> 'w tal_state outcome" where
  "upd_hdr st t f = (case hdrs st t of None \<Rightarrow> Undefined | Some h \<Rightarrow> Done (st\<lparr>hdrs := (hdrs st)(t \<mapsto> f h)\<rparr>))"

definition get_prop :: "'w tal_state \<Rightarrow> addr \<Rightarrow> property outcome" where
  "get_prop st p = (case props st p of None \<Rightarrow> Undefined | Some x \<Rightarrow> if x = Literal [] then Undefined else Done x)"

definition on_nodes :: "'w tal_state \<Rightarrow> heap outcome \<Rightarrow> 'w tal_state outcome" where
  "on_nodes st r = bind_outcome r (\<lambda>h. Done (st\<lparr>nodes := h\<rparr>))"

text \<open>The type and the \<open>next\<close> of a property that is not a literal.\<close>

fun type_of :: "property \<Rightarrow> prop_type option" where
  "type_of (Children _ _) = Some CHILDREN"
| "type_of (Name _ _) = Some NAME"
| "type_of (Notifier _ _ _ _) = Some NOTIFIER"
| "type_of (Literal _) = None"

lemma typed_not_literal [simp]: "type_of x \<noteq> None \<Longrightarrow> x \<noteq> Literal s"
  by auto

fun next_of :: "property \<Rightarrow> addr" where
  "next_of (Children n _) = n"
| "next_of (Name n _) = n"
| "next_of (Notifier n _ _ _) = n"
| "next_of (Literal _) = 0"

fun set_next_of :: "addr \<Rightarrow> property \<Rightarrow> property" where
  "set_next_of n (Children _ par) = Children n par"
| "set_next_of n (Name _ s) = Name n s"
| "set_next_of n (Notifier _ types fn arg) = Notifier n types fn arg"
| "set_next_of n (Literal s) = Literal s"

definition is_literal :: "'w tal_state \<Rightarrow> addr \<Rightarrow> bool outcome" where
  "is_literal st p = bind_outcome (get_prop st p) (\<lambda>x. Done (type_of x = None))"

section \<open>Headers\<close>

definition get_destroying_bit :: "u64 \<Rightarrow> bool" where
  "get_destroying_bit pc \<longleftrightarrow> pc AND 1 \<noteq> 0"

definition set_destroying_bit :: "u64 \<Rightarrow> u64" where
  "set_destroying_bit pc = pc OR 1"

definition ignore_destroying_bit :: "u64 \<Rightarrow> addr" where
  "ignore_destroying_bit pc = (pc XOR TAL_PTR_OBFUSTICATOR) AND NOT 1"

definition update_bounds :: "addr \<Rightarrow> u64 \<Rightarrow> 'w tal_state \<Rightarrow> 'w tal_state" where
  "update_bounds new sz st =
     (if bounds_start st = 0 then st\<lparr>bounds_start := new, bounds_end := new + sz\<rparr>
      else if new < bounds_start st then st\<lparr>bounds_start := new\<rparr>
      else if new + sz > bounds_end st then st\<lparr>bounds_end := new + sz\<rparr>
      else st)"

definition in_bounds :: "'w tal_state \<Rightarrow> addr \<Rightarrow> bool" where
  "in_bounds st p \<longleftrightarrow> p = 0 \<or> (p \<ge> null_parent st \<and> p \<le> null_parent st + null_parent_size) \<or> (p \<ge> bounds_start st \<and> p \<le> bounds_end st)"

text \<open>The state does not change.\<close>

definition check_bounds :: "'w tal_state \<Rightarrow> addr \<Rightarrow> unit outcome" where
  "check_bounds st p = (if \<not> in_bounds st p then Abort else Done ())"

definition to_tal_hdr :: "'w tal_state \<Rightarrow> addr \<Rightarrow> addr outcome" where
  "to_tal_hdr st ctx =
     (let t = ctx - hdr_size in
      bind_outcome (check_bounds st t) (\<lambda>_.
      bind_outcome (get_hdr st t) (\<lambda>h.
      bind_outcome (check_bounds st (ignore_destroying_bit (parent_child h))) (\<lambda>_.
      bind_outcome (get_next (nodes st) t) (\<lambda>n.
      bind_outcome (check_bounds st n) (\<lambda>_.
      bind_outcome (get_prev (nodes st) t) (\<lambda>p.
      bind_outcome (check_bounds st p) (\<lambda>_.
      bind_outcome
        (if hdr_prop h \<noteq> 0
         then bind_outcome (is_literal st (hdr_prop h)) (\<lambda>l. if \<not> l then check_bounds st (hdr_prop h) else Done ())
         else Done ())
        (\<lambda>_. Done t)))))))))"

definition to_tal_hdr_or_null :: "'w tal_state \<Rightarrow> addr \<Rightarrow> addr outcome" where
  "to_tal_hdr_or_null st ctx = (if ctx = 0 then Done (null_parent st) else to_tal_hdr st ctx)"

definition from_tal_hdr :: "addr \<Rightarrow> addr" where
  "from_tal_hdr t = t + hdr_size"

definition from_tal_hdr_or_null :: "'w tal_state \<Rightarrow> addr \<Rightarrow> addr" where
  "from_tal_hdr_or_null st t = (if t = null_parent st then 0 else from_tal_hdr t)"

section \<open>Notification\<close>

datatype notice =
    Destroy addr
  | Destroy2 addr addr
  | Notify addr u32 u64

type_synonym 'w callback = "addr \<Rightarrow> notice \<Rightarrow> 'w tal_state \<Rightarrow> 'w tal_state outcome option"

text \<open>To call the null pointer is undefined.\<close>

definition call_fn :: "'w callback \<Rightarrow> addr \<Rightarrow> notice \<Rightarrow> 'w tal_state \<Rightarrow> 'w tal_state outcome option" where
  "call_fn cb fn x st = (if fn = 0 then Some Undefined else cb fn x st)"

partial_function (option) notify_loop :: "'w callback \<Rightarrow> addr \<Rightarrow> u32 \<Rightarrow> u64 \<Rightarrow> addr \<Rightarrow> 'w tal_state \<Rightarrow> 'w tal_state outcome option" where
  "notify_loop cb ctx type info p st =
     (if p = 0 then ret st
      else bind_run (run_of (get_prop st p)) (\<lambda>x.
        if type_of x = None then ret st
        else bind_run
          (case x of
             Notifier nxt types fn arg \<Rightarrow>
               if types AND type \<noteq> 0 then
                 if types AND NOTIFY_IS_DESTRUCTOR \<noteq> 0 then
                   let st = st\<lparr>props := (props st)(p \<mapsto> Notifier nxt types 0 arg)\<rparr> in
                   if types AND NOTIFY_EXTRA_ARG \<noteq> 0 then call_fn cb fn (Destroy2 (from_tal_hdr ctx) arg) st
                   else call_fn cb fn (Destroy (from_tal_hdr ctx)) st
                 else call_fn cb fn (Notify (from_tal_hdr_or_null st ctx) type info) st
               else ret st
           | _ \<Rightarrow> ret st)
          (\<lambda>st. bind_run (run_of (get_prop st p)) (\<lambda>x. notify_loop cb ctx type info (next_of x) st))))"

definition notify :: "'w callback \<Rightarrow> addr \<Rightarrow> u32 \<Rightarrow> u64 \<Rightarrow> 'w tal_state \<Rightarrow> 'w tal_state outcome option" where
  "notify cb ctx type info st =
     bind_run (run_of (get_hdr st ctx)) (\<lambda>h. notify_loop cb ctx type info (hdr_prop h) st)"

text \<open>\<open>if (notifiers) notify (...)\<close>\<close>

definition notify_any :: "'w callback \<Rightarrow> addr \<Rightarrow> u32 \<Rightarrow> u64 \<Rightarrow> 'w tal_state \<Rightarrow> 'w tal_state outcome option" where
  "notify_any cb ctx type info st = (if notifiers st \<noteq> 0 then notify cb ctx type info st else ret st)"

section \<open>Properties\<close>

definition allocate :: "u64 \<Rightarrow> 'w tal_state \<Rightarrow> (addr \<times> 'w tal_state) outcome" where
  "allocate sz st =
     (case mallocs st of [] \<Rightarrow> Abort
      | r # rs \<Rightarrow> let st = st\<lparr>mallocs := rs\<rparr> in if r = 0 then Abort else Done (r, update_bounds r sz st))"

text \<open>A pointer to a pointer to a property: in a header, or in a property.\<close>

datatype prop_ref = In_hdr addr | In_prop addr

fun read_ref :: "'w tal_state \<Rightarrow> prop_ref \<Rightarrow> addr outcome" where
  "read_ref st (In_hdr t) = bind_outcome (get_hdr st t) (\<lambda>h. Done (hdr_prop h))"
| "read_ref st (In_prop p) = bind_outcome (get_prop st p) (\<lambda>x. Done (next_of x))"

fun write_ref :: "'w tal_state \<Rightarrow> prop_ref \<Rightarrow> addr \<Rightarrow> 'w tal_state outcome" where
  "write_ref st (In_hdr t) v = upd_hdr st t (\<lambda>h. h\<lparr>hdr_prop := v\<rparr>)"
| "write_ref st (In_prop p) v = bind_outcome (get_prop st p) (\<lambda>x. Done (st\<lparr>props := (props st)(p \<mapsto> set_next_of v x)\<rparr>))"

partial_function (option) find_property_loop :: "'w tal_state \<Rightarrow> prop_type \<Rightarrow> prop_ref \<Rightarrow> prop_ref option outcome option" where
  "find_property_loop st type r =
     bind_run (run_of (read_ref st r)) (\<lambda>p.
       if p = 0 then ret None
       else bind_run (run_of (get_prop st p)) (\<lambda>x.
         if type_of x = None then ret (if type = NAME then Some r else None)
         else if type_of x = Some type then ret (Some r)
         else find_property_loop st type (In_prop p)))"

definition find_property_ptr :: "'w tal_state \<Rightarrow> addr \<Rightarrow> prop_type \<Rightarrow> prop_ref option outcome option" where
  "find_property_ptr st t type = find_property_loop st type (In_hdr t)"

definition find_property :: "'w tal_state \<Rightarrow> addr \<Rightarrow> prop_type \<Rightarrow> addr outcome option" where
  "find_property st t type =
     bind_run (find_property_ptr st t type) (\<lambda>r. case r of None \<Rightarrow> ret 0 | Some r \<Rightarrow> run_of (read_ref st r))"

text \<open>The new property, with its \<open>next\<close> set, becomes the first.\<close>

definition init_property :: "addr \<Rightarrow> addr \<Rightarrow> (addr \<Rightarrow> property) \<Rightarrow> 'w tal_state \<Rightarrow> 'w tal_state outcome" where
  "init_property p t mk st =
     bind_outcome (get_hdr st t) (\<lambda>h.
       upd_hdr (st\<lparr>props := (props st)(p \<mapsto> mk (hdr_prop h))\<rparr>) t (\<lambda>h. h\<lparr>hdr_prop := p\<rparr>))"

definition add_notifier_property :: "addr \<Rightarrow> u32 \<Rightarrow> addr \<Rightarrow> addr \<Rightarrow> 'w tal_state \<Rightarrow> (addr \<times> 'w tal_state) outcome" where
  "add_notifier_property t types fn extra_arg st =
     bind_outcome (allocate (if types AND NOTIFY_EXTRA_ARG \<noteq> 0 then notifier_extra_arg_size else notifier_size) st) (\<lambda>(p, st).
     bind_outcome (init_property p t (\<lambda>nxt. Notifier nxt types fn (if types AND NOTIFY_EXTRA_ARG \<noteq> 0 then extra_arg else 0)) st) (\<lambda>st.
     Done (p, st)))"

definition free_prop :: "addr \<Rightarrow> 'w tal_state \<Rightarrow> 'w tal_state outcome" where
  "free_prop p st = bind_outcome (get_prop st p) (\<lambda>x.
     Done (st\<lparr>props := (props st)(p := None), nodes := (if type_of x = Some CHILDREN then (nodes st)(p + head_off := None) else nodes st)\<rparr>))"

partial_function (option) del_notifier_loop ::
  "addr \<Rightarrow> bool \<Rightarrow> addr \<Rightarrow> prop_ref \<Rightarrow> 'w tal_state \<Rightarrow> (u32 \<times> 'w tal_state) outcome option" where
  "del_notifier_loop fn match_extra_arg extra_arg r st =
     bind_run (run_of (read_ref st r)) (\<lambda>p.
       if p = 0 then ret (0, st)
       else bind_run (run_of (get_prop st p)) (\<lambda>x.
         if type_of x = None then ret (0, st)
         else case x of
           Notifier nxt types fn' arg \<Rightarrow>
             if fn' \<noteq> fn then del_notifier_loop fn match_extra_arg extra_arg (In_prop p) st
             else if types AND NOTIFY_EXTRA_ARG \<noteq> 0 \<and> match_extra_arg \<and> extra_arg \<noteq> arg
             then del_notifier_loop fn match_extra_arg extra_arg (In_prop p) st
             else bind_run (run_of (write_ref st r nxt)) (\<lambda>st.
               bind_run (run_of (free_prop p st)) (\<lambda>st.
               ret (types AND NOT (NOTIFY_IS_DESTRUCTOR OR NOTIFY_EXTRA_ARG), st)))
         | _ \<Rightarrow> del_notifier_loop fn match_extra_arg extra_arg (In_prop p) st))"

definition del_notifier_property :: "addr \<Rightarrow> addr \<Rightarrow> bool \<Rightarrow> addr \<Rightarrow> 'w tal_state \<Rightarrow> (u32 \<times> 'w tal_state) outcome option" where
  "del_notifier_property t fn match_extra_arg extra_arg st = del_notifier_loop fn match_extra_arg extra_arg (In_hdr t) st"

definition add_name_property :: "addr \<Rightarrow> cstr \<Rightarrow> 'w tal_state \<Rightarrow> (addr \<times> 'w tal_state) outcome" where
  "add_name_property t name st =
     bind_outcome (allocate (name_size + word_of_nat (length name) + 1) st) (\<lambda>(p, st).
     bind_outcome (init_property p t (\<lambda>nxt. Name nxt name) st) (\<lambda>st. Done (p, st)))"

definition add_child_property :: "addr \<Rightarrow> 'w tal_state \<Rightarrow> (addr \<times> 'w tal_state) outcome" where
  "add_child_property t st =
     bind_outcome (allocate children_size st) (\<lambda>(p, st).
     bind_outcome (init_property p t (\<lambda>nxt. Children nxt t) st) (\<lambda>st.
     bind_outcome (on_nodes st (list_head_init ((nodes st)(p + head_off \<mapsto> \<lparr>node_next = 0, node_prev = 0\<rparr>)) (p + head_off))) (\<lambda>st.
     Done (p, st))))"

definition add_child :: "addr \<Rightarrow> addr \<Rightarrow> 'w tal_state \<Rightarrow> (bool \<times> 'w tal_state) outcome option" where
  "add_child parent child st =
     bind_run (find_property st parent CHILDREN) (\<lambda>c.
     bind_run (if c = 0 then run_of (add_child_property parent st) else ret (c, st)) (\<lambda>(c, st).
     bind_run (run_of (on_nodes st (list_add (nodes st) (c + head_off) child))) (\<lambda>st.
     bind_run (run_of (upd_hdr st child (\<lambda>h. h\<lparr>parent_child := c XOR TAL_PTR_OBFUSTICATOR\<rparr>))) (\<lambda>st.
     ret (True, st)))))"

section \<open>Freeing\<close>

text \<open>The next property is read before this one is freed.\<close>

partial_function (option) free_props_loop :: "addr \<Rightarrow> 'w tal_state \<Rightarrow> 'w tal_state outcome option" where
  "free_props_loop p st =
     (if p = 0 then ret st
      else bind_run (run_of (get_prop st p)) (\<lambda>x.
        if type_of x = None then ret st
        else bind_run (run_of (free_prop p st)) (\<lambda>st. free_props_loop (next_of x) st)))"

definition free_hdr :: "addr \<Rightarrow> 'w tal_state \<Rightarrow> 'w tal_state outcome" where
  "free_hdr t st = bind_outcome (get_hdr st t) (\<lambda>_.
     Done (st\<lparr>hdrs := (hdrs st)(t := None), nodes := (nodes st)(t := None), payload := (payload st)(t := None)\<rparr>))"

text \<open>\<open>assert (!taken (p))\<close>\<close>

definition assert_not_taken :: "addr \<Rightarrow> 'w tal_state \<Rightarrow> 'w tal_state outcome" where
  "assert_not_taken p st = (let (b, tk) = taken p (takes st) in if b then Abort else Done (st\<lparr>takes := tk\<rparr>))"

text \<open>\<open>del_tree\<close>, and its loop over the children, which calls it back.\<close>

datatype del_call = Del_tree addr | Del_children addr

partial_function (option) del_work :: "'w callback \<Rightarrow> addr \<Rightarrow> del_call \<Rightarrow> 'w tal_state \<Rightarrow> 'w tal_state outcome option" where
  "del_work cb orig call st =
     (case call of
        Del_tree t \<Rightarrow>
          bind_run (run_of (assert_not_taken (from_tal_hdr t) st)) (\<lambda>st.
          bind_run (run_of (get_hdr st t)) (\<lambda>h.
            if get_destroying_bit (parent_child h) then ret st
            else
              bind_run (run_of (upd_hdr st t (\<lambda>h. h\<lparr>parent_child := set_destroying_bit (parent_child h)\<rparr>))) (\<lambda>st.
              bind_run (notify cb t TAL_NOTIFY_FREE orig st) (\<lambda>st.
              bind_run (find_property_ptr st t CHILDREN) (\<lambda>r.
              bind_run
                (case r of None \<Rightarrow> ret st
                 | Some r \<Rightarrow> bind_run (run_of (read_ref st r)) (\<lambda>c. del_work cb orig (Del_children c) st))
                (\<lambda>st.
              bind_run (run_of (get_hdr st t)) (\<lambda>h.
              bind_run (free_props_loop (hdr_prop h) st) (\<lambda>st.
              run_of (free_hdr t st)))))))))
      | Del_children c \<Rightarrow>
          bind_run (run_of (list_top (nodes st) (c + head_off) 0)) (\<lambda>i.
            if i = 0 then ret st
            else
              bind_run (run_of (on_nodes st (list_del (nodes st) i))) (\<lambda>st.
              bind_run (del_work cb orig (Del_tree i) st) (\<lambda>st.
              del_work cb orig (Del_children c) st))))"

definition del_tree :: "'w callback \<Rightarrow> addr \<Rightarrow> addr \<Rightarrow> 'w tal_state \<Rightarrow> 'w tal_state outcome option" where
  "del_tree cb t orig st = del_work cb orig (Del_tree t) st"

text \<open>The parent that a property of children names.\<close>

definition parent_of_children :: "'w tal_state \<Rightarrow> addr \<Rightarrow> addr outcome" where
  "parent_of_children st c =
     bind_outcome (get_prop st c) (\<lambda>x. case x of Children _ par \<Rightarrow> Done par | _ \<Rightarrow> Undefined)"

definition tal_free :: "'w callback \<Rightarrow> addr \<Rightarrow> 'w tal_state \<Rightarrow> (addr \<times> 'w tal_state) outcome option" where
  "tal_free cb ctx st =
     (if ctx = 0 then ret (0, st)
      else
        bind_run (run_of (to_tal_hdr st ctx)) (\<lambda>t.
        bind_run (run_of (get_hdr st t)) (\<lambda>h.
          if get_destroying_bit (parent_child h) then ret (0, st)
          else
            bind_run
              (if notifiers st \<noteq> 0 then
                 bind_run (run_of (parent_of_children st (ignore_destroying_bit (parent_child h)))) (\<lambda>par.
                 notify cb par TAL_NOTIFY_DEL_CHILD ctx st)
               else ret st)
              (\<lambda>st.
            bind_run (run_of (on_nodes st (list_del (nodes st) t))) (\<lambda>st.
            bind_run (del_tree cb t ctx st) (\<lambda>st. ret (0, st)))))))"

section \<open>Allocating\<close>

definition tal_alloc :: "'w callback \<Rightarrow> addr \<Rightarrow> u64 \<Rightarrow> bool \<Rightarrow> addr \<Rightarrow> 'w tal_state \<Rightarrow> (addr \<times> 'w tal_state) outcome option" where
  "tal_alloc cb ctx sz clear label st =
     bind_run (run_of (to_tal_hdr_or_null st ctx)) (\<lambda>parent.
     bind_run (run_of (allocate (hdr_size + sz) st)) (\<lambda>(child, st).
     let st = st\<lparr>nodes := (nodes st)(child \<mapsto> \<lparr>node_next = 0, node_prev = 0\<rparr>),
                 hdrs := (hdrs st)(child \<mapsto> \<lparr>hdr_prop = label, parent_child = 0, bytelen = sz\<rparr>),
                 payload := (payload st)(child \<mapsto> replicate (unat sz) (if clear then Some 0 else None))\<rparr> in
     bind_run (add_child parent child st) (\<lambda>(_, st).
     bind_run (notify_any cb parent TAL_NOTIFY_ADD_CHILD (from_tal_hdr child) st) (\<lambda>st.
     ret (from_tal_hdr child, st)))))"

text \<open>The size of an array; an overflow is reported to \<open>errorfn\<close>, and a size of zero divides.\<close>

definition adjust_size :: "u64 \<Rightarrow> u64 \<Rightarrow> u64 outcome" where
  "adjust_size sz count =
     (if count \<noteq> 0 \<and> sz = 0 then Undefined
      else if count \<noteq> 0 \<and> sz * count div sz \<noteq> count then Abort
      else if sz * count + hdr_size < hdr_size then Abort
      else Done (sz * count))"

definition tal_alloc_arr :: "'w callback \<Rightarrow> addr \<Rightarrow> u64 \<Rightarrow> u64 \<Rightarrow> bool \<Rightarrow> addr \<Rightarrow> 'w tal_state \<Rightarrow> (addr \<times> 'w tal_state) outcome option" where
  "tal_alloc_arr cb ctx sz count clear label st =
     bind_run (run_of (adjust_size sz count)) (\<lambda>sz. tal_alloc cb ctx sz clear label st)"

definition tal_steal :: "'w callback \<Rightarrow> addr \<Rightarrow> addr \<Rightarrow> 'w tal_state \<Rightarrow> (addr \<times> 'w tal_state) outcome option" where
  "tal_steal cb new_parent ctx st =
     (if ctx = 0 then ret (ctx, st)
      else
        bind_run (run_of (to_tal_hdr_or_null st new_parent)) (\<lambda>newpar.
        bind_run (run_of (to_tal_hdr st ctx)) (\<lambda>t.
        bind_run (run_of (on_nodes st (list_del (nodes st) t))) (\<lambda>st.
        bind_run (run_of (get_hdr st t)) (\<lambda>h.
        bind_run (run_of (parent_of_children st (ignore_destroying_bit (parent_child h)))) (\<lambda>old_parent.
        bind_run (add_child newpar t st) (\<lambda>(ok, st).
          if \<not> ok then bind_run (add_child old_parent t st) (\<lambda>(ok, st). if \<not> ok then Some Abort else ret (0, st))
          else bind_run (notify_any cb t TAL_NOTIFY_STEAL new_parent st) (\<lambda>st. ret (ctx, st)))))))))"

section \<open>Destructors and notifiers\<close>

definition tal_add_destructor :: "addr \<Rightarrow> addr \<Rightarrow> 'w tal_state \<Rightarrow> (bool \<times> 'w tal_state) outcome" where
  "tal_add_destructor ctx destroy st =
     bind_outcome (to_tal_hdr st ctx) (\<lambda>t.
     bind_outcome (add_notifier_property t (TAL_NOTIFY_FREE OR NOTIFY_IS_DESTRUCTOR) destroy 0 st) (\<lambda>(p, st). Done (p \<noteq> 0, st)))"

definition tal_add_destructor2 :: "addr \<Rightarrow> addr \<Rightarrow> addr \<Rightarrow> 'w tal_state \<Rightarrow> (bool \<times> 'w tal_state) outcome" where
  "tal_add_destructor2 ctx destroy arg st =
     bind_outcome (to_tal_hdr st ctx) (\<lambda>t.
     bind_outcome (add_notifier_property t (TAL_NOTIFY_FREE OR NOTIFY_IS_DESTRUCTOR OR NOTIFY_EXTRA_ARG) destroy arg st) (\<lambda>(p, st).
     Done (p \<noteq> 0, st)))"

definition all_notify_types :: u32 where
  "all_notify_types = TAL_NOTIFY_FREE OR TAL_NOTIFY_STEAL OR TAL_NOTIFY_MOVE OR TAL_NOTIFY_RESIZE OR TAL_NOTIFY_RENAME
     OR TAL_NOTIFY_ADD_CHILD OR TAL_NOTIFY_DEL_CHILD OR TAL_NOTIFY_ADD_NOTIFIER OR TAL_NOTIFY_DEL_NOTIFIER"

definition set_types :: "addr \<Rightarrow> u32 \<Rightarrow> 'w tal_state \<Rightarrow> 'w tal_state outcome" where
  "set_types p types st = bind_outcome (get_prop st p) (\<lambda>x.
     case x of Notifier nxt _ fn arg \<Rightarrow> Done (st\<lparr>props := (props st)(p \<mapsto> Notifier nxt types fn arg)\<rparr>) | _ \<Rightarrow> Undefined)"

definition tal_add_notifier :: "'w callback \<Rightarrow> addr \<Rightarrow> u32 \<Rightarrow> addr \<Rightarrow> 'w tal_state \<Rightarrow> (bool \<times> 'w tal_state) outcome option" where
  "tal_add_notifier cb ctx types fn st =
     bind_run (run_of (to_tal_hdr_or_null st ctx)) (\<lambda>t.
       if types = 0 then Some Abort
       else if types AND NOT all_notify_types \<noteq> 0 then Some Abort
       else
         bind_run (run_of (add_notifier_property t 0 fn 0 st)) (\<lambda>(n, st).
         bind_run (notify_any cb t TAL_NOTIFY_ADD_NOTIFIER fn st) (\<lambda>st.
         bind_run (run_of (set_types n types st)) (\<lambda>st.
         ret (True, if types \<noteq> TAL_NOTIFY_FREE then st\<lparr>notifiers := notifiers st + 1\<rparr> else st)))))"

definition tal_del_notifier :: "'w callback \<Rightarrow> addr \<Rightarrow> addr \<Rightarrow> bool \<Rightarrow> addr \<Rightarrow> 'w tal_state \<Rightarrow> (bool \<times> 'w tal_state) outcome option" where
  "tal_del_notifier cb ctx fn match_extra_arg extra_arg st =
     bind_run (run_of (to_tal_hdr_or_null st ctx)) (\<lambda>t.
     bind_run (del_notifier_property t fn match_extra_arg extra_arg st) (\<lambda>(types, st).
       if types \<noteq> 0 then
         bind_run (notify cb t TAL_NOTIFY_DEL_NOTIFIER fn st) (\<lambda>st.
         ret (True, if types \<noteq> TAL_NOTIFY_FREE then st\<lparr>notifiers := notifiers st - 1\<rparr> else st))
       else ret (False, st)))"

definition tal_del_destructor :: "'w callback \<Rightarrow> addr \<Rightarrow> addr \<Rightarrow> 'w tal_state \<Rightarrow> (bool \<times> 'w tal_state) outcome option" where
  "tal_del_destructor cb ctx destroy st = tal_del_notifier cb ctx destroy False 0 st"

definition tal_del_destructor2 :: "'w callback \<Rightarrow> addr \<Rightarrow> addr \<Rightarrow> addr \<Rightarrow> 'w tal_state \<Rightarrow> (bool \<times> 'w tal_state) outcome option" where
  "tal_del_destructor2 cb ctx destroy arg st = tal_del_notifier cb ctx destroy True arg st"

section \<open>Names\<close>

partial_function (option) literal_ref_loop :: "'w tal_state \<Rightarrow> prop_ref \<Rightarrow> prop_ref outcome option" where
  "literal_ref_loop st r =
     bind_run (run_of (read_ref st r)) (\<lambda>p.
       if p = 0 then ret r
       else bind_run (run_of (get_prop st p)) (\<lambda>x. if type_of x = None then ret r else literal_ref_loop st (In_prop p)))"

text \<open>The name is a text at an address; that of a literal becomes the property itself.\<close>

definition tal_set_name :: "'w callback \<Rightarrow> addr \<Rightarrow> addr \<Rightarrow> cstr \<Rightarrow> bool \<Rightarrow> 'w tal_state \<Rightarrow> (bool \<times> 'w tal_state) outcome option" where
  "tal_set_name cb ctx name_at name literal st =
     bind_run (run_of (to_tal_hdr st ctx)) (\<lambda>t.
     bind_run (find_property_ptr st t NAME) (\<lambda>r.
     bind_run
       (case r of None \<Rightarrow> ret st
        | Some r \<Rightarrow> bind_run (run_of (read_ref st r)) (\<lambda>p. bind_run (run_of (get_prop st p)) (\<lambda>x.
            if type_of x = None then run_of (write_ref st r 0)
            else bind_run (run_of (write_ref st r (next_of x))) (\<lambda>st. run_of (free_prop p st)))))
       (\<lambda>st.
     bind_run
       (if literal \<and> name \<noteq> [] then bind_run (literal_ref_loop st (In_hdr t)) (\<lambda>r. run_of (write_ref st r name_at))
        else bind_run (run_of (add_name_property t name st)) (\<lambda>(_, st). ret st))
       (\<lambda>st.
     bind_run (notify_any cb t TAL_NOTIFY_RENAME name_at st) (\<lambda>st.
     ret (True, st))))))"

definition tal_name :: "addr \<Rightarrow> 'w tal_state \<Rightarrow> cstr option outcome option" where
  "tal_name ctx st =
     bind_run (run_of (to_tal_hdr st ctx)) (\<lambda>t.
     bind_run (find_property st t NAME) (\<lambda>n.
       if n = 0 then ret None
       else bind_run (run_of (get_prop st n)) (\<lambda>x. case x of Literal s \<Rightarrow> ret (Some s) | Name _ s \<Rightarrow> ret (Some s) | _ \<Rightarrow> Some Undefined)))"

section \<open>Looking around\<close>

definition tal_bytelen :: "addr \<Rightarrow> 'w tal_state \<Rightarrow> u64 outcome" where
  "tal_bytelen p st = bind_outcome (to_tal_hdr_or_null st p) (\<lambda>t. bind_outcome (get_hdr st t) (\<lambda>h. Done (bytelen h)))"

definition first_child :: "addr \<Rightarrow> 'w tal_state \<Rightarrow> addr outcome option" where
  "first_child parent st =
     bind_run (find_property st parent CHILDREN) (\<lambda>c.
       if c = 0 then ret 0 else run_of (list_top (nodes st) (c + head_off) 0))"

definition tal_first :: "addr \<Rightarrow> 'w tal_state \<Rightarrow> addr outcome option" where
  "tal_first root st =
     bind_run (run_of (to_tal_hdr_or_null st root)) (\<lambda>t.
     bind_run (first_child t st) (\<lambda>c. ret (if c = 0 then 0 else from_tal_hdr c)))"

definition tal_next :: "addr \<Rightarrow> 'w tal_state \<Rightarrow> addr outcome" where
  "tal_next prev st =
     bind_outcome (to_tal_hdr st prev) (\<lambda>t.
     bind_outcome (get_hdr st t) (\<lambda>h.
     bind_outcome (list_next (nodes st) (ignore_destroying_bit (parent_child h) + head_off) t 0) (\<lambda>n.
     Done (if n = 0 then 0 else from_tal_hdr n))))"

definition tal_parent :: "addr \<Rightarrow> 'w tal_state \<Rightarrow> addr outcome" where
  "tal_parent ctx st =
     (if ctx = 0 then Done 0
      else
        bind_outcome (to_tal_hdr st ctx) (\<lambda>t.
        bind_outcome (get_hdr st t) (\<lambda>h.
        bind_outcome (parent_of_children st (ignore_destroying_bit (parent_child h))) (\<lambda>par.
        Done (if par = null_parent st then 0 else from_tal_hdr par)))))"

end
