(* ===== verification/Tal_Rep.thy ===== *)
theory Tal_Rep
  imports Tal
begin

text \<open>
  The trees that \<open>tal.c\<close> keeps in its heaps.  A tree is the address of a header, those of its
  properties, that of its property of children (0 if there is none), and the trees of the children.
  What the loops over properties do, and how a tree is taken out of and put into the list of a parent.
\<close>

section \<open>Trees in memory\<close>

datatype alloc = Alloc (hdr_at: addr) (props_at: "addr list") (children_at: addr) (kids: "alloc list")

primrec hdr_addrs :: "alloc \<Rightarrow> addr list" where
  "hdr_addrs (Alloc t ps c ts) = t # concat (map hdr_addrs ts)"

primrec prop_addrs :: "alloc \<Rightarrow> addr list" where
  "prop_addrs (Alloc t ps c ts) = ps @ concat (map prop_addrs ts)"

text \<open>The list nodes of a tree: those of its headers and the heads of its lists of children.\<close>

primrec node_addrs :: "alloc \<Rightarrow> addr list" where
  "node_addrs (Alloc t ps c ts) = t # (if c = 0 then [] else [c + head_off]) @ concat (map node_addrs ts)"

definition separated :: "alloc \<Rightarrow> bool" where
  "separated T \<longleftrightarrow> distinct (hdr_addrs T) \<and> distinct (prop_addrs T) \<and> distinct (node_addrs T)"

fun prop_chain :: "(addr \<rightharpoonup> property) \<Rightarrow> addr \<Rightarrow> addr list \<Rightarrow> bool" where
  "prop_chain P p [] \<longleftrightarrow> p = 0 \<or> (\<exists>s. s \<noteq> [] \<and> P p = Some (Literal s))"
| "prop_chain P p (q # qs) \<longleftrightarrow> p = q \<and> q \<noteq> 0 \<and> (\<exists>x. P q = Some x \<and> type_of x \<noteq> None \<and> prop_chain P (next_of x) qs)"

definition is_children :: "(addr \<rightharpoonup> property) \<Rightarrow> addr \<Rightarrow> bool" where
  "is_children P p \<longleftrightarrow> (\<exists>n par. P p = Some (Children n par))"

lemma is_children_iff: "is_children P p \<longleftrightarrow> map_option type_of (P p) = Some (Some CHILDREN)"
  by (cases "P p"; cases "the (P p)") (auto simp: is_children_def)

text \<open>The property of children is the only one of its type, and its callbacks can be called.\<close>

definition only_children :: "(addr \<rightharpoonup> property) \<Rightarrow> addr list \<Rightarrow> addr \<Rightarrow> bool" where
  "only_children P ps c \<longleftrightarrow> set ps \<inter> Collect (is_children P) = (if c = 0 then {} else {c})"

definition props_ok :: "(addr \<rightharpoonup> property) \<Rightarrow> addr \<Rightarrow> addr list \<Rightarrow> addr \<Rightarrow> bool" where
  "props_ok P t ps c \<longleftrightarrow> only_children P ps c \<and> (c \<noteq> 0 \<longrightarrow> (\<exists>n. P c = Some (Children n t))) \<and>
     (\<forall>p\<in>set ps. \<forall>n types fn arg. P p = Some (Notifier n types fn arg) \<longrightarrow> fn \<noteq> 0)"

lemma only_children_cong:
  "only_children P ps c \<Longrightarrow> \<forall>p\<in>set ps. is_children P' p = is_children P p \<Longrightarrow> only_children P' ps c"
proof -
  assume a: "only_children P ps c" "\<forall>p\<in>set ps. is_children P' p = is_children P p"
  have "set ps \<inter> Collect (is_children P') = set ps \<inter> Collect (is_children P)" using a(2) by auto
  then show ?thesis using a(1) by (simp add: only_children_def)
qed

primrec rep :: "'w tal_state \<Rightarrow> alloc \<Rightarrow> bool" where
  "rep st (Alloc t ps c ts) \<longleftrightarrow>
     (\<exists>h. hdrs st t = Some h \<and> prop_chain (props st) (hdr_prop h) ps \<and> \<not> get_destroying_bit (parent_child h)) \<and>
     props_ok (props st) t ps c \<and>
     (if c = 0 then ts = [] else proper_list (nodes st) (c + head_off) (map hdr_at ts)) \<and>
     list_all id (map (rep st) ts) \<and>
     (\<forall>x\<in>set ts. \<exists>h. hdrs st (hdr_at x) = Some h \<and> parent_child h = c XOR TAL_PTR_OBFUSTICATOR)"

lemma hdr_at_in: "hdr_at T \<in> set (hdr_addrs T)" "hdr_at T \<in> set (node_addrs T)"
  by (cases T; simp)+

lemma hdr_addrs_node_addrs: "set (hdr_addrs T) \<subseteq> set (node_addrs T)"
  by (induction T) auto

lemma prop_chain_cong:
  "prop_chain P p ps \<Longrightarrow> \<forall>q\<in>set ps. P' q = P q \<Longrightarrow> \<forall>q s. P q = Some (Literal s) \<longrightarrow> P' q = Some (Literal s) \<Longrightarrow> prop_chain P' p ps"
  by (induction P p ps rule: prop_chain.induct) auto

lemma is_list_cong: "\<forall>a\<in>set (lh # xs). h a = h' a \<Longrightarrow> is_list h lh xs \<longleftrightarrow> is_list h' lh xs"
  unfolding is_list_def by (rule ring_cong) (auto simp: nexts_def prevs_def)

text \<open>A state that agrees on what belongs to a tree has it too; the node of its root is its parent's.\<close>

definition agrees :: "alloc \<Rightarrow> 'w tal_state \<Rightarrow> 'w tal_state \<Rightarrow> bool" where
  "agrees T st st' \<longleftrightarrow> (\<forall>a\<in>set (hdr_addrs T). hdrs st' a = hdrs st a) \<and> (\<forall>p\<in>set (prop_addrs T). props st' p = props st p) \<and>
     (\<forall>a\<in>set (tl (node_addrs T)). nodes st' a = nodes st a) \<and> (\<forall>p s. props st p = Some (Literal s) \<longrightarrow> props st' p = Some (Literal s))"

lemma in_tl: "a \<in> set (tl as) \<Longrightarrow> a \<in> set as"
  by (cases as) simp_all

lemma agrees_kid:
  assumes "agrees (Alloc t ps c ts) st st'" and "x \<in> set ts"
  shows "agrees x st st'"
proof -
  have "set (tl (node_addrs x)) \<subseteq> set (tl (node_addrs (Alloc t ps c ts)))"
    using assms(2) by (auto dest: in_tl)
  then show ?thesis using assms by (auto simp: agrees_def)
qed

lemma rep_agrees: "rep st T \<Longrightarrow> agrees T st st' \<Longrightarrow> rep st' T"
proof (induction T)
  case (Alloc t ps c ts)
  note ag = Alloc.prems(2)
  have kids: "list_all id (map (rep st') ts)"
    using Alloc.IH Alloc.prems(1) agrees_kid [OF ag] by (auto simp: list_all_iff)
  have "\<forall>a\<in>set ((c + head_off) # map hdr_at ts). nodes st' a = nodes st a" if "c \<noteq> 0"
    using ag that hdr_at_in(2) by (auto simp: agrees_def)
  then have "proper_list (nodes st') (c + head_off) (map hdr_at ts)" if "c \<noteq> 0"
    using Alloc.prems(1) that is_list_cong [of "c + head_off" "map hdr_at ts" "nodes st'" "nodes st"] by (simp add: proper_list_def)
  moreover have "\<forall>p\<in>set ps. props st' p = props st p" "\<forall>x\<in>set ts. hdrs st' (hdr_at x) = hdrs st (hdr_at x)" "hdrs st' t = hdrs st t"
    using ag hdr_at_in(1) by (auto simp: agrees_def)
  moreover from this(1) have "props_ok (props st') t ps c"
  proof -
    have "only_children (props st') ps c"
      by (rule only_children_cong [of "props st"]) (use Alloc.prems(1) \<open>\<forall>p\<in>set ps. props st' p = props st p\<close> in \<open>simp_all add: props_ok_def is_children_def\<close>)
    moreover have "c \<noteq> 0 \<Longrightarrow> c \<in> set ps" using Alloc.prems(1) by (auto simp: props_ok_def only_children_def)
    ultimately show ?thesis using Alloc.prems(1) \<open>\<forall>p\<in>set ps. props st' p = props st p\<close> by (simp add: props_ok_def)
  qed
  moreover have "prop_chain (props st') p ps" if "prop_chain (props st) p ps" for p
    by (rule prop_chain_cong [OF that]) (use ag in \<open>auto simp: agrees_def\<close>)
  ultimately show ?case using Alloc.prems(1) kids by auto
qed

section \<open>Walking the properties\<close>

text \<open>What a notification of the given type tells the callback of a property, and what it leaves.\<close>

definition notices :: "addr \<Rightarrow> addr \<Rightarrow> u32 \<Rightarrow> u64 \<Rightarrow> property option \<Rightarrow> (addr \<times> notice) list" where
  "notices np t type info x =
     (case x of Some (Notifier nxt types fn arg) \<Rightarrow>
        if types AND type \<noteq> 0 then
          [(fn, if types AND NOTIFY_IS_DESTRUCTOR \<noteq> 0 then
                  if types AND NOTIFY_EXTRA_ARG \<noteq> 0 then Destroy2 (from_tal_hdr t) arg else Destroy (from_tal_hdr t)
                else Notify (if t = np then 0 else from_tal_hdr t) type info)]
        else []
      | _ \<Rightarrow> [])"

fun after_notice :: "u32 \<Rightarrow> property \<Rightarrow> property" where
  "after_notice type (Notifier nxt types fn arg) =
     (if types AND type \<noteq> 0 \<and> types AND NOTIFY_IS_DESTRUCTOR \<noteq> 0 then Notifier nxt types 0 arg else Notifier nxt types fn arg)"
| "after_notice type x = x"

lemma after_notice_same [simp]: "next_of (after_notice type x) = next_of x" "type_of (after_notice type x) = type_of x"
  by (cases "(type, x)" rule: after_notice.cases; simp)+

definition notice_props :: "u32 \<Rightarrow> addr list \<Rightarrow> (addr \<rightharpoonup> property) \<Rightarrow> addr \<rightharpoonup> property" where
  "notice_props type ps P = (\<lambda>p. if p \<in> set ps then map_option (after_notice type) (P p) else P p)"

definition tell :: "(addr \<Rightarrow> notice \<Rightarrow> 'w \<Rightarrow> 'w) \<Rightarrow> (addr \<times> notice) list \<Rightarrow> 'w \<Rightarrow> 'w" where
  "tell act = fold (\<lambda>(fn, x). act fn x)"

text \<open>Callbacks that leave the memory alone.\<close>

definition outside :: "'w callback \<Rightarrow> (addr \<Rightarrow> notice \<Rightarrow> 'w \<Rightarrow> 'w) \<Rightarrow> bool" where
  "outside cb act \<longleftrightarrow> (\<forall>fn x st. cb fn x st = ret (st\<lparr>world := act fn x (world st)\<rparr>))"

lemma notify_step:
  assumes "outside cb act" and "props st p = Some x" and "p \<noteq> 0" and "type_of x \<noteq> None"
    and "\<forall>n types fn arg. x = Notifier n types fn arg \<longrightarrow> fn \<noteq> 0"
  shows "notify_loop cb t type info p st =
    notify_loop cb t type info (next_of x) (st\<lparr>props := (props st)(p \<mapsto> after_notice type x), world := tell act (notices (null_parent st) t type info (Some x)) (world st)\<rparr>)"
proof (cases x)
  case (Notifier n types fn arg)
  have same: "st\<lparr>world := world st\<rparr> = st" "st\<lparr>props := (props st)(p \<mapsto> x)\<rparr> = st"
    using assms(2) by (simp_all add: fun_upd_idem)
  show ?thesis using assms Notifier same
    by (simp add: notify_loop.simps [of cb t type info p st] get_prop_def call_fn_def outside_def tell_def notices_def from_tal_hdr_or_null_def fun_upd_idem Let_def)
next
  case (Literal s)
  then show ?thesis using assms(4) by simp
qed (use assms in \<open>simp_all add: notify_loop.simps [of cb t type info p st] get_prop_def tell_def notices_def fun_upd_idem\<close>)

lemma notify_loop_chain:
  assumes "outside cb act"
  shows "prop_chain (props st) p ps \<Longrightarrow> distinct ps \<Longrightarrow> \<forall>q\<in>set ps. \<forall>n types fn arg. props st q = Some (Notifier n types fn arg) \<longrightarrow> fn \<noteq> 0 \<Longrightarrow>
    notify_loop cb t type info p st = ret (st\<lparr>props := notice_props type ps (props st),
      world := tell act (concat (map (\<lambda>q. notices (null_parent st) t type info (props st q)) ps)) (world st)\<rparr>)"
proof (induction ps arbitrary: p st)
  case Nil
  then show ?case by (auto simp: notify_loop.simps [of cb t type info p st] get_prop_def notice_props_def tell_def)
next
  case (Cons q qs)
  obtain x where x: "p = q" "q \<noteq> 0" "props st q = Some x" "type_of x \<noteq> None" "prop_chain (props st) (next_of x) qs"
    using Cons.prems(1) by auto
  define st' where "st' = st\<lparr>props := (props st)(q \<mapsto> after_notice type x), world := tell act (notices (null_parent st) t type info (Some x)) (world st)\<rparr>"
  have "notify_loop cb t type info p st = notify_loop cb t type info (next_of x) st'"
    unfolding x(1) st'_def by (rule notify_step [OF assms x(3,2,4)]) (use Cons.prems(3) x(3) in auto)
  also have "\<dots> = ret (st'\<lparr>props := notice_props type qs (props st'),
      world := tell act (concat (map (\<lambda>q. notices (null_parent st') t type info (props st' q)) qs)) (world st')\<rparr>)"
  proof (rule Cons.IH)
    show "prop_chain (props st') (next_of x) qs"
      by (rule prop_chain_cong [OF x(5)]) (use Cons.prems(2) x(3,4) in \<open>auto simp: st'_def\<close>)
  qed (use Cons.prems in \<open>auto simp: st'_def\<close>)
  also have "map (\<lambda>q. notices (null_parent st') t type info (props st' q)) qs = map (\<lambda>q. notices (null_parent st) t type info (props st q)) qs"
    by (rule map_cong [OF refl]) (use Cons.prems(2) in \<open>auto simp: st'_def\<close>)
  also have "notice_props type qs (props st') = notice_props type (q # qs) (props st)"
    using Cons.prems(2) x(3) by (auto simp: notice_props_def st'_def fun_eq_iff)
  finally show ?case using x(3) by (simp add: st'_def tell_def)
qed

lemma find_property_loop_chain:
  "prop_chain (props st) p ps \<Longrightarrow> read_ref st r = Done p \<Longrightarrow> only_children (props st) ps c \<Longrightarrow>
     \<exists>r'. find_property_loop st CHILDREN r = ret r' \<and> (if c = 0 then r' = None else \<exists>r''. r' = Some r'' \<and> read_ref st r'' = Done c)"
proof (induction ps arbitrary: p r)
  case Nil
  then have "c = 0" by (auto simp: only_children_def split: if_splits)
  then show ?case using Nil by (auto simp: find_property_loop.simps [of st CHILDREN r] get_prop_def)
next
  case (Cons q qs)
  obtain x where x: "p = q" "q \<noteq> 0" "props st q = Some x" "type_of x \<noteq> None" "prop_chain (props st) (next_of x) qs"
    using Cons.prems(1) by auto
  have step: "find_property_loop st CHILDREN r =
      (if type_of x = Some CHILDREN then ret (Some r) else find_property_loop st CHILDREN (In_prop q))"
    by (subst find_property_loop.simps) (use x Cons.prems(2) in \<open>auto simp: get_prop_def\<close>)
  show ?case
  proof (cases "type_of x = Some CHILDREN")
    case True
    then have "q \<in> set (q # qs) \<inter> Collect (is_children (props st))" using x(3) by (simp add: is_children_iff)
    then have "q = c" "c \<noteq> 0" using Cons.prems(3) unfolding only_children_def by (auto split: if_splits)
    then show ?thesis using step Cons.prems(2) True x(1) by simp
  next
    case False
    then have "\<not> is_children (props st) q" using x(3) by (simp add: is_children_iff)
    then have "only_children (props st) qs c" using Cons.prems(3) unfolding only_children_def by auto
    moreover have "read_ref st (In_prop q) = Done (next_of x)" using x(3,4) by (simp add: get_prop_def)
    ultimately show ?thesis using Cons.IH [OF x(5)] step False by simp
  qed
qed

lemma free_props_loop_chain:
  "prop_chain (props st) p ps \<Longrightarrow> distinct ps \<Longrightarrow>
     free_props_loop p st = ret (st\<lparr>props := props st |` (- set ps),
       nodes := nodes st |` (- (\<lambda>q. q + head_off) ` (set ps \<inter> Collect (is_children (props st))))\<rparr>)"
proof (induction ps arbitrary: p st)
  case Nil
  then show ?case by (auto simp: free_props_loop.simps [of p st] get_prop_def)
next
  case (Cons q qs)
  obtain x where x: "p = q" "q \<noteq> 0" "props st q = Some x" "type_of x \<noteq> None" "prop_chain (props st) (next_of x) qs"
    using Cons.prems(1) by auto
  define st' where "st' = st\<lparr>props := (props st)(q := None),
    nodes := (if type_of x = Some CHILDREN then (nodes st)(q + head_off := None) else nodes st)\<rparr>"
  have "free_props_loop p st = free_props_loop (next_of x) st'"
    using x by (auto simp: free_props_loop.simps [of q st] get_prop_def free_prop_def st'_def)
  also have "\<dots> = ret (st'\<lparr>props := props st' |` (- set qs),
       nodes := nodes st' |` (- (\<lambda>q. q + head_off) ` (set qs \<inter> Collect (is_children (props st'))))\<rparr>)"
  proof (rule Cons.IH)
    show "prop_chain (props st') (next_of x) qs"
      by (rule prop_chain_cong [OF x(5)]) (use Cons.prems(2) x(3,4) in \<open>auto simp: st'_def\<close>)
  qed (use Cons.prems(2) in simp)
  also have "props st' |` (- set qs) = props st |` (- set (q # qs))"
    by (auto simp: st'_def restrict_map_def fun_eq_iff)
  also have "set qs \<inter> Collect (is_children (props st')) = set qs \<inter> Collect (is_children (props st))"
    using Cons.prems(2) by (auto simp: st'_def is_children_def split: if_splits)
  also have "nodes st' |` (- (\<lambda>q. q + head_off) ` (set qs \<inter> Collect (is_children (props st)))) =
      nodes st |` (- (\<lambda>q. q + head_off) ` (set (q # qs) \<inter> Collect (is_children (props st))))"
  proof (cases "type_of x = Some CHILDREN")
    case True
    then have "set (q # qs) \<inter> Collect (is_children (props st)) = insert q (set qs \<inter> Collect (is_children (props st)))"
      using x(3) by (auto simp: is_children_iff)
    then show ?thesis using True by (auto simp: st'_def restrict_map_def fun_eq_iff)
  next
    case False
    then have "set (q # qs) \<inter> Collect (is_children (props st)) = set qs \<inter> Collect (is_children (props st))"
      using x(3) by (auto simp: is_children_iff)
    then show ?thesis using False by (simp add: st'_def)
  qed
  finally show ?case by (simp add: st'_def)
qed

section \<open>Children in the list of their parent\<close>

lemma prop_chain_types: "prop_chain P p ps \<Longrightarrow> q \<in> set ps \<Longrightarrow> \<exists>x. P q = Some x \<and> type_of x \<noteq> None"
  by (induction P p ps rule: prop_chain.induct) auto

lemma rep_prop_types: "rep st T \<Longrightarrow> q \<in> set (prop_addrs T) \<Longrightarrow> \<exists>x. props st q = Some x \<and> type_of x \<noteq> None"
proof (induction T)
  case (Alloc t ps c ts)
  then show ?case using prop_chain_types by (auto simp: list_all_iff)
qed

lemma rep_not_literal: "rep st T \<Longrightarrow> props st p = Some (Literal s) \<Longrightarrow> p \<notin> set (prop_addrs T)"
  using rep_prop_types by fastforce

lemma distinct_concat_disjoint:
  "distinct (concat (map f xs)) \<Longrightarrow> y \<in> set xs \<Longrightarrow> z \<in> set xs \<Longrightarrow> y \<noteq> z \<Longrightarrow> set (f y) \<inter> set (f z) = {}"
  by (induction xs) (auto 0 3)

text \<open>The nodes inside a tree are not the roots of its siblings.\<close>

lemma inner_not_root:
  assumes "distinct (concat (map node_addrs xs))" and "y \<in> set xs" and "a \<in> set (tl (node_addrs y))" and "z \<in> set xs"
  shows "a \<noteq> hdr_at z"
proof (cases "z = y")
  case True
  have "distinct (node_addrs y)" using assms(1,2) by (auto simp: distinct_concat_iff)
  then show ?thesis using True assms(3) by (cases y) auto
next
  case False
  then show ?thesis using distinct_concat_disjoint [OF assms(1,4,2)] in_tl [OF assms(3)] hdr_at_in(2) [of z] by auto
qed

lemma restrict_UNIV: "m |` UNIV = m"
  by (simp add: restrict_map_def)

text \<open>A parent with other children, each of them in memory.\<close>

lemma rep_kids:
  assumes "rep st (Alloc p ps c ts)" and "hdrs st' p = hdrs st p" and "\<forall>q\<in>set ps. props st' q = props st q"
    and "\<forall>q s. props st q = Some (Literal s) \<longrightarrow> props st' q = Some (Literal s)"
    and "c \<noteq> 0" and "proper_list (nodes st') (c + head_off) (map hdr_at ts')"
    and "\<forall>y\<in>set ts'. rep st' y \<and> (\<exists>h. hdrs st' (hdr_at y) = Some h \<and> parent_child h = c XOR TAL_PTR_OBFUSTICATOR)"
  shows "rep st' (Alloc p ps c ts')"
proof -
  have "c \<in> set ps" using assms(1,5) by (auto simp: props_ok_def only_children_def)
  moreover have "only_children (props st') ps c"
    by (rule only_children_cong [of "props st"]) (use assms(1,3) in \<open>simp_all add: props_ok_def is_children_def\<close>)
  ultimately have "props_ok (props st') p ps c" using assms(1,3) by (simp add: props_ok_def)
  moreover have "prop_chain (props st') q ps" if "prop_chain (props st) q ps" for q
    by (rule prop_chain_cong [OF that]) (use assms(3,4) in auto)
  ultimately show ?thesis using assms(1,2,5-7) by (auto simp: list_all_iff)
qed

lemma roots_in_nodes: "y \<in> set ts \<Longrightarrow> hdr_at y \<in> set (concat (map node_addrs ts))"
  using hdr_at_in(2) by auto

text \<open>Changing the links between siblings changes nothing that belongs to one of them.\<close>

lemma agrees_links:
  assumes "distinct (lh # concat (map node_addrs ts))" and "y \<in> set ts" and "\<forall>a. a \<notin> set (lh # map hdr_at ts) \<longrightarrow> h a = nodes st a"
  shows "agrees y st (st\<lparr>nodes := h\<rparr>)"
proof -
  have "h a = nodes st a" if a: "a \<in> set (tl (node_addrs y))" for a
  proof -
    have "\<forall>z\<in>set ts. a \<noteq> hdr_at z" using inner_not_root [OF _ assms(2) a] assms(1) by simp
    moreover have "a \<noteq> lh" using assms(1,2) in_tl [OF a] by auto
    ultimately show ?thesis using assms(3) by auto
  qed
  then show ?thesis by (simp add: agrees_def)
qed

lemma unlink_child:
  assumes "proper_list (nodes st) lh (map hdr_at (us @ T # vs))" and "distinct (lh # concat (map node_addrs (us @ T # vs)))"
  obtains h where "list_del (nodes st) (hdr_at T) = Done h" and "proper_list h lh (map hdr_at (us @ vs))" and "dom h = dom (nodes st)"
    and "\<And>a. a \<notin> set (lh # map hdr_at (us @ vs)) \<Longrightarrow> h a = nodes st a"
    and "\<And>y. y \<in> set (us @ T # vs) \<Longrightarrow> agrees y st (st\<lparr>nodes := h\<rparr>)"
proof -
  obtain h where h: "list_del (nodes st) (hdr_at T) = Done h" "is_list h lh (map hdr_at (us @ vs))"
      "changes_in (set (lh # map hdr_at (us @ vs))) (nodes st) h"
    using list_del_list [of "nodes st" lh "map hdr_at us" "hdr_at T" "map hdr_at vs"] assms(1) by (auto simp: proper_list_def)
  have frame: "h a = nodes st a" if "a \<notin> set (lh # map hdr_at (us @ vs))" for a using h(3) that by (simp add: changes_in_def)
  show thesis
  proof (rule that [OF h(1) _ _ frame])
    show "proper_list h lh (map hdr_at (us @ vs))" using h(2) assms(1) by (simp add: proper_list_def)
    show "dom h = dom (nodes st)" using h(3) by (simp add: changes_in_def)
    show "agrees y st (st\<lparr>nodes := h\<rparr>)" if "y \<in> set (us @ T # vs)" for y
      by (rule agrees_links [OF assms(2) that]) (use frame in auto)
  qed
qed

lemma link_first_child:
  assumes "proper_list (nodes st) lh (map hdr_at ts)" and "distinct (lh # concat (map node_addrs (X # ts)))"
    and "hdr_at X \<in> dom (nodes st)" and "hdr_at X \<noteq> 0"
  obtains h where "list_add (nodes st) lh (hdr_at X) = Done h" and "proper_list h lh (map hdr_at (X # ts))" and "dom h = dom (nodes st)"
    and "\<And>a. a \<notin> set (lh # map hdr_at (X # ts)) \<Longrightarrow> h a = nodes st a"
    and "\<And>y. y \<in> set (X # ts) \<Longrightarrow> agrees y st (st\<lparr>nodes := h\<rparr>)"
proof -
  have "hdr_at X \<notin> set (lh # map hdr_at ts)" using assms(2) roots_in_nodes hdr_at_in(2) [of X] by fastforce
  then obtain h where h: "list_add (nodes st) lh (hdr_at X) = Done h" "is_list h lh (map hdr_at (X # ts))"
      "changes_in (set (lh # map hdr_at (X # ts))) (nodes st) h"
    using list_add_after_list [of "nodes st" lh "[]" "map hdr_at ts" "hdr_at X" lh] assms(1,3) by (auto simp: proper_list_def list_add_def)
  have frame: "h a = nodes st a" if "a \<notin> set (lh # map hdr_at (X # ts))" for a using h(3) that by (simp add: changes_in_def)
  show thesis
  proof (rule that [OF h(1) _ _ frame])
    show "proper_list h lh (map hdr_at (X # ts))" using h(2) assms(1,4) by (simp add: proper_list_def)
    show "dom h = dom (nodes st)" using h(3) by (simp add: changes_in_def)
    show "agrees y st (st\<lparr>nodes := h\<rparr>)" if "y \<in> set (X # ts)" for y
      by (rule agrees_links [OF assms(2) that]) (use frame in auto)
  qed
qed

lemma agrees_trans: "agrees T st st1 \<Longrightarrow> agrees T st1 st2 \<Longrightarrow> agrees T st st2"
  by (simp add: agrees_def)

text \<open>The property of children is found, whatever the other properties are.\<close>

lemma find_children:
  assumes "hdrs st t = Some h" and "prop_chain (props st) (hdr_prop h) ps" and "only_children (props st) ps c"
  obtains r where "find_property_ptr st t CHILDREN = ret r" and "if c = 0 then r = None else \<exists>r'. r = Some r' \<and> read_ref st r' = Done c"
    and "find_property st t CHILDREN = ret c"
proof -
  have "read_ref st (In_hdr t) = Done (hdr_prop h)" using assms(1) by (simp add: get_hdr_def)
  from find_property_loop_chain [OF assms(2) this assms(3)] show thesis
    using that by (auto simp: find_property_ptr_def find_property_def split: if_splits)
qed

text \<open>A notification changes neither the types of the properties nor their order.\<close>

lemma notice_props_type [simp]: "map_option type_of (notice_props type qs P q) = map_option type_of (P q)"
  by (simp add: notice_props_def option.map_comp comp_def)

lemma notice_props_literal [simp]: "notice_props type qs P q = Some (Literal s) \<longleftrightarrow> P q = Some (Literal s)"
proof -
  have "after_notice type x = Literal s \<longleftrightarrow> x = Literal s" for x by (cases "(type, x)" rule: after_notice.cases) auto
  then show ?thesis by (auto simp: notice_props_def)
qed

lemma notice_props_chain: "prop_chain P p ps \<Longrightarrow> prop_chain (notice_props type qs P) p ps"
  by (induction P p ps rule: prop_chain.induct) (auto simp: notice_props_def)

lemma notice_props_only: "only_children P ps c \<Longrightarrow> only_children (notice_props type qs P) ps c"
  by (erule only_children_cong) (simp add: is_children_iff)

end
