(* ===== verification/Tal_Tree.thy ===== *)
theory Tal_Tree
  imports Tal_Rep Amount
begin

text \<open>
  What freeing a tree does, notices included, and that allocating adds a child.
\<close>

section \<open>Freeing a tree\<close>

definition erase :: "alloc list \<Rightarrow> 'w tal_state \<Rightarrow> 'w tal_state" where
  "erase Ts st = st\<lparr>hdrs := hdrs st |` (- set (concat (map hdr_addrs Ts))), props := props st |` (- set (concat (map prop_addrs Ts))),
     nodes := nodes st |` (- set (concat (map node_addrs Ts))), payload := payload st |` (- set (concat (map hdr_addrs Ts)))\<rparr>"

text \<open>The notices of a tree that is freed: parents before children, those in the order of the list.\<close>

primrec free_notices :: "'w tal_state \<Rightarrow> addr \<Rightarrow> alloc \<Rightarrow> (addr \<times> notice) list" where
  "free_notices st orig (Alloc t ps c ts) =
     concat (map (\<lambda>q. notices (null_parent st) t TAL_NOTIFY_FREE orig (props st q)) ps) @ concat (map (free_notices st orig) ts)"

definition untaken :: "'w tal_state \<Rightarrow> alloc \<Rightarrow> bool" where
  "untaken st T \<longleftrightarrow> (\<forall>t\<in>set (hdr_addrs T). from_tal_hdr t \<noteq> 0 \<and> from_tal_hdr t \<notin> set (pending (takes st)))"

lemma assert_not_taken_untaken:
  "p \<noteq> 0 \<Longrightarrow> p \<notin> set (pending (takes st)) \<Longrightarrow> assert_not_taken p st = Done st"
  by (simp add: assert_not_taken_def taken_def find_taken_def find_taken_loop_iff pending_def)

lemma free_notices_cong:
  "\<forall>p\<in>set (prop_addrs T). props st' p = props st p \<Longrightarrow> null_parent st' = null_parent st \<Longrightarrow> free_notices st' orig T = free_notices st orig T"
proof (induction T)
  case (Alloc t ps c ts)
  have "free_notices st' orig x = free_notices st orig x" if "x \<in> set ts" for x
    by (rule Alloc.IH [OF that]) (use Alloc.prems that in auto)
  then have "map (free_notices st' orig) ts = map (free_notices st orig) ts" by simp
  moreover have "map (\<lambda>q. notices (null_parent st') t TAL_NOTIFY_FREE orig (props st' q)) ps =
      map (\<lambda>q. notices (null_parent st) t TAL_NOTIFY_FREE orig (props st q)) ps"
    using Alloc.prems by simp
  ultimately show ?case by (simp only: free_notices.simps)
qed

lemma erase_fields [simp]:
  "hdrs (erase Ts st) = hdrs st |` (- set (concat (map hdr_addrs Ts)))" "props (erase Ts st) = props st |` (- set (concat (map prop_addrs Ts)))"
  "nodes (erase Ts st) = nodes st |` (- set (concat (map node_addrs Ts)))" "payload (erase Ts st) = payload st |` (- set (concat (map hdr_addrs Ts)))"
  "null_parent (erase Ts st) = null_parent st" "takes (erase Ts st) = takes st" "world (erase Ts st) = world st"
  by (simp_all add: erase_def)

lemma agrees_erase:
  assumes "rep st T" and "set (hdr_addrs y) \<inter> set (hdr_addrs T) = {}" and "set (prop_addrs y) \<inter> set (prop_addrs T) = {}"
    and "set (node_addrs y) \<inter> set (node_addrs T) = {}"
  shows "agrees y st (erase [T] (st\<lparr>world := w\<rparr>))"
proof -
  have "p \<notin> set (prop_addrs T)" if "props st p = Some (Literal s)" for p s using rep_not_literal [OF assms(1) that] .
  then show ?thesis using assms(2-4) by (auto simp: agrees_def restrict_map_def dest: in_tl)
qed

text \<open>The loop over the children, when each of them is freed as the specification says.\<close>

lemma del_children_rep:
  assumes tree: "\<And>x st. x \<in> set xs \<Longrightarrow> rep st x \<Longrightarrow> separated x \<Longrightarrow> untaken st x \<Longrightarrow>
      del_work cb orig (Del_tree (hdr_at x)) st = ret (erase [x] (st\<lparr>world := tell act (free_notices st orig x) (world st)\<rparr>))"
    and "proper_list (nodes st) (c + head_off) (map hdr_at xs)" and "\<forall>x\<in>set xs. rep st x \<and> untaken st x"
    and "distinct (concat (map hdr_addrs xs))" and "distinct (concat (map prop_addrs xs))"
    and "distinct ((c + head_off) # concat (map node_addrs xs))"
  shows "\<exists>nd. del_work cb orig (Del_children c) st = ret ((erase xs (st\<lparr>world := tell act (concat (map (free_notices st orig) xs)) (world st)\<rparr>))
    \<lparr>nodes := (nodes st |` (- set (concat (map node_addrs xs))))(c + head_off \<mapsto> nd)\<rparr>)"
  using assms
proof (induction xs arbitrary: st)
  case Nil
  then have "list_top (nodes st) (c + head_off) 0 = Done 0" using nodes.peek_empty by simp
  moreover have "c + head_off \<in> dom (nodes st)" using Nil.prems(2) is_list_ends(3) by (auto simp: proper_list_def)
  then obtain nd where "nodes st (c + head_off) = Some nd" by blast
  moreover from this have "(nodes st)(c + head_off \<mapsto> nd) = nodes st" by auto
  ultimately show ?case by (intro exI [of _ nd]) (simp add: del_work.simps [of cb orig "Del_children c" st] erase_def tell_def restrict_UNIV)
next
  case (Cons x xs)
  obtain h where h: "list_del (nodes st) (hdr_at x) = Done h" "proper_list h (c + head_off) (map hdr_at xs)" "dom h = dom (nodes st)"
      "\<And>a. a \<notin> set ((c + head_off) # map hdr_at xs) \<Longrightarrow> h a = nodes st a" "\<And>y. y \<in> set (x # xs) \<Longrightarrow> agrees y st (st\<lparr>nodes := h\<rparr>)"
    using unlink_child [of st "c + head_off" "[]" x xs] Cons.prems(2,6) by auto
  define stA where "stA = st\<lparr>nodes := h\<rparr>"
  define stB where "stB = erase [x] (stA\<lparr>world := tell act (free_notices st orig x) (world st)\<rparr>)"
  have step: "del_work cb orig (Del_children c) st = bind_run (del_work cb orig (Del_tree (hdr_at x)) stA) (\<lambda>st. del_work cb orig (Del_children c) st)"
    using nodes.peek_first [of "nodes st" "c + head_off" "hdr_at x" "map hdr_at xs"] Cons.prems(2) h(1)
    by (simp add: del_work.simps [of cb orig "Del_children c" st] on_nodes_def stA_def)
  have repA: "rep stA y" if "y \<in> set (x # xs)" for y using rep_agrees [OF _ h(5) [OF that]] Cons.prems(3) that by (auto simp: stA_def)
  have told: "free_notices stA orig x = free_notices st orig x" by (rule free_notices_cong) (simp_all add: stA_def)
  have "separated x" "untaken stA x" using Cons.prems(3-6) by (simp_all add: separated_def untaken_def stA_def)
  then have B: "del_work cb orig (Del_tree (hdr_at x)) stA = ret stB"
    using Cons.prems(1) [of x stA] repA told by (simp add: stB_def stA_def)
  have agB: "agrees y st stB" if "y \<in> set xs" for y
  proof (rule agrees_trans [OF h(5), folded stA_def])
    have "set (hdr_addrs y) \<inter> set (hdr_addrs x) = {}" "set (prop_addrs y) \<inter> set (prop_addrs x) = {}" "set (node_addrs y) \<inter> set (node_addrs x) = {}"
      using Cons.prems(4-6) that by auto
    then show "agrees y stA stB" unfolding stB_def by (intro agrees_erase [OF repA]) simp_all
  qed (use that in simp)
  have "\<exists>nd. del_work cb orig (Del_children c) stB = ret ((erase xs (stB\<lparr>world := tell act (concat (map (free_notices stB orig) xs)) (world stB)\<rparr>))
    \<lparr>nodes := (nodes stB |` (- set (concat (map node_addrs xs))))(c + head_off \<mapsto> nd)\<rparr>)"
  proof (rule Cons.IH)
    have "set ((c + head_off) # map hdr_at xs) \<inter> set (node_addrs x) = {}" using Cons.prems(6) roots_in_nodes by fastforce
    then have "\<forall>a\<in>set ((c + head_off) # map hdr_at xs). nodes stB a = h a" by (auto simp: stB_def stA_def restrict_map_def)
    from is_list_cong [OF this] show "proper_list (nodes stB) (c + head_off) (map hdr_at xs)" using h(2) by (simp add: proper_list_def)
    show "\<forall>y\<in>set xs. rep stB y \<and> untaken stB y"
      using Cons.prems(3) agB rep_agrees [of st _ stB] by (auto simp: untaken_def stB_def stA_def)
  qed (use Cons.prems in auto)
  then obtain nd where nd: "del_work cb orig (Del_children c) stB = ret ((erase xs (stB\<lparr>world := tell act (concat (map (free_notices stB orig) xs)) (world stB)\<rparr>))
    \<lparr>nodes := (nodes stB |` (- set (concat (map node_addrs xs))))(c + head_off \<mapsto> nd)\<rparr>)"
    by blast
  have toldB: "map (free_notices stB orig) xs = map (free_notices st orig) xs"
    using agB by (auto intro!: free_notices_cong simp: agrees_def) (simp_all add: stB_def stA_def)
  have world: "tell act (concat (map (free_notices stB orig) xs)) (world stB) = tell act (concat (map (free_notices st orig) (x # xs))) (world st)"
    unfolding toldB by (simp add: stB_def tell_def)
  have "h a = nodes st a" if "a \<notin> set (concat (map node_addrs xs))" "a \<noteq> c + head_off" for a
    using h(4) [of a] that roots_in_nodes by auto
  then have nodes: "(nodes stB |` (- set (concat (map node_addrs xs))))(c + head_off \<mapsto> nd) =
      (nodes st |` (- set (concat (map node_addrs (x # xs)))))(c + head_off \<mapsto> nd)"
    by (auto simp: fun_eq_iff restrict_map_def stB_def stA_def)
  have final: "erase xs (stB\<lparr>world := tell act (concat (map (free_notices stB orig) xs)) (world stB)\<rparr>)
      \<lparr>nodes := (nodes stB |` (- set (concat (map node_addrs xs))))(c + head_off \<mapsto> nd)\<rparr> =
    erase (x # xs) (st\<lparr>world := tell act (concat (map (free_notices st orig) (x # xs))) (world st)\<rparr>)
      \<lparr>nodes := (nodes st |` (- set (concat (map node_addrs (x # xs)))))(c + head_off \<mapsto> nd)\<rparr>"
    unfolding nodes world by (simp add: erase_def stB_def stA_def Compl_Un)
  show ?case by (rule exI [of _ nd]) (simp only: step B bind_run_simps nd final)
qed

text \<open>One context: the notification, the children, and the end.\<close>

lemma notify_props:
  assumes "outside cb act" and "hdrs st t = Some h" and "prop_chain (props st) (hdr_prop h) ps" and "distinct ps" and "props_ok (props st) t' ps c"
  shows "notify cb t type info st = ret (st\<lparr>props := notice_props type ps (props st),
    world := tell act (concat (map (\<lambda>q. notices (null_parent st) t type info (props st q)) ps)) (world st)\<rparr>)"
  using notify_loop_chain [OF assms(1,3,4)] assms(2,5) by (simp add: notify_def get_hdr_def props_ok_def)

lemma free_context:
  assumes "hdrs st t = Some h" and "prop_chain (props st) (hdr_prop h) ps" and "distinct ps" and "only_children (props st) ps c"
  shows "bind_run (free_props_loop (hdr_prop h) st) (\<lambda>st. run_of (free_hdr t st)) =
    ret (st\<lparr>props := props st |` (- set ps), nodes := nodes st |` (- (insert t (if c = 0 then {} else {c + head_off}))),
      hdrs := (hdrs st)(t := None), payload := (payload st)(t := None)\<rparr>)"
proof -
  have *: "(\<lambda>q. q + head_off) ` (set ps \<inter> Collect (is_children (props st))) = (if c = 0 then {} else {c + head_off})"
    using assms(4) by (simp add: only_children_def)
  have "(nodes st |` (- A))(t := None) = nodes st |` (- insert t A)" for A by (auto simp: restrict_map_def fun_eq_iff)
  then show ?thesis using free_props_loop_chain [OF assms(2,3)] assms(1) unfolding * by (simp add: free_hdr_def get_hdr_def)
qed

lemma del_kids_rep:
  assumes tree: "\<And>x st. x \<in> set ts \<Longrightarrow> rep st x \<Longrightarrow> separated x \<Longrightarrow> untaken st x \<Longrightarrow>
      del_work cb orig (Del_tree (hdr_at x)) st = ret (erase [x] (st\<lparr>world := tell act (free_notices st orig x) (world st)\<rparr>))"
    and "if c = 0 then ts = [] else proper_list (nodes st) (c + head_off) (map hdr_at ts)" and "\<forall>x\<in>set ts. rep st x \<and> untaken st x"
    and "separated (Alloc t ps c ts)" and "if c = 0 then r = None else \<exists>r'. r = Some r' \<and> read_ref st r' = Done c"
  obtains N where "(case r of None \<Rightarrow> ret st | Some r \<Rightarrow> bind_run (run_of (read_ref st r)) (\<lambda>c. del_work cb orig (Del_children c) st)) =
      ret ((erase ts (st\<lparr>world := tell act (concat (map (free_notices st orig) ts)) (world st)\<rparr>))\<lparr>nodes := N\<rparr>)"
    and "N |` (- insert t (if c = 0 then {} else {c + head_off})) = nodes st |` (- set (node_addrs (Alloc t ps c ts)))"
proof (cases "c = 0")
  case True
  then have "erase ts (st\<lparr>world := tell act (concat (map (free_notices st orig) ts)) (world st)\<rparr>)\<lparr>nodes := nodes st\<rparr> = st"
    using assms(2) by (simp add: erase_def restrict_UNIV tell_def)
  then show thesis using True assms(2,5) by (intro that [of "nodes st"]) simp_all
next
  case False
  have sep: "distinct (concat (map hdr_addrs ts))" "distinct (concat (map prop_addrs ts))" "distinct ((c + head_off) # concat (map node_addrs ts))"
    using assms(4) False by (simp_all add: separated_def)
  have "proper_list (nodes st) (c + head_off) (map hdr_at ts)" using assms(2) False by simp
  from del_children_rep [OF tree this assms(3) sep] obtain nd where nd:
    "del_work cb orig (Del_children c) st = ret ((erase ts (st\<lparr>world := tell act (concat (map (free_notices st orig) ts)) (world st)\<rparr>))
      \<lparr>nodes := (nodes st |` (- set (concat (map node_addrs ts))))(c + head_off \<mapsto> nd)\<rparr>)"
    by blast
  obtain r' where "r = Some r'" "read_ref st r' = Done c" using assms(5) False by auto
  then show thesis using nd False
    by (intro that [of "(nodes st |` (- set (concat (map node_addrs ts))))(c + head_off \<mapsto> nd)"]) (auto simp: restrict_map_def fun_eq_iff)
qed

lemma del_tree_rep:
  assumes "outside cb act"
  shows "rep st T \<Longrightarrow> separated T \<Longrightarrow> untaken st T \<Longrightarrow>
    del_work cb orig (Del_tree (hdr_at T)) st = ret (erase [T] (st\<lparr>world := tell act (free_notices st orig T) (world st)\<rparr>))"
proof (induction T arbitrary: st)
  case (Alloc t ps c ts)
  obtain h where h: "hdrs st t = Some h" "prop_chain (props st) (hdr_prop h) ps" "\<not> get_destroying_bit (parent_child h)"
    using Alloc.prems(1) by auto
  have ok: "props_ok (props st) t ps c" and only: "only_children (props st) ps c" using Alloc.prems(1) by (simp_all add: props_ok_def)
  have dist: "distinct ps" "t \<notin> set (concat (map hdr_addrs ts))" "set ps \<inter> set (concat (map prop_addrs ts)) = {}"
    using Alloc.prems(2) by (simp_all add: separated_def)
  have taken: "assert_not_taken (from_tal_hdr t) st = Done st"
    using Alloc.prems(3) by (intro assert_not_taken_untaken) (simp_all add: untaken_def)
  define h' where "h' = h\<lparr>parent_child := set_destroying_bit (parent_child h)\<rparr>"
  define st1 where "st1 = st\<lparr>hdrs := (hdrs st)(t \<mapsto> h')\<rparr>"
  define st2 where "st2 = st1\<lparr>props := notice_props TAL_NOTIFY_FREE ps (props st),
    world := tell act (concat (map (\<lambda>q. notices (null_parent st) t TAL_NOTIFY_FREE orig (props st q)) ps)) (world st)\<rparr>"
  have h2: "hdrs st2 t = Some h'" "hdr_prop h' = hdr_prop h" by (simp_all add: st2_def st1_def h'_def)
  have notified: "notify cb t TAL_NOTIFY_FREE orig st1 = ret st2"
    using notify_props [OF assms, of st1 t h' ps t c TAL_NOTIFY_FREE orig] h(2) dist(1) ok by (simp add: st2_def st1_def h'_def)
  have chain2: "prop_chain (props st2) (hdr_prop h') ps" "only_children (props st2) ps c"
    using notice_props_chain [OF h(2)] notice_props_only [OF only] h2(2) by (simp_all add: st2_def)
  obtain r where r: "find_property_ptr st2 t CHILDREN = ret r" "if c = 0 then r = None else \<exists>r'. r = Some r' \<and> read_ref st2 r' = Done c"
    using find_children [OF h2(1) chain2] by blast
  have kids2: "agrees x st st2" if "x \<in> set ts" for x
    using dist(2,3) that by (auto simp: agrees_def st2_def st1_def notice_props_def)
  have "\<forall>x\<in>set ts. rep st2 x \<and> untaken st2 x"
    using Alloc.prems(1,3) rep_agrees [OF _ kids2] by (auto simp: list_all_iff untaken_def st2_def st1_def)
  moreover have "if c = 0 then ts = [] else proper_list (nodes st2) (c + head_off) (map hdr_at ts)"
    using Alloc.prems(1) by (simp add: st2_def st1_def split: if_splits)
  ultimately obtain N where N: "(case r of None \<Rightarrow> ret st2 | Some r \<Rightarrow> bind_run (run_of (read_ref st2 r)) (\<lambda>c. del_work cb orig (Del_children c) st2)) =
      ret ((erase ts (st2\<lparr>world := tell act (concat (map (free_notices st2 orig) ts)) (world st2)\<rparr>))\<lparr>nodes := N\<rparr>)"
      "N |` (- insert t (if c = 0 then {} else {c + head_off})) = nodes st2 |` (- set (node_addrs (Alloc t ps c ts)))"
    using del_kids_rep [OF Alloc.IH _ _ Alloc.prems(2) r(2)] by blast
  define st3 where "st3 = (erase ts (st2\<lparr>world := tell act (concat (map (free_notices st2 orig) ts)) (world st2)\<rparr>))\<lparr>nodes := N\<rparr>"
  have told: "map (free_notices st2 orig) ts = map (free_notices st orig) ts"
    using kids2 by (auto intro!: free_notices_cong simp: agrees_def st2_def st1_def)
  have same3: "\<forall>q\<in>set ps. props st3 q = props st2 q" using dist(3) by (auto simp: st3_def restrict_map_def)
  have "props st3 q = Some (Literal s)" if lit: "props st2 q = Some (Literal s)" for q s
  proof -
    have "props st q = Some (Literal s)" using lit by (simp add: st2_def)
    then have "q \<notin> set (prop_addrs (Alloc t ps c ts))" by (rule rep_not_literal [OF Alloc.prems(1)])
    then show ?thesis using lit by (simp add: st3_def)
  qed
  then have chain3: "prop_chain (props st3) (hdr_prop h') ps" using same3 by (intro prop_chain_cong [OF chain2(1)]) auto
  have only3: "only_children (props st3) ps c"
    by (rule only_children_cong [OF chain2(2)]) (use same3 in \<open>simp add: is_children_def\<close>)
  have h3: "hdrs st3 t = Some h'" using dist(2) h2(1) by (simp add: st3_def restrict_map_def)
  have marked: "upd_hdr st t (\<lambda>h. h\<lparr>parent_child := set_destroying_bit (parent_child h)\<rparr>) = Done st1"
    using h(1) by (simp add: upd_hdr_def st1_def h'_def)
  have "del_work cb orig (Del_tree t) st = bind_run (free_props_loop (hdr_prop h') st3) (\<lambda>st. run_of (free_hdr t st))"
    using h(1,3) h3 by (simp add: del_work.simps [of cb orig "Del_tree t" st] taken get_hdr_def marked notified r(1) N(1) st3_def [symmetric])
  also have "\<dots> = ret (st3\<lparr>props := props st3 |` (- set ps), nodes := nodes st3 |` (- (insert t (if c = 0 then {} else {c + head_off}))),
      hdrs := (hdrs st3)(t := None), payload := (payload st3)(t := None)\<rparr>)"
    by (rule free_context [OF h3 chain3 dist(1) only3])
  also have "\<dots> = ret (erase [Alloc t ps c ts] (st\<lparr>world := tell act (free_notices st orig (Alloc t ps c ts)) (world st)\<rparr>))"
  proof -
    have "props st3 |` (- set ps) = props st |` (- set (prop_addrs (Alloc t ps c ts)))"
      by (auto simp: st3_def st2_def notice_props_def restrict_map_def fun_eq_iff)
    moreover have "(hdrs st3)(t := None) = hdrs st |` (- set (hdr_addrs (Alloc t ps c ts)))"
        "(payload st3)(t := None) = payload st |` (- set (hdr_addrs (Alloc t ps c ts)))"
      by (auto simp: st3_def st2_def st1_def restrict_map_def fun_eq_iff)
    moreover have "world st3 = tell act (free_notices st orig (Alloc t ps c ts)) (world st)"
      unfolding st3_def told by (simp add: st2_def tell_def)
    ultimately show ?thesis using N(2) by (simp add: st3_def st2_def st1_def erase_def)
  qed
  finally show ?case by simp
qed

section \<open>Taking a child out\<close>

lemma separated_kids:
  assumes "separated (Alloc p ps c ts)"
  shows "c \<noteq> 0 \<Longrightarrow> distinct ((c + head_off) # concat (map node_addrs ts))" "distinct (concat (map hdr_addrs ts))" "distinct (concat (map prop_addrs ts))"
    "p \<notin> set (concat (map hdr_addrs ts))" "set ps \<inter> set (concat (map prop_addrs ts)) = {}" "p \<notin> set (concat (map node_addrs ts))"
    "c \<noteq> 0 \<Longrightarrow> c + head_off \<noteq> p"
  using assms by (auto simp: separated_def)

lemma unlink_child_rep:
  assumes "rep st (Alloc p ps c (us @ T # vs))" and "separated (Alloc p ps c (us @ T # vs))"
  obtains h where "list_del (nodes st) (hdr_at T) = Done h" and "rep (st\<lparr>nodes := h\<rparr>) T" and "rep (st\<lparr>nodes := h\<rparr>) (Alloc p ps c (us @ vs))"
    and "dom h = dom (nodes st)" and "\<And>a. a \<notin> set ((c + head_off) # map hdr_at (us @ vs)) \<Longrightarrow> h a = nodes st a"
proof -
  have c: "c \<noteq> 0" using assms(1) by (auto split: if_splits)
  then have "proper_list (nodes st) (c + head_off) (map hdr_at (us @ T # vs))" using assms(1) by simp
  from unlink_child [OF this separated_kids(1) [OF assms(2) c]] obtain h where h:
    "list_del (nodes st) (hdr_at T) = Done h" "proper_list h (c + head_off) (map hdr_at (us @ vs))" "dom h = dom (nodes st)"
    "\<And>a. a \<notin> set ((c + head_off) # map hdr_at (us @ vs)) \<Longrightarrow> h a = nodes st a" "\<And>y. y \<in> set (us @ T # vs) \<Longrightarrow> agrees y st (st\<lparr>nodes := h\<rparr>)"
    by blast
  have kids: "rep (st\<lparr>nodes := h\<rparr>) y" if "y \<in> set (us @ T # vs)" for y
    using rep_agrees [OF _ h(5) [OF that]] assms(1) that by (auto simp: list_all_iff)
  have "rep (st\<lparr>nodes := h\<rparr>) (Alloc p ps c (us @ vs))"
    by (rule rep_kids [OF assms(1)]) (use c h(2) kids assms(1) in \<open>auto simp: list_all_iff\<close>)
  from that [OF h(1) kids this h(3,4)] show thesis by simp
qed

text \<open>Taking a tree out of its parent, with everything in it.\<close>

lemma free_child_rep:
  assumes "rep st (Alloc p ps c (us @ T # vs))" and "separated (Alloc p ps c (us @ T # vs))" and "untaken st T" and "outside cb act"
  obtains h st' where "list_del (nodes st) (hdr_at T) = Done h" and "del_tree cb (hdr_at T) orig (st\<lparr>nodes := h\<rparr>) = ret st'"
    and "rep st' (Alloc p ps c (us @ vs))" and "dom (nodes st') = dom (nodes st) - set (node_addrs T)"
    and "\<And>a. a \<notin> set ((c + head_off) # map hdr_at (us @ vs)) \<union> set (node_addrs T) \<Longrightarrow> nodes st' a = nodes st a"
    and "st' = st\<lparr>hdrs := hdrs st |` (- set (hdr_addrs T)), props := props st |` (- set (prop_addrs T)), payload := payload st |` (- set (hdr_addrs T)),
      nodes := nodes st', world := tell act (free_notices st orig T) (world st)\<rparr>"
proof -
  obtain h where h: "list_del (nodes st) (hdr_at T) = Done h" "rep (st\<lparr>nodes := h\<rparr>) T" "rep (st\<lparr>nodes := h\<rparr>) (Alloc p ps c (us @ vs))"
      "dom h = dom (nodes st)" "\<And>a. a \<notin> set ((c + head_off) # map hdr_at (us @ vs)) \<Longrightarrow> h a = nodes st a"
    using unlink_child_rep [OF assms(1,2)] by blast
  define st' where "st' = erase [T] (st\<lparr>nodes := h, world := tell act (free_notices st orig T) (world st)\<rparr>)"
  have c: "c \<noteq> 0" using assms(1) by (auto split: if_splits)
  note sep = separated_kids [OF assms(2)]
  have "separated T" "untaken (st\<lparr>nodes := h\<rparr>) T" using assms(2,3) by (auto simp: separated_def untaken_def)
  moreover have "free_notices (st\<lparr>nodes := h\<rparr>) orig T = free_notices st orig T" by (rule free_notices_cong) simp_all
  ultimately have del: "del_tree cb (hdr_at T) orig (st\<lparr>nodes := h\<rparr>) = ret st'"
    using del_tree_rep [OF assms(4) h(2), of orig] by (simp add: del_tree_def st'_def)
  have "agrees (Alloc p ps c (us @ vs)) (st\<lparr>nodes := h\<rparr>) (erase [T] ((st\<lparr>nodes := h\<rparr>)\<lparr>world := tell act (free_notices st orig T) (world st)\<rparr>))"
    using sep(2-6) sep(1) [OF c] assms(2) hdr_at_in by (intro agrees_erase [OF h(2)]) (auto simp: separated_def)
  from rep_agrees [OF h(3) this] have rep': "rep st' (Alloc p ps c (us @ vs))" by (simp add: st'_def del: rep.simps)
  show thesis
  proof (rule that [OF h(1) del rep'])
    show "dom (nodes st') = dom (nodes st) - set (node_addrs T)" using h(4) by (auto simp: st'_def)
    show "nodes st' a = nodes st a" if "a \<notin> set ((c + head_off) # map hdr_at (us @ vs)) \<union> set (node_addrs T)" for a
      using h(5) [of a] that by (simp add: st'_def)
  qed (simp add: st'_def erase_def)
qed

section \<open>Adding a child\<close>

lemma destroying_bit_xor: "get_destroying_bit (c XOR TAL_PTR_OBFUSTICATOR) \<longleftrightarrow> odd c"
  by (simp add: get_destroying_bit_def TAL_PTR_OBFUSTICATOR_def and_one_eq even_xor_iff odd_iff_mod_2_eq_one [symmetric])

lemma ignore_destroying_bit_xor: "even c \<Longrightarrow> ignore_destroying_bit (c XOR TAL_PTR_OBFUSTICATOR) = c"
proof -
  assume "even c"
  then have "\<not> bit c 0" by (simp add: bit_0)
  have "(c XOR TAL_PTR_OBFUSTICATOR) XOR TAL_PTR_OBFUSTICATOR = c" by (simp add: xor.assoc)
  moreover have "c AND NOT 1 = c"
    by (rule bit_word_eqI) (use \<open>\<not> bit c 0\<close> in \<open>auto simp: bit_simps intro!: gr0I\<close>)
  ultimately show ?thesis by (simp add: ignore_destroying_bit_def)
qed

text \<open>A header may get a new parent.\<close>

lemma rep_new_parent:
  assumes "rep st X" and "distinct (hdr_addrs X)" and "hdrs st (hdr_at X) = Some h" and "\<not> get_destroying_bit v"
  shows "rep (st\<lparr>hdrs := (hdrs st)(hdr_at X \<mapsto> h\<lparr>parent_child := v\<rparr>)\<rparr>) X"
proof (cases X)
  case (Alloc t ps c ts)
  define st' where "st' = st\<lparr>hdrs := (hdrs st)(t \<mapsto> h\<lparr>parent_child := v\<rparr>)\<rparr>"
  have "agrees x st st'" if "x \<in> set ts" for x
    using assms(2) that Alloc by (auto simp: agrees_def st'_def)
  then have "list_all id (map (rep st') ts)" using assms(1) Alloc rep_agrees [of st _ st'] by (auto simp: list_all_iff)
  moreover have "hdrs st' (hdr_at x) = hdrs st (hdr_at x)" if "x \<in> set ts" for x
    using assms(2) that Alloc hdr_at_in(1) [of x] by (auto simp: st'_def)
  ultimately show ?thesis using assms(1,3,4) Alloc by (simp add: st'_def)
qed

text \<open>Linking a tree into the list of a property of children that is there.\<close>

lemma link_child:
  assumes "rep st (Alloc p ps c ts)" and "rep st X" and "separated (Alloc p ps c (X # ts))" and "c \<noteq> 0" and "even c"
    and "hdr_at X \<in> dom (nodes st)" and "hdr_at X \<noteq> 0"
  obtains h H where "list_add (nodes st) (c + head_off) (hdr_at X) = Done h" and "hdrs st (hdr_at X) = Some H"
    and "rep (st\<lparr>nodes := h, hdrs := (hdrs st)(hdr_at X \<mapsto> H\<lparr>parent_child := c XOR TAL_PTR_OBFUSTICATOR\<rparr>)\<rparr>) (Alloc p ps c (X # ts))"
    and "dom h = dom (nodes st)" and "\<And>a. a \<notin> set ((c + head_off) # map hdr_at (X # ts)) \<Longrightarrow> h a = nodes st a"
proof -
  have "proper_list (nodes st) (c + head_off) (map hdr_at ts)" using assms(1,4) by simp
  from link_first_child [OF this separated_kids(1) [OF assms(3,4)] assms(6,7)] obtain h where h:
    "list_add (nodes st) (c + head_off) (hdr_at X) = Done h" "proper_list h (c + head_off) (map hdr_at (X # ts))" "dom h = dom (nodes st)"
    "\<And>a. a \<notin> set ((c + head_off) # map hdr_at (X # ts)) \<Longrightarrow> h a = nodes st a" "\<And>y. y \<in> set (X # ts) \<Longrightarrow> agrees y st (st\<lparr>nodes := h\<rparr>)"
    by blast
  note sep = separated_kids [OF assms(3)]
  obtain H where H: "hdrs st (hdr_at X) = Some H" using assms(2) by (cases X) auto
  define st' where "st' = st\<lparr>nodes := h, hdrs := (hdrs st)(hdr_at X \<mapsto> H\<lparr>parent_child := c XOR TAL_PTR_OBFUSTICATOR\<rparr>)\<rparr>"
  have "rep st' X"
    using rep_new_parent [OF rep_agrees [OF assms(2) h(5)], of H "c XOR TAL_PTR_OBFUSTICATOR"] sep(2) H assms(5)
    by (simp add: destroying_bit_xor st'_def)
  moreover have kids: "hdr_at X \<notin> set (hdr_addrs y)" if "y \<in> set ts" for y using sep(2) that hdr_at_in(1) [of X] by auto
  moreover have "rep st' y" if "y \<in> set ts" for y
  proof (rule rep_agrees)
    show "agrees y st st'" using h(5) [of y] kids [OF that] that by (auto simp: agrees_def st'_def)
  qed (use assms(1) that in \<open>auto simp: list_all_iff\<close>)
  moreover have "hdrs st' (hdr_at y) = hdrs st (hdr_at y)" if "y \<in> set ts" for y using kids [OF that] hdr_at_in(1) [of y] by (auto simp: st'_def)
  moreover have "hdrs st' p = hdrs st p" using sep(4) hdr_at_in(1) [of X] by (auto simp: st'_def)
  ultimately have "rep st' (Alloc p ps c (X # ts))"
    using assms(1,4) h(2) by (intro rep_kids [OF assms(1)]) (auto simp: st'_def)
  from that [OF h(1) H this [unfolded st'_def] h(3,4)] show thesis .
qed

lemma bind_run_ret_iff: "bind_run m f = ret y \<longleftrightarrow> (\<exists>x. m = ret x \<and> f x = ret y)"
  by (auto simp: bind_run_def split: option.split outcome.splits elim!: bind_eq_Some_conv [THEN iffD1, elim_format])

text \<open>A parent without children gets a property for them, from a fresh piece of memory.\<close>

lemma update_bounds_same [simp]:
  "nodes (update_bounds a n st) = nodes st" "hdrs (update_bounds a n st) = hdrs st" "props (update_bounds a n st) = props st"
  "payload (update_bounds a n st) = payload st" "notifiers (update_bounds a n st) = notifiers st" "null_parent (update_bounds a n st) = null_parent st"
  "mallocs (update_bounds a n st) = mallocs st" "takes (update_bounds a n st) = takes st" "world (update_bounds a n st) = world st"
  by (simp_all add: update_bounds_def)

definition bounds_of :: "'w tal_state \<Rightarrow> addr \<times> addr" where
  "bounds_of st = (bounds_start st, bounds_end st)"

lemma bounds_of_update [simp]:
  "bounds_of (st\<lparr>nodes := n\<rparr>) = bounds_of st" "bounds_of (st\<lparr>hdrs := h\<rparr>) = bounds_of st" "bounds_of (st\<lparr>props := q\<rparr>) = bounds_of st"
  "bounds_of (st\<lparr>payload := b\<rparr>) = bounds_of st" "bounds_of (st\<lparr>mallocs := ms\<rparr>) = bounds_of st" "bounds_of (st\<lparr>world := w\<rparr>) = bounds_of st"
  by (simp_all add: bounds_of_def)

lemma bounds_of_update_bounds: "bounds_of st = bounds_of st' \<Longrightarrow> bounds_of (update_bounds a n st) = bounds_of (update_bounds a n st')"
  by (simp add: bounds_of_def update_bounds_def)

lemma add_child_property_rep:
  assumes "rep st (Alloc p ps 0 [])" and "mallocs st = c # ms" and "c \<noteq> 0" and "c \<notin> dom (props st)" and "c \<notin> set ps"
  shows "\<exists>st'. add_child_property p st = Done (c, st') \<and> rep st' (Alloc p (c # ps) c []) \<and>
    mallocs st' = ms \<and> payload st' = payload st \<and> notifiers st' = notifiers st \<and> null_parent st' = null_parent st \<and> takes st' = takes st \<and> world st' = world st \<and>
    (\<forall>a. a \<noteq> p \<longrightarrow> hdrs st' a = hdrs st a) \<and> (\<forall>a. a \<noteq> c \<longrightarrow> props st' a = props st a) \<and> (\<forall>a. a \<noteq> c + head_off \<longrightarrow> nodes st' a = nodes st a) \<and>
    map_option parent_child (hdrs st' p) = map_option parent_child (hdrs st p) \<and> map_option bytelen (hdrs st' p) = map_option bytelen (hdrs st p) \<and>
    bounds_of st' = bounds_of (update_bounds c children_size st)"
proof -
  obtain h where h: "hdrs st p = Some h" "prop_chain (props st) (hdr_prop h) ps" "\<not> get_destroying_bit (parent_child h)"
    using assms(1) by auto
  define st1 where "st1 = update_bounds c children_size (st\<lparr>mallocs := ms\<rparr>)"
  define st2 where "st2 = st1\<lparr>props := (props st1)(c \<mapsto> Children (hdr_prop h) p), hdrs := (hdrs st1)(p \<mapsto> h\<lparr>hdr_prop := c\<rparr>)\<rparr>"
  have 2: "init_property c p (\<lambda>nxt. Children nxt p) st1 = Done st2"
    using h(1) by (simp add: init_property_def get_hdr_def upd_hdr_def st2_def st1_def)
  define h0 where "h0 = (nodes st)(c + head_off \<mapsto> \<lparr>node_next = 0, node_prev = 0\<rparr>)"
  obtain h1 where h1: "list_head_init h0 (c + head_off) = Done h1" "is_list h1 (c + head_off) []" "changes_in {c + head_off} h0 h1"
    using list_head_init_list [of "c + head_off" h0] by (auto simp: h0_def)
  define st3 where "st3 = st2\<lparr>nodes := h1\<rparr>"
  have "add_child_property p st = Done (c, st3)"
    using assms(2,3) 2 h1(1) by (simp add: add_child_property_def allocate_def st1_def [symmetric] Let_def on_nodes_def st3_def h0_def) (simp add: st2_def st1_def)
  moreover have "rep st3 (Alloc p (c # ps) c [])"
  proof -
    have same: "props st3 q = props st q" if "q \<in> set ps" for q using assms(5) that by (auto simp: st3_def st2_def st1_def)
    have "prop_chain (props st3) (hdr_prop h) ps"
      by (rule prop_chain_cong [OF h(2)]) (use same assms(4) in \<open>auto simp: st3_def st2_def st1_def\<close>)
    moreover have c3: "props st3 c = Some (Children (hdr_prop h) p)" by (simp add: st3_def st2_def)
    moreover have "only_children (props st3) (c # ps) c"
    proof -
      have "set ps \<inter> Collect (is_children (props st)) = {}" using assms(1) by (simp add: props_ok_def only_children_def)
      then have "set ps \<inter> Collect (is_children (props st3)) = {}" using same by (auto simp: is_children_def)
      then show ?thesis using c3 assms(3) by (auto simp: only_children_def is_children_def)
    qed
    moreover have "\<forall>q\<in>set ps. \<forall>n types fn arg. props st3 q = Some (Notifier n types fn arg) \<longrightarrow> fn \<noteq> 0"
      using assms(1) same by (simp add: props_ok_def)
    moreover have "hdrs st3 p = Some (h\<lparr>hdr_prop := c\<rparr>)" by (simp add: st3_def st2_def)
    ultimately show ?thesis using h(3) assms(3) h1(2) by (simp add: props_ok_def proper_list_def) (simp add: st3_def)
  qed
  moreover have "nodes st3 a = nodes st a" if "a \<noteq> c + head_off" for a
    using h1(3) that by (simp add: st3_def changes_in_def h0_def)
  moreover have "bounds_of st3 = bounds_of (update_bounds c children_size st)"
    by (simp add: st3_def st2_def st1_def bounds_of_update_bounds [of "st\<lparr>mallocs := ms\<rparr>" st])
  ultimately show ?thesis using h(1) by (intro exI [of _ st3]) (simp add: st3_def st2_def st1_def del: rep.simps)
qed


text \<open>The parent has its property of children, an old or a new one.\<close>

lemma children_property_rep:
  assumes "rep st (Alloc p ps c ts)" and "c' \<noteq> 0" and "c' \<notin> set ps \<or> c = c'"
    and "if c = 0 then mallocs st = c' # ms \<and> c' \<notin> dom (props st) \<and> ps' = c' # ps else c' = c \<and> ms = mallocs st \<and> ps' = ps"
  obtains st0 where "(if c = 0 then run_of (add_child_property p st) else ret (c, st)) = ret (c', st0)" and "rep st0 (Alloc p ps' c' ts)"
    and "mallocs st0 = ms" and "payload st0 = payload st" and "notifiers st0 = notifiers st" and "null_parent st0 = null_parent st"
    and "takes st0 = takes st" and "world st0 = world st"
    and "\<And>a. a \<noteq> p \<Longrightarrow> hdrs st0 a = hdrs st a" and "\<And>a. a \<noteq> c' \<Longrightarrow> props st0 a = props st a" and "\<And>a. a \<noteq> c' + head_off \<Longrightarrow> nodes st0 a = nodes st a"
    and "map_option parent_child (hdrs st0 p) = map_option parent_child (hdrs st p)" and "c \<noteq> 0 \<Longrightarrow> st0 = st"
    and "bounds_of st0 = bounds_of (if c = 0 then update_bounds c' children_size st else st)"
    and "\<And>a. map_option bytelen (hdrs st0 a) = map_option bytelen (hdrs st a)"
proof (cases "c = 0")
  case False
  then show thesis using assms(1,4) by (intro that [of st]) (simp_all del: rep.simps)
next
  case True
  then have c: "mallocs st = c' # ms" "c' \<notin> dom (props st)" "ps' = c' # ps" "ts = []" "c' \<notin> set ps" using assms by simp_all
  obtain st0 where st0: "add_child_property p st = Done (c', st0)" "rep st0 (Alloc p (c' # ps) c' [])"
      "mallocs st0 = ms" "payload st0 = payload st" "notifiers st0 = notifiers st" "null_parent st0 = null_parent st" "takes st0 = takes st" "world st0 = world st"
      "\<forall>a. a \<noteq> p \<longrightarrow> hdrs st0 a = hdrs st a" "\<forall>a. a \<noteq> c' \<longrightarrow> props st0 a = props st a" "\<forall>a. a \<noteq> c' + head_off \<longrightarrow> nodes st0 a = nodes st a"
      "map_option parent_child (hdrs st0 p) = map_option parent_child (hdrs st p)" "map_option bytelen (hdrs st0 p) = map_option bytelen (hdrs st p)"
      "bounds_of st0 = bounds_of (update_bounds c' children_size st)"
    using add_child_property_rep [OF assms(1) [unfolded True c(4)] c(1) assms(2) c(2,5)] by blast
  have "map_option bytelen (hdrs st0 a) = map_option bytelen (hdrs st a)" for a
    using st0(9,13) by (cases "a = p") simp_all
  then show thesis using that [of st0] st0 True c(3,4) by (simp del: rep.simps)
qed

lemma add_child_rep:
  assumes "rep st (Alloc p ps c ts)" and "rep st X" and "hdr_at X \<in> dom (nodes st)" and "hdr_at X \<noteq> 0" and "even c'" and "c' \<noteq> 0"
    and "if c = 0 then mallocs st = c' # ms \<and> c' \<notin> dom (props st) \<and> ps' = c' # ps else c' = c \<and> ms = mallocs st \<and> ps' = ps"
    and "separated (Alloc p ps' c' (X # ts))"
  obtains st' where "add_child p (hdr_at X) st = ret (True, st')" and "rep st' (Alloc p ps' c' (X # ts))"
    and "mallocs st' = ms" and "payload st' = payload st" and "notifiers st' = notifiers st" and "null_parent st' = null_parent st"
    and "takes st' = takes st" and "world st' = world st"
    and "\<And>a. a \<notin> {p, hdr_at X} \<Longrightarrow> hdrs st' a = hdrs st a" and "\<And>a. a \<noteq> c' \<Longrightarrow> props st' a = props st a"
    and "\<And>a. a \<notin> set ((c' + head_off) # map hdr_at (X # ts)) \<Longrightarrow> nodes st' a = nodes st a"
    and "\<And>a. map_option bytelen (hdrs st' a) = map_option bytelen (hdrs st a)"
    and "map_option parent_child (hdrs st' p) = map_option parent_child (hdrs st p)"
    and "bounds_of st' = bounds_of (if c = 0 then update_bounds c' children_size st else st)"
    and "map_option hdr_prop (hdrs st' (hdr_at X)) = map_option hdr_prop (hdrs st (hdr_at X))"
proof -
  note sep = separated_kids [OF assms(8)]
  have px: "hdr_at X \<noteq> p" "c' + head_off \<notin> set (node_addrs X)" "p \<notin> set (hdr_addrs X)"
    using sep(1) [OF assms(6)] sep(4) hdr_at_in(1) [of X] by auto
  have fresh: "c' \<notin> set ps \<or> c = c'" "c = 0 \<Longrightarrow> c' \<notin> set (prop_addrs X)" using assms(7,8) by (auto simp: separated_def split: if_splits)
  obtain st0 where st0: "(if c = 0 then run_of (add_child_property p st) else ret (c, st)) = ret (c', st0)" "rep st0 (Alloc p ps' c' ts)"
      "mallocs st0 = ms" "payload st0 = payload st" "notifiers st0 = notifiers st" "null_parent st0 = null_parent st" "takes st0 = takes st" "world st0 = world st"
      "\<And>a. a \<noteq> p \<Longrightarrow> hdrs st0 a = hdrs st a" "\<And>a. a \<noteq> c' \<Longrightarrow> props st0 a = props st a" "\<And>a. a \<noteq> c' + head_off \<Longrightarrow> nodes st0 a = nodes st a"
      "map_option parent_child (hdrs st0 p) = map_option parent_child (hdrs st p)" "c \<noteq> 0 \<Longrightarrow> st0 = st"
      "bounds_of st0 = bounds_of (if c = 0 then update_bounds c' children_size st else st)" "\<And>a. map_option bytelen (hdrs st0 a) = map_option bytelen (hdrs st a)"
    by (rule children_property_rep [OF assms(1,6) fresh(1) assms(7)], rule that) assumption+
  have "agrees X st st0"
  proof (cases "c = 0")
    case True
    have "a \<noteq> c'" if "props st a = Some (Literal s)" for a s using assms(7) True that by auto
    then show ?thesis using px(2,3) fresh(2) [OF True] st0(9-11)
      unfolding agrees_def by (intro conjI ballI allI impI) (metis in_tl)+
  qed (use st0(13) in \<open>simp add: agrees_def\<close>)
  from rep_agrees [OF assms(2) this] have X0: "rep st0 X" .
  have "hdr_at X \<noteq> c' + head_off" using px(2) hdr_at_in(2) [of X] by metis
  then have dom0: "hdr_at X \<in> dom (nodes st0)" using assms(3) st0(11) by auto
  obtain h H where h: "list_add (nodes st0) (c' + head_off) (hdr_at X) = Done h" "hdrs st0 (hdr_at X) = Some H"
      "rep (st0\<lparr>nodes := h, hdrs := (hdrs st0)(hdr_at X \<mapsto> H\<lparr>parent_child := c' XOR TAL_PTR_OBFUSTICATOR\<rparr>)\<rparr>) (Alloc p ps' c' (X # ts))"
      "\<And>a. a \<notin> set ((c' + head_off) # map hdr_at (X # ts)) \<Longrightarrow> h a = nodes st0 a"
    by (rule link_child [OF st0(2) X0 assms(8,6,5) dom0 assms(4)], rule that) assumption+
  obtain hp where "hdrs st p = Some hp" "prop_chain (props st) (hdr_prop hp) ps" "only_children (props st) ps c" using assms(1) by (auto simp: props_ok_def)
  from find_children [OF this] have find: "find_property st p CHILDREN = ret c" .
  define st' where "st' = st0\<lparr>nodes := h, hdrs := (hdrs st0)(hdr_at X \<mapsto> H\<lparr>parent_child := c' XOR TAL_PTR_OBFUSTICATOR\<rparr>)\<rparr>"
  show thesis
  proof (rule that [of st'])
    show "add_child p (hdr_at X) st = ret (True, st')"
      unfolding add_child_def find bind_run_simps st0(1) by (simp add: on_nodes_def upd_hdr_def h(1,2) st'_def)
    show "rep st' (Alloc p ps' c' (X # ts))" unfolding st'_def by (rule h(3))
    show "nodes st' a = nodes st a" if "a \<notin> set ((c' + head_off) # map hdr_at (X # ts))" for a
      using h(4) [OF that] st0(11) [of a] that by (simp add: st'_def)
    show "map_option bytelen (hdrs st' a) = map_option bytelen (hdrs st a)" for a
      using h(2) st0(15) [of a] by (auto simp: st'_def)
    show "map_option hdr_prop (hdrs st' (hdr_at X)) = map_option hdr_prop (hdrs st (hdr_at X))"
      using h(2) st0(9) [OF px(1)] by (simp add: st'_def)
  qed (use st0(1-14) px(1) in \<open>simp_all add: st'_def\<close>)
qed

section \<open>The properties of the trees\<close>

text \<open>What the parent's notifiers are told when one of its children is freed, if any notifier is
  installed; no destructor of the parent is for that notification (\<open>tal_add_destructor\<close> makes
  destructors for the freeing of the context itself).\<close>

definition del_child_notices :: "'w tal_state \<Rightarrow> addr \<Rightarrow> addr list \<Rightarrow> addr \<Rightarrow> (addr \<times> notice) list" where
  "del_child_notices st p ps ctx = (if notifiers st = 0 then []
     else concat (map (\<lambda>q. notices (null_parent st) p TAL_NOTIFY_DEL_CHILD ctx (props st q)) ps))"

definition destructors_kept :: "'w tal_state \<Rightarrow> addr list \<Rightarrow> bool" where
  "destructors_kept st ps \<longleftrightarrow> (notifiers st \<noteq> 0 \<longrightarrow> (\<forall>q\<in>set ps. map_option (after_notice TAL_NOTIFY_DEL_CHILD) (props st q) = props st q))"

lemma notify_del_child:
  assumes "rep st (Alloc p ps c ts)" and "distinct ps" and "outside cb act" and "destructors_kept st ps" and "notifiers st \<noteq> 0"
  shows "notify cb p TAL_NOTIFY_DEL_CHILD ctx st = ret (st\<lparr>world := tell act (del_child_notices st p ps ctx) (world st)\<rparr>)"
proof -
  obtain h where h: "hdrs st p = Some h" "prop_chain (props st) (hdr_prop h) ps" using assms(1) by auto
  have "props_ok (props st) p ps c" using assms(1) by simp
  moreover have "notice_props TAL_NOTIFY_DEL_CHILD ps (props st) = props st"
    using assms(4,5) by (auto simp: destructors_kept_def notice_props_def fun_eq_iff)
  ultimately show ?thesis
    using notify_props [OF assms(3) h assms(2), of p c TAL_NOTIFY_DEL_CHILD ctx] assms(5) by (simp add: del_child_notices_def)
qed

lemma parent_of_child:
  assumes "rep st (Alloc p ps c ts)" and "x \<in> set ts" and "hdrs st (hdr_at x) = Some h"
  shows "parent_of_children st (ignore_destroying_bit (parent_child h)) = Done p"
proof -
  have "rep st x" and pc: "parent_child h = c XOR TAL_PTR_OBFUSTICATOR" using assms by (auto simp: list_all_iff)
  then have "\<not> get_destroying_bit (parent_child h)" using assms(3) by (cases x) auto
  then have "ignore_destroying_bit (parent_child h) = c"
    using ignore_destroying_bit_xor [of c] by (simp add: pc destroying_bit_xor)
  moreover have c: "c \<noteq> 0" using assms(1,2) by (auto split: if_splits)
  moreover from this have "\<exists>n. props st c = Some (Children n p)" using assms(1) by (simp add: props_ok_def)
  ultimately show ?thesis by (auto simp: parent_of_children_def get_prop_def)
qed

text \<open>C4. Freeing a child takes it out of its parent's list and releases it with everything allocated
  below it: exactly its headers, properties and bytes are gone, and the rest of the parent's tree stands
  as before.  When any notifier is installed, the parent's notifiers are first told of the child; then every
  destructor and notifier of the freed contexts is called once, those of a context before those of
  its children.  The callbacks may do anything outside of the memory (\<open>outside\<close>) but leave the tree
  alone; no freed context has been given to \<open>take\<close> (\<open>untaken\<close>), and the parent has no
  destructor for the notification of the child (\<open>destructors_kept\<close>).\<close>

theorem tal_free_child:
  assumes "rep st (Alloc p ps c (us @ T # vs))" and "separated (Alloc p ps c (us @ T # vs))" and "untaken st T" and "outside cb act"
    and "to_tal_hdr st ctx = Done (hdr_at T)" and "ctx \<noteq> 0" and "destructors_kept st ps"
  shows "\<exists>st'. tal_free cb ctx st = ret (0, st') \<and> rep st' (Alloc p ps c (us @ vs)) \<and>
    hdrs st' = hdrs st |` (- set (hdr_addrs T)) \<and> props st' = props st |` (- set (prop_addrs T)) \<and>
    payload st' = payload st |` (- set (hdr_addrs T)) \<and> dom (nodes st') = dom (nodes st) - set (node_addrs T) \<and>
    world st' = tell act (del_child_notices st p ps ctx @ free_notices st ctx T) (world st)"
proof -
  have "rep st T" using assms(1) by simp
  then obtain h where h: "hdrs st (hdr_at T) = Some h" "\<not> get_destroying_bit (parent_child h)" by (cases T) auto
  define st1 where "st1 = st\<lparr>world := tell act (del_child_notices st p ps ctx) (world st)\<rparr>"
  have told: "(if notifiers st \<noteq> 0 then bind_run (run_of (parent_of_children st (ignore_destroying_bit (parent_child h)))) (\<lambda>par.
      notify cb par TAL_NOTIFY_DEL_CHILD ctx st) else ret st) = ret st1"
    using notify_del_child [OF assms(1) _ assms(4,7)] parent_of_child [OF assms(1) _ h(1)] assms(2)
    by (simp add: st1_def del_child_notices_def tell_def separated_def del: rep.simps)
  have "agrees (Alloc p ps c (us @ T # vs)) st st1" by (simp add: agrees_def st1_def)
  note rep1 = rep_agrees [OF assms(1) this]
  have untaken1: "untaken st1 T" using assms(3) by (simp add: untaken_def st1_def)
  obtain n st' where st': "list_del (nodes st1) (hdr_at T) = Done n" "del_tree cb (hdr_at T) ctx (st1\<lparr>nodes := n\<rparr>) = ret st'"
      "rep st' (Alloc p ps c (us @ vs))" "dom (nodes st') = dom (nodes st1) - set (node_addrs T)"
      "st' = st1\<lparr>hdrs := hdrs st1 |` (- set (hdr_addrs T)), props := props st1 |` (- set (prop_addrs T)), payload := payload st1 |` (- set (hdr_addrs T)),
        nodes := nodes st', world := tell act (free_notices st1 ctx T) (world st1)\<rparr>"
    by (rule free_child_rep [OF rep1 assms(2) untaken1 assms(4), of ctx], rule that) assumption+
  have "free_notices st1 ctx T = free_notices st ctx T" by (rule free_notices_cong) (simp_all add: st1_def)
  then have "hdrs st' = hdrs st |` (- set (hdr_addrs T)) \<and> props st' = props st |` (- set (prop_addrs T)) \<and> payload st' = payload st |` (- set (hdr_addrs T)) \<and>
      world st' = tell act (del_child_notices st p ps ctx @ free_notices st ctx T) (world st)"
    using arg_cong [OF st'(5), of hdrs] arg_cong [OF st'(5), of props] arg_cong [OF st'(5), of payload] arg_cong [OF st'(5), of world]
    by (simp add: st1_def tell_def)
  moreover have "tal_free cb ctx st = ret (0, st')"
    unfolding tal_free_def using assms(5,6) h st'(1,2) by (simp add: get_hdr_def told on_nodes_def)
  ultimately show ?thesis using st'(3,4) by (intro exI [of _ st']) (simp add: st1_def del: rep.simps)
qed

text \<open>What allocating needs of the memory it is given.\<close>

definition can_alloc :: "'w tal_state \<Rightarrow> addr \<Rightarrow> addr list \<Rightarrow> addr \<Rightarrow> alloc list \<Rightarrow> addr \<Rightarrow> addr list \<Rightarrow> addr \<Rightarrow> bool" where
  "can_alloc st p ps c ts child ps' c' \<longleftrightarrow>
     child \<noteq> 0 \<and> c' \<noteq> 0 \<and> even c' \<and> separated (Alloc p ps' c' (Alloc child [] 0 [] # ts)) \<and>
     (if c = 0 then (\<exists>ms. mallocs st = child # c' # ms) \<and> c' \<notin> dom (props st) \<and> ps' = c' # ps
      else (\<exists>ms. mallocs st = child # ms) \<and> c' = c \<and> ps' = ps)"

lemma alloc_child_rep:
  assumes "rep st (Alloc p ps c ts)" and "to_tal_hdr_or_null st ctx = Done p" and "can_alloc st p ps c ts child ps' c'" and "notifiers st = 0"
    and "label = 0 \<or> (\<exists>s. s \<noteq> [] \<and> props st label = Some (Literal s))"
  obtains st' where "tal_alloc cb ctx sz clear label st = ret (from_tal_hdr child, st')" and "rep st' (Alloc p ps' c' (Alloc child [] 0 [] # ts))"
    and "payload st' = (payload st)(child \<mapsto> replicate (unat sz) (if clear then Some 0 else None))" and "map_option bytelen (hdrs st' child) = Some sz"
    and "\<And>a. a \<notin> {p, child} \<Longrightarrow> hdrs st' a = hdrs st a" and "\<And>a. a \<noteq> c' \<Longrightarrow> props st' a = props st a"
    and "\<And>a. a \<notin> set ((c' + head_off) # child # map hdr_at ts) \<Longrightarrow> nodes st' a = nodes st a"
    and "map_option parent_child (hdrs st' p) = map_option parent_child (hdrs st p)"
    and "notifiers st' = 0" and "null_parent st' = null_parent st" and "takes st' = takes st" and "world st' = world st"
    and "bounds_of st' = bounds_of (if c = 0 then update_bounds c' children_size (update_bounds child (hdr_size + sz) st) else update_bounds child (hdr_size + sz) st)"
    and "\<And>a. a \<noteq> child \<Longrightarrow> map_option bytelen (hdrs st' a) = map_option bytelen (hdrs st a)"
    and "mallocs st' = (if c = 0 then tl (tl (mallocs st)) else tl (mallocs st))" and "map_option hdr_prop (hdrs st' child) = Some label"
proof -
  define ms where "ms = (if c = 0 then tl (tl (mallocs st)) else tl (mallocs st))"
  have ca: "child \<noteq> 0" "c' \<noteq> 0" "even c'" "separated (Alloc p ps' c' (Alloc child [] 0 [] # ts))"
      "if c = 0 then mallocs st = child # c' # ms \<and> c' \<notin> dom (props st) \<and> ps' = c' # ps else mallocs st = child # ms \<and> c' = c \<and> ps' = ps"
    using assms(3) by (auto simp: can_alloc_def ms_def split: if_splits)
  define st1 where "st1 = update_bounds child (hdr_size + sz) (st\<lparr>mallocs := tl (mallocs st)\<rparr>)"
  define st2 where "st2 = st1\<lparr>nodes := (nodes st1)(child \<mapsto> \<lparr>node_next = 0, node_prev = 0\<rparr>),
      hdrs := (hdrs st1)(child \<mapsto> \<lparr>hdr_prop = label, parent_child = 0, bytelen = sz\<rparr>),
      payload := (payload st1)(child \<mapsto> replicate (unat sz) (if clear then Some 0 else None))\<rparr>"
  have al: "allocate (hdr_size + sz) st = Done (child, st1)"
    using ca(1,5) by (auto simp: allocate_def st1_def split: if_splits)
  have fresh: "child \<notin> set (hdr_addrs (Alloc p ps c ts))" "child \<notin> set (node_addrs (Alloc p ps c ts))"
    using ca(4,5) by (auto simp: separated_def split: if_splits)
  have "agrees (Alloc p ps c ts) st st2"
    using fresh by (auto simp: agrees_def st2_def st1_def dest: in_tl)
  then have P2: "rep st2 (Alloc p ps c ts)" by (rule rep_agrees [OF assms(1)])
  have X2: "rep st2 (Alloc child [] 0 [])"
    using assms(5) by (auto simp: st2_def st1_def props_ok_def only_children_def get_destroying_bit_def)
  have m2: "if c = 0 then mallocs st2 = c' # ms \<and> c' \<notin> dom (props st2) \<and> ps' = c' # ps else c' = c \<and> ms = mallocs st2 \<and> ps' = ps"
    using ca(5) by (auto simp: st2_def st1_def split: if_splits)
  have "hdr_at (Alloc child [] 0 []) \<in> dom (nodes st2)" by (simp add: st2_def)
  from add_child_rep [OF P2 X2 this _ ca(3,2) m2 ca(4)] obtain st' where st':
      "add_child p child st2 = ret (True, st')" "rep st' (Alloc p ps' c' (Alloc child [] 0 [] # ts))" "payload st' = payload st2"
      "notifiers st' = notifiers st2" "world st' = world st2" "\<And>a. map_option bytelen (hdrs st' a) = map_option bytelen (hdrs st2 a)"
      "\<And>a. a \<notin> {p, child} \<Longrightarrow> hdrs st' a = hdrs st2 a" "\<And>a. a \<noteq> c' \<Longrightarrow> props st' a = props st2 a"
      "\<And>a. a \<notin> set ((c' + head_off) # child # map hdr_at ts) \<Longrightarrow> nodes st' a = nodes st2 a"
      "map_option parent_child (hdrs st' p) = map_option parent_child (hdrs st2 p)" "mallocs st' = ms"
      "null_parent st' = null_parent st2" "takes st' = takes st2"
      "bounds_of st' = bounds_of (if c = 0 then update_bounds c' children_size st2 else st2)"
      "map_option hdr_prop (hdrs st' child) = map_option hdr_prop (hdrs st2 child)"
    using ca(1) by (auto simp del: rep.simps)
  have "tal_alloc cb ctx sz clear label st = ret (from_tal_hdr child, st')"
    using assms(2,4) al st'(1,4) by (simp add: tal_alloc_def st2_def [symmetric] Let_def notify_any_def) (simp add: st2_def st1_def)
  moreover have "child \<noteq> p" using fresh(1) by auto
  moreover have "bounds_of st' = bounds_of (if c = 0 then update_bounds c' children_size (update_bounds child (hdr_size + sz) st) else update_bounds child (hdr_size + sz) st)"
  proof -
    have "bounds_of st2 = bounds_of (update_bounds child (hdr_size + sz) st)"
      by (simp add: st2_def st1_def bounds_of_update_bounds [of "st\<lparr>mallocs := tl (mallocs st)\<rparr>" st])
    then show ?thesis using st'(14) bounds_of_update_bounds [of st2 "update_bounds child (hdr_size + sz) st"] by simp
  qed
  ultimately show thesis using st' assms(4) by (intro that [of st']) (simp_all add: st2_def st1_def ms_def [symmetric] del: rep.simps)
qed

text \<open>C9. Allocating adds the new context as the first child of its parent, which gets a property of
  children if it had none, with the given label, the text of its type, as its first property, and memory
  of the given size, zeroed if asked for.  No notifier is installed (\<open>notifiers st = 0\<close>).\<close>

theorem tal_alloc_child:
  assumes "rep st (Alloc p ps c ts)" and "to_tal_hdr_or_null st ctx = Done p" and "can_alloc st p ps c ts child ps' c'" and "notifiers st = 0"
    and "label = 0 \<or> (\<exists>s. s \<noteq> [] \<and> props st label = Some (Literal s))"
  shows "\<exists>st'. tal_alloc cb ctx sz clear label st = ret (from_tal_hdr child, st') \<and> rep st' (Alloc p ps' c' (Alloc child [] 0 [] # ts)) \<and>
    map_option bytelen (hdrs st' child) = Some sz \<and> map_option hdr_prop (hdrs st' child) = Some label \<and>
    payload st' child = Some (replicate (unat sz) (if clear then Some 0 else None)) \<and> world st' = world st"
proof -
  obtain st' where "tal_alloc cb ctx sz clear label st = ret (from_tal_hdr child, st')" "rep st' (Alloc p ps' c' (Alloc child [] 0 [] # ts))"
    "payload st' = (payload st)(child \<mapsto> replicate (unat sz) (if clear then Some 0 else None))" "map_option bytelen (hdrs st' child) = Some sz"
    "world st' = world st" "map_option hdr_prop (hdrs st' child) = Some label"
    by (rule alloc_child_rep [OF assms, of cb sz clear], rule that) assumption+
  then show ?thesis by (intro exI [of _ st']) (simp del: rep.simps)
qed

text \<open>C39. The size of an array is exact: it is refused when the product or its sum with the header
  overflow, and a size of zero is undefined unless there are no elements.\<close>

theorem adjust_size_exact:
  "adjust_size sz count =
     (if sz = 0 \<and> count \<noteq> 0 then Undefined
      else if unat sz * unat count + 40 < 2 ^ 64 then Done (word_of_nat (unat sz * unat count))
      else Abort)"
proof -
  have mul: "sz \<noteq> 0 \<Longrightarrow> sz * count div sz \<noteq> count \<longleftrightarrow> unat sz * unat count \<ge> 2 ^ 64"
    using mul_overflows_iff [of sz count] by (simp add: mul_overflows_u64_def)
  have add: "sz * count + hdr_size < hdr_size \<longleftrightarrow> unat (sz * count) + 40 \<ge> 2 ^ 64"
  proof -
    have "unat hdr_size = 40" unfolding hdr_size_def by simp
    then show ?thesis using add_overflows_iff [of hdr_size "sz * count"] by (simp add: add_overflows_u64_def add.commute)
  qed
  have word: "word_of_nat (unat sz * unat count) = sz * count" by simp
  consider "count = 0" | "count \<noteq> 0" "sz = 0" | "count \<noteq> 0" "sz \<noteq> 0" by blast
  then show ?thesis
  proof cases
    case 3
    show ?thesis
    proof (cases "unat sz * unat count \<ge> 2 ^ 64")
      case True
      then show ?thesis using 3 mul by (simp add: adjust_size_def)
    next
      case False
      then have "unat (sz * count) = unat sz * unat count" by (simp add: unat_word_ariths)
      then show ?thesis using 3 mul add False by (simp add: adjust_size_def)
    qed
  qed (simp_all add: adjust_size_def hdr_size_def)
qed

section \<open>Witnesses\<close>

text \<open>A context with a child that has a destructor, and is the parent of another.\<close>

definition example_tree :: "(addr \<times> notice) list tal_state" where
  "example_tree =
     \<lparr>nodes = [1000 \<mapsto> \<lparr>node_next = 1000, node_prev = 1000\<rparr>, 1064 \<mapsto> \<lparr>node_next = 3000, node_prev = 3000\<rparr>,
        3000 \<mapsto> \<lparr>node_next = 1064, node_prev = 1064\<rparr>],
      hdrs = [1000 \<mapsto> \<lparr>hdr_prop = 1040, parent_child = TAL_PTR_OBFUSTICATOR, bytelen = 0\<rparr>,
        3000 \<mapsto> \<lparr>hdr_prop = 4000, parent_child = 1040 XOR TAL_PTR_OBFUSTICATOR, bytelen = 2\<rparr>],
      props = [1040 \<mapsto> Children 0 1000, 4000 \<mapsto> Notifier 0 (TAL_NOTIFY_FREE OR NOTIFY_IS_DESTRUCTOR) 77 0],
      payload = [3000 \<mapsto> [None, Some 5]], bounds_start = 1500, bounds_end = 5000, notifiers = 0, null_parent = 1000,
      mallocs = [4500, 4700], takes = start_state, world = []\<rparr>"

definition example_act :: "addr \<Rightarrow> notice \<Rightarrow> (addr \<times> notice) list \<Rightarrow> (addr \<times> notice) list" where
  "example_act fn x w = w @ [(fn, x)]"

definition example_callback :: "(addr \<times> notice) list callback" where
  "example_callback fn x st = ret (st\<lparr>world := example_act fn x (world st)\<rparr>)"

abbreviation (input) example_child :: alloc where "example_child \<equiv> Alloc 3000 [4000] 0 []"
abbreviation (input) example_alloc :: alloc where "example_alloc \<equiv> Alloc 1000 [1040] 1040 [example_child]"

lemma example_outside: "outside example_callback example_act"
  by (simp add: outside_def example_callback_def)

lemma example_bits: "\<not> get_destroying_bit TAL_PTR_OBFUSTICATOR" "\<not> get_destroying_bit (1040 XOR TAL_PTR_OBFUSTICATOR)"
  "ignore_destroying_bit (1040 XOR TAL_PTR_OBFUSTICATOR) = 1040" "ignore_destroying_bit TAL_PTR_OBFUSTICATOR = 0"
  by (simp_all add: get_destroying_bit_def ignore_destroying_bit_def TAL_PTR_OBFUSTICATOR_def)

lemma example_rep: "rep example_tree example_alloc"
  by (simp add: example_tree_def example_bits props_ok_def only_children_def is_children_def proper_list_def is_list_def ring_def nexts_def prevs_def head_off_def) 

lemma example_separated: "separated example_alloc"
  by (simp add: separated_def head_off_def)

lemma example_untaken: "untaken example_tree example_child"
  by (simp add: untaken_def example_tree_def start_state_def pending_def from_tal_hdr_def hdr_size_def)

lemma example_hdr: "to_tal_hdr example_tree 3040 = Done 3000" "to_tal_hdr_or_null example_tree 0 = Done 1000"
  by (simp_all add: to_tal_hdr_def to_tal_hdr_or_null_def example_tree_def hdr_size_def check_bounds_def in_bounds_def null_parent_size_def get_hdr_def
     get_next_def get_prev_def is_literal_def get_prop_def example_bits)

text \<open>The same with a notifier for the freeing of a child on the parent.\<close>

definition example_notified :: "(addr \<times> notice) list tal_state" where
  "example_notified = example_tree\<lparr>hdrs := (hdrs example_tree)(1000 \<mapsto> \<lparr>hdr_prop = 4200, parent_child = TAL_PTR_OBFUSTICATOR, bytelen = 0\<rparr>),
     props := (props example_tree)(4200 \<mapsto> Notifier 1040 TAL_NOTIFY_DEL_CHILD 88 0), notifiers := 1\<rparr>"

lemma example_notified_rep: "rep example_notified (Alloc 1000 [4200, 1040] 1040 [example_child])"
  by (simp add: example_notified_def example_tree_def example_bits props_ok_def only_children_def is_children_def proper_list_def is_list_def
      ring_def nexts_def prevs_def head_off_def)

lemma example_notified_hdr: "to_tal_hdr example_notified 3040 = Done 3000"
  by (simp add: to_tal_hdr_def example_notified_def example_tree_def hdr_size_def check_bounds_def in_bounds_def null_parent_size_def get_hdr_def
     get_next_def get_prev_def is_literal_def get_prop_def example_bits)

lemma tal_free_child_witness:
  "\<exists>st'. tal_free example_callback 3040 example_notified = ret (0, st') \<and> rep st' (Alloc 1000 [4200, 1040] 1040 []) \<and>
     payload st' = Map.empty \<and> world st' = [(88, Notify 0 TAL_NOTIFY_DEL_CHILD 3040), (77, Destroy 3040)]"
proof -
  have flags: "TAL_NOTIFY_DEL_CHILD AND TAL_NOTIFY_DEL_CHILD \<noteq> 0" "TAL_NOTIFY_DEL_CHILD AND NOTIFY_IS_DESTRUCTOR = 0"
    by (simp_all add: TAL_NOTIFY_DEL_CHILD_def NOTIFY_IS_DESTRUCTOR_def)
  have "free_notices example_notified 3040 example_child = [(77, Destroy 3040)]"
    by (simp add: notices_def example_notified_def example_tree_def TAL_NOTIFY_FREE_def NOTIFY_IS_DESTRUCTOR_def NOTIFY_EXTRA_ARG_def from_tal_hdr_def hdr_size_def)
  moreover have "del_child_notices example_notified 1000 [4200, 1040] 3040 = [(88, Notify 0 TAL_NOTIFY_DEL_CHILD 3040)]"
    using flags by (simp add: del_child_notices_def notices_def example_notified_def example_tree_def)
  ultimately have "tell example_act (del_child_notices example_notified 1000 [4200, 1040] 3040 @ free_notices example_notified 3040 example_child) (world example_notified) =
      [(88, Notify 0 TAL_NOTIFY_DEL_CHILD 3040), (77, Destroy 3040)]"
    by (simp add: tell_def example_act_def example_notified_def example_tree_def)
  moreover have "payload example_notified |` (- {3000}) = Map.empty" by (auto simp: example_notified_def example_tree_def restrict_map_def)
  moreover have "separated (Alloc 1000 [4200, 1040] 1040 [example_child])" by (simp add: separated_def head_off_def)
  moreover have "untaken example_notified example_child"
    by (simp add: untaken_def example_notified_def example_tree_def start_state_def pending_def from_tal_hdr_def hdr_size_def)
  moreover have "destructors_kept example_notified [4200, 1040]"
    using flags by (simp add: destructors_kept_def example_notified_def example_tree_def)
  ultimately show ?thesis
    using tal_free_child [of example_notified 1000 "[4200, 1040]" 1040 "[]" example_child "[]" example_callback example_act 3040]
      example_notified_rep example_outside example_notified_hdr
    by (auto simp del: rep.simps)
qed

text \<open>The same with the text of a type, a byte array.\<close>

definition example_labelled :: "(addr \<times> notice) list tal_state" where
  "example_labelled = example_tree\<lparr>props := (props example_tree)(4800 \<mapsto> Literal (cs ''char[]''))\<rparr>"

lemma tal_alloc_child_witness:
  "\<exists>st'. tal_alloc example_callback 0 2 True 4800 example_labelled = ret (4540, st') \<and> rep st' (Alloc 1000 [1040] 1040 [Alloc 4500 [] 0 [], example_child]) \<and>
     payload st' 4500 = Some (replicate 2 (Some 0)) \<and> map_option hdr_prop (hdrs st' 4500) = Some 4800"
proof -
  have "can_alloc example_labelled 1000 [1040] 1040 [example_child] 4500 [1040] 1040"
    by (simp add: can_alloc_def separated_def head_off_def example_labelled_def example_tree_def)
  moreover have "from_tal_hdr 4500 = 4540" by (simp add: from_tal_hdr_def hdr_size_def)
  moreover have "notifiers example_labelled = 0" by (simp add: example_labelled_def example_tree_def)
  moreover have "\<exists>s. s \<noteq> [] \<and> props example_labelled 4800 = Some (Literal s)" by (simp add: example_labelled_def)
  moreover have "rep example_labelled example_alloc"
    by (simp add: example_labelled_def example_tree_def example_bits props_ok_def only_children_def is_children_def proper_list_def is_list_def
      ring_def nexts_def prevs_def head_off_def)
  moreover have "to_tal_hdr_or_null example_labelled 0 = Done 1000"
    by (simp add: to_tal_hdr_or_null_def example_labelled_def example_tree_def)
  ultimately show ?thesis
    using tal_alloc_child [of example_labelled 1000 "[1040]" 1040 "[example_child]" 0 4500 "[1040]" 1040 4800 example_callback 2 True]
    by (auto simp del: rep.simps)
qed

end
