(* ===== verification/Tal_Context.thy ===== *)
theory Tal_Context
  imports Tal_Tree "HOL-Library.Multiset"
begin

text \<open>
  The whole tree of allocations: what a call does to a context somewhere in it leaves the rest as it
  was.  So every sequence of calls on live contexts returns, and keeps the memory in order.
\<close>

section \<open>Contexts in a tree\<close>

primrec subtrees :: "alloc \<Rightarrow> alloc list" where
  "subtrees (Alloc t ps c ts) = Alloc t ps c ts # concat (map subtrees ts)"

text \<open>The tree with another one in the place of the context with the same header.\<close>

primrec replace_in :: "alloc \<Rightarrow> alloc \<Rightarrow> alloc" where
  "replace_in P' (Alloc t ps c ts) = (if t = hdr_at P' then P' else Alloc t ps c (map (replace_in P') ts))"

lemma subtrees_self [simp]: "W \<in> set (subtrees W)"
  by (cases W) simp

lemma subtrees_addrs:
  "P \<in> set (subtrees W) \<Longrightarrow> set (hdr_addrs P) \<subseteq> set (hdr_addrs W) \<and> set (prop_addrs P) \<subseteq> set (prop_addrs W) \<and> set (node_addrs P) \<subseteq> set (node_addrs W)"
proof (induction W)
  case (Alloc t ps c ts)
  then show ?case by (cases "P = Alloc t ps c ts") fastforce+
qed

lemma subtrees_hdr: "P \<in> set (subtrees W) \<Longrightarrow> hdr_at P \<in> set (hdr_addrs W)"
  using subtrees_addrs hdr_at_in(1) by blast

lemma subtrees_rep: "rep st W \<Longrightarrow> P \<in> set (subtrees W) \<Longrightarrow> rep st P"
proof (induction W)
  case (Alloc t ps c ts)
  then show ?case by (cases "P = Alloc t ps c ts") (auto simp: list_all_iff)
qed

lemma subtrees_trans: "P \<in> set (subtrees Q) \<Longrightarrow> Q \<in> set (subtrees W) \<Longrightarrow> P \<in> set (subtrees W)"
proof (induction W)
  case (Alloc t ps c ts)
  then show ?case by (cases "Q = Alloc t ps c ts") auto
qed

lemma hdr_at_replace_in [simp]: "hdr_at (replace_in P' W) = hdr_at W"
  by (cases W) simp

lemma replace_in_other: "hdr_at P' \<notin> set (hdr_addrs W) \<Longrightarrow> replace_in P' W = W"
  by (induction W) (auto intro!: map_idI)

text \<open>The addresses of the tree without those of a context.\<close>

lemma concat_map_other:
  "distinct (concat (map hdr_addrs ts)) \<Longrightarrow> x \<in> set ts \<Longrightarrow> hdr_at P' \<in> set (hdr_addrs x) \<Longrightarrow>
     \<exists>us vs. ts = us @ x # vs \<and> map (replace_in P') ts = us @ replace_in P' x # vs"
proof -
  assume d: "distinct (concat (map hdr_addrs ts))" and x: "x \<in> set ts" "hdr_at P' \<in> set (hdr_addrs x)"
  obtain us vs where ts: "ts = us @ x # vs" using x(1) by (meson split_list)
  have "replace_in P' y = y" if "y \<in> set us \<union> set vs" for y
    using d ts x(2) that by (intro replace_in_other) auto
  then have "map (replace_in P') us = us" "map (replace_in P') vs = vs" by (auto intro!: map_idI)
  then show ?thesis using ts by auto
qed

lemma replace_in_addrs:
  assumes "P \<in> set (subtrees W)" and "hdr_at P' = hdr_at P" and "distinct (hdr_addrs W)"
  shows "\<exists>Rh Rp Rn. mset (hdr_addrs W) = mset (hdr_addrs P) + Rh \<and> mset (hdr_addrs (replace_in P' W)) = mset (hdr_addrs P') + Rh \<and>
    mset (prop_addrs W) = mset (prop_addrs P) + Rp \<and> mset (prop_addrs (replace_in P' W)) = mset (prop_addrs P') + Rp \<and>
    mset (node_addrs W) = mset (node_addrs P) + Rn \<and> mset (node_addrs (replace_in P' W)) = mset (node_addrs P') + Rn"
  using assms
proof (induction W)
  case (Alloc t ps c ts)
  show ?case
  proof (cases "P = Alloc t ps c ts")
    case True
    then show ?thesis using Alloc.prems(2) by (intro exI [of _ "{#}"]) simp
  next
    case False
    then obtain x where x: "x \<in> set ts" "P \<in> set (subtrees x)" using Alloc.prems(1) by auto
    have here: "hdr_at P' \<in> set (hdr_addrs x)" using subtrees_hdr [OF x(2)] Alloc.prems(2) by simp
    obtain us vs where uv: "ts = us @ x # vs" "map (replace_in P') ts = us @ replace_in P' x # vs"
      using concat_map_other [of ts x P'] Alloc.prems(3) x(1) here by auto
    have "t \<noteq> hdr_at P'" using Alloc.prems(3) x(1) here by auto
    then have new: "replace_in P' (Alloc t ps c ts) = Alloc t ps c (us @ replace_in P' x # vs)" using uv(2) by simp
    have "distinct (hdr_addrs x)" using Alloc.prems(3) uv(1) by simp
    then obtain Rh Rp Rn where R: "mset (hdr_addrs x) = mset (hdr_addrs P) + Rh" "mset (hdr_addrs (replace_in P' x)) = mset (hdr_addrs P') + Rh"
        "mset (prop_addrs x) = mset (prop_addrs P) + Rp" "mset (prop_addrs (replace_in P' x)) = mset (prop_addrs P') + Rp"
        "mset (node_addrs x) = mset (node_addrs P) + Rn" "mset (node_addrs (replace_in P' x)) = mset (node_addrs P') + Rn"
      using Alloc.IH [OF x(1,2) Alloc.prems(2)] by blast
    let ?o = "\<lambda>f. mset (concat (map f us)) + mset (concat (map f vs))"
    show ?thesis unfolding uv(1) new [unfolded uv(1)]
      by (rule exI [of _ "{#t#} + Rh + ?o hdr_addrs"], rule exI [of _ "mset ps + Rp + ?o prop_addrs"],
        rule exI [of _ "{#t#} + mset (if c = 0 then [] else [c + head_off]) + Rn + ?o node_addrs"]) (simp add: R)
  qed
qed

lemma distinct_exchange:
  assumes "mset as = mset bs + R" and "mset as' = mset bs' + R" and "distinct as" and "distinct bs'" and "set bs' \<inter> set as \<subseteq> set bs"
  shows "distinct as'"
proof -
  obtain rs where rs: "mset rs = R" using ex_mset by blast
  have as: "mset as = mset (bs @ rs)" "mset as' = mset (bs' @ rs)" using assms(1,2) rs by simp_all
  have "distinct (bs @ rs)" "set as = set (bs @ rs)" using as(1) assms(3) mset_eq_imp_distinct_iff mset_eq_setD by blast+
  then have "distinct (bs' @ rs)" using assms(4,5) by auto
  then show ?thesis using as(2) mset_eq_imp_distinct_iff by blast
qed

lemma replace_in_separated:
  assumes "separated W" and "P \<in> set (subtrees W)" and "hdr_at P' = hdr_at P" and "separated P'"
    and "set (hdr_addrs P') \<inter> set (hdr_addrs W) \<subseteq> set (hdr_addrs P)" and "set (prop_addrs P') \<inter> set (prop_addrs W) \<subseteq> set (prop_addrs P)"
    and "set (node_addrs P') \<inter> set (node_addrs W) \<subseteq> set (node_addrs P)"
  shows "separated (replace_in P' W)"
proof -
  obtain Rh Rp Rn where "mset (hdr_addrs W) = mset (hdr_addrs P) + Rh" "mset (hdr_addrs (replace_in P' W)) = mset (hdr_addrs P') + Rh"
      "mset (prop_addrs W) = mset (prop_addrs P) + Rp" "mset (prop_addrs (replace_in P' W)) = mset (prop_addrs P') + Rp"
      "mset (node_addrs W) = mset (node_addrs P) + Rn" "mset (node_addrs (replace_in P' W)) = mset (node_addrs P') + Rn"
    using replace_in_addrs [OF assms(2,3)] assms(1) by (auto simp: separated_def)
  then show ?thesis using assms(1,4-7) distinct_exchange unfolding separated_def by metis
qed

lemma replace_in_sets:
  assumes "separated W" and "P \<in> set (subtrees W)" and "hdr_at P' = hdr_at P"
  shows "set (hdr_addrs (replace_in P' W)) = set (hdr_addrs P') \<union> (set (hdr_addrs W) - set (hdr_addrs P))"
    "set (prop_addrs (replace_in P' W)) = set (prop_addrs P') \<union> (set (prop_addrs W) - set (prop_addrs P))"
    "set (node_addrs (replace_in P' W)) = set (node_addrs P') \<union> (set (node_addrs W) - set (node_addrs P))"
proof -
  have rest: "set as' = set bs' \<union> (set as - set bs)" if "mset as = mset bs + R" "mset as' = mset bs' + R" "distinct as" for as bs as' bs' :: "addr list" and R
  proof -
    obtain rs where rs: "mset rs = R" using ex_mset by blast
    have "mset as = mset (bs @ rs)" "mset as' = mset (bs' @ rs)" using that(1,2) rs by simp_all
    then have "distinct (bs @ rs)" "set as = set (bs @ rs)" "set as' = set (bs' @ rs)" using that(3) mset_eq_imp_distinct_iff mset_eq_setD by blast+
    then show ?thesis by auto
  qed
  obtain Rh Rp Rn where "mset (hdr_addrs W) = mset (hdr_addrs P) + Rh" "mset (hdr_addrs (replace_in P' W)) = mset (hdr_addrs P') + Rh"
      "mset (prop_addrs W) = mset (prop_addrs P) + Rp" "mset (prop_addrs (replace_in P' W)) = mset (prop_addrs P') + Rp"
      "mset (node_addrs W) = mset (node_addrs P) + Rn" "mset (node_addrs (replace_in P' W)) = mset (node_addrs P') + Rn"
    using replace_in_addrs [OF assms(2,3)] assms(1) by (auto simp: separated_def)
  then show "set (hdr_addrs (replace_in P' W)) = set (hdr_addrs P') \<union> (set (hdr_addrs W) - set (hdr_addrs P))"
    "set (prop_addrs (replace_in P' W)) = set (prop_addrs P') \<union> (set (prop_addrs W) - set (prop_addrs P))"
    "set (node_addrs (replace_in P' W)) = set (node_addrs P') \<union> (set (node_addrs W) - set (node_addrs P))"
    using rest assms(1) unfolding separated_def by metis+
qed

text \<open>A state in which a context has changed, and what belongs to the others has not.\<close>

lemma subtrees_inner: "P \<in> set (subtrees x) \<Longrightarrow> set (tl (node_addrs P)) \<subseteq> set (tl (node_addrs x))"
  using subtrees_addrs by (cases x) (fastforce dest: in_tl)

lemma subtrees_root: "distinct (hdr_addrs x) \<Longrightarrow> P \<in> set (subtrees x) \<Longrightarrow> hdr_at x \<in> set (hdr_addrs P) \<Longrightarrow> P = x"
  using subtrees_addrs by (cases x) fastforce

lemma rep_context:
  fixes st st' :: "'w tal_state"
  assumes "rep st W" and "separated W" and "P \<in> set (subtrees W)" and "rep st' P'" and "hdr_at P' = hdr_at P"
    and "\<forall>a\<in>set (hdr_addrs W) - set (hdr_addrs P). hdrs st' a = hdrs st a" and "\<forall>a\<in>set (prop_addrs W) - set (prop_addrs P). props st' a = props st a"
    and "\<forall>a\<in>set (node_addrs W) - set (tl (node_addrs P)). nodes st' a = nodes st a"
    and "\<forall>p s. props st p = Some (Literal s) \<longrightarrow> props st' p = Some (Literal s)"
    and "map_option parent_child (hdrs st' (hdr_at P)) = map_option parent_child (hdrs st (hdr_at P))"
  shows "rep st' (replace_in P' W)"
  using assms(1-3,6-8)
proof (induction W)
  case (Alloc t ps c ts)
  show ?case
  proof (cases "P = Alloc t ps c ts")
    case True
    then show ?thesis using assms(4,5) by simp
  next
    case False
    then obtain x where x: "x \<in> set ts" "P \<in> set (subtrees x)" using Alloc.prems(3) by auto
    have here: "hdr_at P' \<in> set (hdr_addrs x)" using subtrees_hdr [OF x(2)] assms(5) by simp
    obtain us vs where uv: "ts = us @ x # vs" "map (replace_in P') ts = us @ replace_in P' x # vs"
      using concat_map_other [of ts x P'] Alloc.prems(2) x(1) here by (auto simp: separated_def)
    have c: "c \<noteq> 0" using Alloc.prems(1) x(1) by (auto split: if_splits)
    note sep = separated_kids [OF Alloc.prems(2)] and in_x = subtrees_addrs [OF x(2)]
    have "t \<noteq> hdr_at P'" using sep(4) x(1) here by auto
    then have new: "replace_in P' (Alloc t ps c ts) = Alloc t ps c (us @ replace_in P' x # vs)" using uv(2) by simp
    have rx: "rep st' (replace_in P' x)"
      using Alloc.prems x(1) by (intro Alloc.IH [OF x(1) _ _ x(2)]) (auto simp: list_all_iff separated_def uv(1))
    have other: "agrees y st st'" if y: "y \<in> set us \<union> set vs" for y
    proof -
      have "set (hdr_addrs y) \<inter> set (hdr_addrs x) = {}" "set (prop_addrs y) \<inter> set (prop_addrs x) = {}" "set (node_addrs y) \<inter> set (node_addrs x) = {}"
        using sep(1) [OF c] sep(2,3) y by (auto simp: uv(1))
      moreover have "y \<in> set ts" using y uv(1) by auto
      moreover have "set (tl (node_addrs y)) \<subseteq> set (node_addrs y)" "set (tl (node_addrs P)) \<subseteq> set (node_addrs P)" by (auto dest: in_tl)
      ultimately have "set (hdr_addrs y) \<inter> set (hdr_addrs P) = {}" "set (prop_addrs y) \<inter> set (prop_addrs P) = {}"
          "set (tl (node_addrs y)) \<inter> set (tl (node_addrs P)) = {}" "set (hdr_addrs y) \<subseteq> set (hdr_addrs (Alloc t ps c ts))"
          "set (prop_addrs y) \<subseteq> set (prop_addrs (Alloc t ps c ts))" "set (tl (node_addrs y)) \<subseteq> set (node_addrs (Alloc t ps c ts))"
        using in_x by (blast, blast, blast, auto)
      then show ?thesis using Alloc.prems(4-6) assms(9) unfolding agrees_def by blast
    qed
    have "hdrs st' t = hdrs st t" using Alloc.prems(4) sep(4) in_x x(1) by auto
    moreover have "\<forall>q\<in>set ps. props st' q = props st q"
    proof -
      have "set ps \<inter> set (prop_addrs P) = {}" using sep(5) in_x x(1) by auto
      then show ?thesis using Alloc.prems(5) by auto
    qed
    moreover have "proper_list (nodes st') (c + head_off) (map hdr_at (us @ replace_in P' x # vs))"
    proof -
      have "nodes st' a = nodes st a" if mem: "a \<in> set ((c + head_off) # map hdr_at ts)" for a
      proof -
        have "a \<notin> set (tl (node_addrs P))"
        proof
          assume a: "a \<in> set (tl (node_addrs P))"
          then have ax: "a \<in> set (tl (node_addrs x))" using subtrees_inner [OF x(2)] by auto
          have "a \<noteq> c + head_off" using sep(1) [OF c] x(1) in_tl [OF ax] by auto
          then obtain z where "z \<in> set ts" "a = hdr_at z" using mem by auto
          then show False using inner_not_root [OF _ x(1) ax] sep(1) [OF c] by auto
        qed
        moreover have "a \<in> set (node_addrs (Alloc t ps c ts))" using mem c roots_in_nodes by auto
        ultimately show ?thesis using Alloc.prems(6) by blast
      qed
      then show ?thesis using Alloc.prems(1) c is_list_cong [of "c + head_off" "map hdr_at ts" "nodes st'" "nodes st"] by (simp add: proper_list_def uv(1))
    qed
    moreover have "\<exists>h. hdrs st' (hdr_at y) = Some h \<and> parent_child h = c XOR TAL_PTR_OBFUSTICATOR" if y: "y \<in> set (us @ replace_in P' x # vs)" for y
    proof -
      have "\<exists>z\<in>set ts. hdr_at y = hdr_at z" using y uv(1) by auto
      then obtain z where z: "z \<in> set ts" "hdr_at y = hdr_at z" by blast
      have "map_option parent_child (hdrs st' (hdr_at z)) = map_option parent_child (hdrs st (hdr_at z))"
      proof (cases "hdr_at z \<in> set (hdr_addrs P)")
        case True
        then have "hdr_at z \<in> set (hdr_addrs z) \<inter> set (hdr_addrs x)" using in_x hdr_at_in(1) [of z] by blast
        then have "z = x" using distinct_concat_disjoint [OF sep(2) z(1) x(1)] by blast
        have "distinct (hdr_addrs x)" using sep(2) by (simp add: uv(1))
        then have "P = x" using subtrees_root [OF _ x(2)] True \<open>z = x\<close> by simp
        then have "hdr_at z = hdr_at P" using \<open>z = x\<close> by simp
        then show ?thesis using assms(10) by simp
      next
        case False
        moreover have "hdr_at z \<in> set (hdr_addrs (Alloc t ps c ts))" using z(1) hdr_at_in(1) [of z] by auto
        ultimately have "hdrs st' (hdr_at z) = hdrs st (hdr_at z)" using Alloc.prems(4) by blast
        then show ?thesis by simp
      qed
      moreover obtain h where "hdrs st (hdr_at z) = Some h" "parent_child h = c XOR TAL_PTR_OBFUSTICATOR" using Alloc.prems(1) z(1) by auto
      ultimately show ?thesis using z(2) by auto
    qed
    moreover have "rep st' y" if "y \<in> set (us @ replace_in P' x # vs)" for y
      using rx that rep_agrees [OF _ other] Alloc.prems(1) by (auto simp: list_all_iff uv(1))
    ultimately show ?thesis unfolding new by (intro rep_kids [OF Alloc.prems(1)]) (use c assms(9) in auto)
  qed
qed

end
