(* ===== verification/Tal_Resize.thy ===== *)
theory Tal_Resize
  imports Tal_Tree
begin

text \<open>
  The rest of \<open>tal.c\<close>: resizing, expanding and duplicating, the cleanup, and the check of a tree.
  That resizing a child, in place or not, keeps its tree and its bytes.

  \<open>resizefn\<close> takes its answers from the same list as \<open>allocfn\<close>.  What \<open>take\<close> needs, the results of
  its allocations and its failure function, is an argument.
\<close>

section \<open>Resizing\<close>

type_synonym take_env = "(unit \<Rightarrow> addr \<Rightarrow> unit take_state \<Rightarrow> unit take_state) \<times> allocs"

text \<open>What \<open>realloc\<close> does: the block moves, with its bytes up to the smaller size.  The size is that of the
  header and the bytes.\<close>

definition reallocate :: "addr \<Rightarrow> u64 \<Rightarrow> 'w tal_state \<Rightarrow> (addr \<times> 'w tal_state) outcome" where
  "reallocate t sz st =
     (case mallocs st of [] \<Rightarrow> Abort
      | r # rs \<Rightarrow>
          if r = 0 then Abort
          else case (hdrs st t, nodes st t, payload st t) of
            (Some h, Some nd, Some bs) \<Rightarrow>
              Done (r, st\<lparr>mallocs := rs, hdrs := ((hdrs st)(t := None))(r \<mapsto> h), nodes := ((nodes st)(t := None))(r \<mapsto> nd),
                payload := ((payload st)(t := None))(r \<mapsto> take (unat (sz - hdr_size)) bs @ replicate (unat (sz - hdr_size) - length bs) None)\<rparr>)
          | _ \<Rightarrow> Undefined)"

text \<open>\<open>memset\<close> between the old end and the new end.\<close>

definition clear_tail :: "addr \<Rightarrow> u64 \<Rightarrow> u64 \<Rightarrow> 'w tal_state \<Rightarrow> 'w tal_state outcome" where
  "clear_tail t from to st =
     (case payload st t of None \<Rightarrow> Undefined
      | Some bs \<Rightarrow> if length bs < unat to then Undefined
          else Done (st\<lparr>payload := (payload st)(t \<mapsto> take (unat from) bs @ replicate (unat to - unat from) (Some 0) @ drop (unat to) bs)\<rparr>))"

definition fix_links :: "addr \<Rightarrow> 'w tal_state \<Rightarrow> 'w tal_state outcome" where
  "fix_links t st =
     bind_outcome (get_next (nodes st) t) (\<lambda>n.
     bind_outcome (get_prev (nodes st) t) (\<lambda>p.
     bind_outcome (on_nodes st (set_next (nodes st) p t)) (\<lambda>st.
     on_nodes st (set_prev (nodes st) n t))))"

definition copy_take :: "take_env \<Rightarrow> addr \<Rightarrow> addr \<Rightarrow> 'w tal_state \<Rightarrow> 'w tal_state outcome" where
  "copy_take env old_t t st =
     (let (b, tk) = taken (from_tal_hdr old_t) (takes st) in
      if b then bind_outcome (take_ptr (fst env) (snd env) (from_tal_hdr t) None tk) (\<lambda>(_, tk). Done (st\<lparr>takes := tk\<rparr>))
      else Done (st\<lparr>takes := tk\<rparr>))"

definition fix_child_parent :: "addr \<Rightarrow> addr \<Rightarrow> 'w tal_state \<Rightarrow> 'w tal_state outcome option" where
  "fix_child_parent old_t t st =
     bind_run (find_property st t CHILDREN) (\<lambda>c.
       if c = 0 then ret st
       else bind_run (run_of (get_prop st c)) (\<lambda>x. case x of
         Children n par \<Rightarrow> if par \<noteq> old_t then Some Abort else ret (st\<lparr>props := (props st)(c \<mapsto> Children n t)\<rparr>)
       | _ \<Rightarrow> Some Undefined))"

text \<open>The result is whether it succeeded, and the new pointer.\<close>

definition tal_resize :: "'w callback \<Rightarrow> take_env \<Rightarrow> addr \<Rightarrow> u64 \<Rightarrow> u64 \<Rightarrow> bool \<Rightarrow> 'w tal_state \<Rightarrow> (bool \<times> addr \<times> 'w tal_state) outcome option" where
  "tal_resize cb env ctx sz count clear st =
     bind_run (run_of (to_tal_hdr st ctx)) (\<lambda>old_t.
     bind_run (run_of (adjust_size sz count)) (\<lambda>sz.
     bind_run (run_of (reallocate old_t (hdr_size + sz) st)) (\<lambda>(t, st).
     bind_run (run_of (get_hdr st t)) (\<lambda>h.
     bind_run (if clear \<and> sz > bytelen h then run_of (clear_tail t (bytelen h) sz st) else ret st) (\<lambda>st.
     bind_run (run_of (upd_hdr st t (\<lambda>h. h\<lparr>bytelen := sz\<rparr>))) (\<lambda>st.
     let st = update_bounds t (hdr_size + sz) st in
     bind_run
       (if t \<noteq> old_t then
          bind_run (run_of (fix_links t st)) (\<lambda>st.
          bind_run (run_of (copy_take env old_t t st)) (\<lambda>st.
          bind_run (fix_child_parent old_t t st) (\<lambda>st.
          bind_run (notify_any cb t TAL_NOTIFY_MOVE (from_tal_hdr old_t) st) (\<lambda>st.
          ret (from_tal_hdr t, st)))))
        else ret (ctx, st))
       (\<lambda>(ctx, st).
     bind_run (notify_any cb t TAL_NOTIFY_RESIZE sz st) (\<lambda>st.
     ret (True, ctx, st)))))))))"

section \<open>Expanding and duplicating\<close>

text \<open>The object at a pointer: the bytes of a context, or \<open>foreign\<close> memory, which also stands for what a
  pointer into the middle of a context points at.  The null pointer has none.\<close>

definition object_at :: "(addr \<Rightarrow> u8 option list) \<Rightarrow> 'w tal_state \<Rightarrow> addr \<Rightarrow> u8 option list" where
  "object_at foreign st p = (case payload st (p - hdr_size) of Some bs \<Rightarrow> bs | None \<Rightarrow> foreign p)"

definition bytes_at :: "(addr \<Rightarrow> u8 option list) \<Rightarrow> 'w tal_state \<Rightarrow> addr \<Rightarrow> u64 \<Rightarrow> u8 option list outcome" where
  "bytes_at foreign st p n =
     (let bs = object_at foreign st p in if p = 0 \<or> length bs < unat n then Undefined else Done (take (unat n) bs))"

definition write_bytes :: "addr \<Rightarrow> nat \<Rightarrow> u8 option list \<Rightarrow> 'w tal_state \<Rightarrow> 'w tal_state outcome" where
  "write_bytes t off bs st =
     (case payload st t of None \<Rightarrow> Undefined
      | Some old \<Rightarrow> if off + length bs > length old then Undefined
          else Done (st\<lparr>payload := (payload st)(t \<mapsto> take off old @ bs @ drop (off + length bs) old)\<rparr>))"

text \<open>\<open>if (taken (p)) tal_free (p)\<close>\<close>

definition free_taken :: "'w callback \<Rightarrow> addr \<Rightarrow> 'w tal_state \<Rightarrow> 'w tal_state outcome option" where
  "free_taken cb p st =
     (let (b, tk) = taken p (takes st); st = st\<lparr>takes := tk\<rparr> in
      if b then bind_run (tal_free cb p st) (\<lambda>(_, st). ret st) else ret st)"

definition tal_expand :: "'w callback \<Rightarrow> take_env \<Rightarrow> (addr \<Rightarrow> u8 option list) \<Rightarrow> addr \<Rightarrow> addr \<Rightarrow> u64 \<Rightarrow> u64 \<Rightarrow> 'w tal_state \<Rightarrow>
    (bool \<times> addr \<times> 'w tal_state) outcome option" where
  "tal_expand cb env foreign ctx src sz count st =
     bind_run (run_of (to_tal_hdr st ctx)) (\<lambda>t.
     bind_run (run_of (get_hdr st t)) (\<lambda>h.
       let old_len = bytelen h in
       if old_len + count * sz < old_len then Some Abort
       else if \<not> (src < ctx \<or> src \<ge> ctx + old_len) then Some Abort
       else if sz = 0 then Some Undefined
       else
         bind_run (tal_resize cb env ctx sz (old_len div sz + count) False st) (\<lambda>(ok, ctx, st).
         bind_run
           (if \<not> ok then ret st
            else bind_run (run_of (bytes_at foreign st src (count * sz))) (\<lambda>bs. run_of (write_bytes (ctx - hdr_size) (unat old_len) bs st)))
           (\<lambda>st.
         bind_run (free_taken cb src st) (\<lambda>st. ret (ok, ctx, st))))))"

definition tal_dup :: "'w callback \<Rightarrow> take_env \<Rightarrow> (addr \<Rightarrow> u8 option list) \<Rightarrow> addr \<Rightarrow> addr \<Rightarrow> u64 \<Rightarrow> u64 \<Rightarrow> u64 \<Rightarrow> bool \<Rightarrow> addr \<Rightarrow>
    'w tal_state \<Rightarrow> (addr \<times> 'w tal_state) outcome option" where
  "tal_dup cb env foreign ctx p sz n extra nullok label st =
     (if nullok \<and> p = 0 then ret (0, st\<lparr>takes := snd (taken p (takes st))\<rparr>)
      else
        bind_run (run_of (adjust_size sz n)) (\<lambda>nbytes.
          if n + extra < n then Some Abort
          else
            let (b, tk) = taken p (takes st); st = st\<lparr>takes := tk\<rparr> in
            if b then
              if p = 0 then ret (0, st)
              else
                bind_run (tal_resize cb env p sz (n + extra) False st) (\<lambda>(ok, p, st).
                  if \<not> ok then tal_free cb p st
                  else
                    bind_run (tal_steal cb ctx p st) (\<lambda>(r, st).
                      if r = 0 then tal_free cb p st else ret (p, st)))
            else
              bind_run (tal_alloc_arr cb ctx sz (n + extra) False label st) (\<lambda>(r, st).
                if r = 0 then ret (r, st)
                else
                  bind_run (run_of (bytes_at foreign st p nbytes)) (\<lambda>bs.
                  bind_run (run_of (write_bytes (r - hdr_size) 0 bs st)) (\<lambda>st.
                  ret (r, st))))))"

definition tal_dup_talarr :: "'w callback \<Rightarrow> take_env \<Rightarrow> (addr \<Rightarrow> u8 option list) \<Rightarrow> addr \<Rightarrow> addr \<Rightarrow> addr \<Rightarrow>
    'w tal_state \<Rightarrow> (addr \<times> 'w tal_state) outcome option" where
  "tal_dup_talarr cb env foreign ctx src label st =
     bind_run (run_of (tal_bytelen src st)) (\<lambda>n. tal_dup cb env foreign ctx src 1 n 0 True label st)"

section \<open>Cleaning up\<close>

text \<open>The headers of the children of the null parent are taken out of the list and zeroed, not freed.\<close>

partial_function (option) cleanup_loop :: "addr \<Rightarrow> 'w tal_state \<Rightarrow> 'w tal_state outcome option" where
  "cleanup_loop lh st =
     bind_run (run_of (list_top (nodes st) lh 0)) (\<lambda>i.
       if i = 0 then ret st
       else
         bind_run (run_of (on_nodes st (list_del (nodes st) i))) (\<lambda>st.
         bind_run (run_of (get_hdr st i)) (\<lambda>_.
         cleanup_loop lh (st\<lparr>nodes := (nodes st)(i \<mapsto> \<lparr>node_next = 0, node_prev = 0\<rparr>),
           hdrs := (hdrs st)(i \<mapsto> \<lparr>hdr_prop = 0, parent_child = 0, bytelen = 0\<rparr>)\<rparr>))))"

definition tal_cleanup :: "'w tal_state \<Rightarrow> 'w tal_state outcome option" where
  "tal_cleanup st =
     bind_run (cleanup_loop (null_parent st + hdr_size + head_off) st) (\<lambda>st. ret (st\<lparr>takes := take_cleanup (takes st)\<rparr>))"

section \<open>Checking\<close>

definition check_err :: "cstr option \<Rightarrow> bool outcome" where
  "check_err errorstr = (if errorstr \<noteq> None then Abort else Done False)"

text \<open>The loop over the properties of \<open>check_node\<close>: an error, or the property of children (0 for none).  A property
  of an unknown type is not in the model.\<close>

partial_function (option) check_props_loop :: "'w tal_state \<Rightarrow> cstr option \<Rightarrow> addr \<Rightarrow> bool \<Rightarrow> addr \<Rightarrow> addr option outcome option" where
  "check_props_loop st errorstr p name children =
     (let err = bind_run (run_of (check_err errorstr)) (\<lambda>_. ret None) in
      if p = 0 then ret (Some children)
      else
        bind_run (run_of (get_prop st p)) (\<lambda>x.
          case type_of x of
            None \<Rightarrow> if name then err else ret (Some children)
          | Some type \<Rightarrow>
              if \<not> in_bounds st p then err
              else case type of
                CHILDREN \<Rightarrow> if children \<noteq> 0 then err else check_props_loop st errorstr (next_of x) name p
              | NOTIFIER \<Rightarrow> check_props_loop st errorstr (next_of x) name children
              | NAME \<Rightarrow> if name then err else check_props_loop st errorstr (next_of x) True children))"

text \<open>\<open>check_node\<close>, and its loop over the children, which calls it back.\<close>

datatype check_call = Check_node addr addr | Check_children addr addr

partial_function (option) check_work :: "'w tal_state \<Rightarrow> cstr option \<Rightarrow> check_call \<Rightarrow> bool outcome option" where
  "check_work st errorstr call =
     (case call of
        Check_node pc t \<Rightarrow>
          if \<not> in_bounds st t then run_of (check_err errorstr)
          else
            bind_run (run_of (get_hdr st t)) (\<lambda>h.
              if ignore_destroying_bit (parent_child h) \<noteq> pc then run_of (check_err errorstr)
              else
                bind_run (check_props_loop st errorstr (hdr_prop h) False 0) (\<lambda>r.
                  case r of None \<Rightarrow> ret False
                  | Some c \<Rightarrow>
                      if c = 0 then ret True
                      else
                        bind_run (list_check (nodes st) (c + head_off) errorstr) (\<lambda>r.
                          if r = 0 then ret False
                          else bind_run (run_of (get_next (nodes st) (c + head_off))) (\<lambda>i. check_work st errorstr (Check_children c i)))))
      | Check_children c i \<Rightarrow>
          if i = c + head_off then ret True
          else
            bind_run (check_work st errorstr (Check_node c i)) (\<lambda>ok.
              if \<not> ok then ret False
              else bind_run (run_of (get_next (nodes st) i)) (\<lambda>i. check_work st errorstr (Check_children c i))))"

definition tal_check :: "addr \<Rightarrow> cstr option \<Rightarrow> 'w tal_state \<Rightarrow> bool outcome option" where
  "tal_check ctx errorstr st =
     bind_run (run_of (to_tal_hdr_or_null st ctx)) (\<lambda>t.
     bind_run (run_of (get_hdr st t)) (\<lambda>h.
     check_work st errorstr (Check_node (ignore_destroying_bit (parent_child h)) t)))"

section \<open>A context that moves\<close>

text \<open>A node is copied to \<open>n\<close>, and its neighbours are pointed at the copy.\<close>

lemma list_move_list:
  assumes "is_list h lh (us @ old # vs)" and "n \<notin> set (lh # us @ old # vs)" and "h old = Some nd"
  obtains p q h1 h' where "node_next nd = q" and "node_prev nd = p" and "set_next ((h(old := None))(n \<mapsto> nd)) p n = Done h1" and "set_prev h1 q n = Done h'"
    and "is_list h' lh (us @ n # vs)" and "\<And>a. a \<notin> set (lh # n # us @ old # vs) \<Longrightarrow> h' a = h a"
proof -
  define h0 where "h0 = (h(old := None))(n \<mapsto> nd)"
  obtain p q bs cs where g: "last (lh # us) = p" "hd (vs @ [lh]) = q"
      "\<And>h ws. is_list h lh (us @ ws @ vs) \<longleftrightarrow> ring (nexts h) (prevs h) (bs @ p # ws @ q # cs)"
      "set (bs @ p # q # cs) = set (lh # us @ vs)"
    by (rule list_gap [of lh us vs], rule that) assumption+
  have r: "ring (nexts h) (prevs h) (bs @ p # old # q # cs)" using assms(1) g(3) [of h "[old]"] by simp
  note e = heap_edges [OF r] heap_edges [of h "bs @ [p]" old q cs, simplified, OF r]
  have ne: "old \<noteq> p" "old \<noteq> q" "p \<noteq> n" "q \<noteq> n" "old \<noteq> n" "n \<notin> set (bs @ p # q # cs)" "old \<notin> set (bs @ p # q # cs)"
    using is_list_nodes [OF assms(1)] g(4) assms(2) by auto
  have nd: "node_next nd = q" "node_prev nd = p" using e(1,2,5,6) assms(3) by (simp_all add: nexts_def prevs_def)
  have N: "nexts h0 = ((nexts h)(old := None))(n \<mapsto> q)" "prevs h0 = ((prevs h)(old := None))(n \<mapsto> p)"
    using nd by (auto simp: nexts_def prevs_def h0_def fun_eq_iff)
  have dom: "p \<in> dom h0" "q \<in> dom h0" using e(3,8) ne by (auto simp: h0_def)
  define h' where "h' = put_prev q n (put_next p n h0)"
  have mem: "nexts h' = (nexts h0)(p \<mapsto> n)" "prevs h' = (prevs h0)(q \<mapsto> n)" using dom by (simp_all add: h'_def del: domIff)
  have "ring ((nexts h)(n \<mapsto> q, p \<mapsto> n)) ((prevs h)(n \<mapsto> p, q \<mapsto> n)) (bs @ p # n # q # cs)" by (rule ring_replace [OF r ne(6)])
  moreover have "\<forall>a\<in>set (bs @ p # n # q # cs). nexts h' a = ((nexts h)(n \<mapsto> q, p \<mapsto> n)) a \<and> prevs h' a = ((prevs h)(n \<mapsto> p, q \<mapsto> n)) a"
    using ne(5,7) by (auto simp: mem N)
  ultimately have "ring (nexts h') (prevs h') (bs @ p # [n] @ q # cs)"
    using ring_cong [of "bs @ p # n # q # cs" "nexts h'" "(nexts h)(n \<mapsto> q, p \<mapsto> n)" "prevs h'" "(prevs h)(n \<mapsto> p, q \<mapsto> n)"] by simp
  then have lst: "is_list h' lh (us @ n # vs)" using g(3) [of h' "[n]"] by simp
  have pq: "p \<in> set (lh # us @ vs)" "q \<in> set (lh # us @ vs)" using g(4) by auto
  have "h' a = h a" if "a \<notin> set (lh # n # us @ old # vs)" for a
  proof -
    have "a \<noteq> p" "a \<noteq> q" "a \<noteq> old" "a \<noteq> n" using that pq by auto
    then show ?thesis by (simp add: h'_def h0_def)
  qed
  moreover have "set_next h0 p n = Done (put_next p n h0)" "set_prev (put_next p n h0) q n = Done h'"
    using dom by (simp_all add: heap_steps h'_def del: domIff)
  ultimately show thesis using that [OF nd _ _ lst] by (simp add: h0_def)
qed

text \<open>Only the members of a header that the tree depends on matter.\<close>

lemma rep_header:
  assumes "rep st W" and "hdrs st t = Some h" and "hdr_prop h' = hdr_prop h" and "parent_child h' = parent_child h"
  shows "rep (st\<lparr>hdrs := (hdrs st)(t \<mapsto> h')\<rparr>) W"
  using assms(1)
proof (induction W)
  case (Alloc t' ps c ts)
  define st' where "st' = st\<lparr>hdrs := (hdrs st)(t \<mapsto> h')\<rparr>"
  have "list_all id (map (rep st') ts)" using Alloc unfolding st'_def by (simp add: list_all_iff del: fun_upd_apply)
  moreover have same: "\<exists>g. hdrs st' a = Some g \<and> hdr_prop g = hdr_prop k \<and> parent_child g = parent_child k" if "hdrs st a = Some k" for a k
    using that assms(2-4) by (auto simp: st'_def)
  moreover have "\<exists>g. hdrs st' t' = Some g \<and> prop_chain (props st) (hdr_prop g) ps \<and> \<not> get_destroying_bit (parent_child g)"
    using Alloc.prems same [of t'] by auto
  moreover have "\<exists>g. hdrs st' (hdr_at x) = Some g \<and> parent_child g = c XOR TAL_PTR_OBFUSTICATOR" if x: "x \<in> set ts" for x
  proof -
    obtain k where k: "hdrs st (hdr_at x) = Some k" "parent_child k = c XOR TAL_PTR_OBFUSTICATOR" using Alloc.prems x by auto
    from same [OF k(1)] k(2) show ?thesis by auto
  qed
  moreover have "props st' = props st" "nodes st' = nodes st" by (simp_all add: st'_def)
  ultimately show ?case using Alloc.prems unfolding st'_def [symmetric] by simp
qed

section \<open>Resizing a child\<close>

lemma agreesI:
  "(\<And>a. a \<in> set (hdr_addrs T) \<Longrightarrow> hdrs st' a = hdrs st a) \<Longrightarrow> (\<And>q. q \<in> set (prop_addrs T) \<Longrightarrow> props st' q = props st q) \<Longrightarrow>
     (\<And>a. a \<in> set (tl (node_addrs T)) \<Longrightarrow> nodes st' a = nodes st a) \<Longrightarrow>
     (\<And>q s. props st q = Some (Literal s) \<Longrightarrow> props st' q = Some (Literal s)) \<Longrightarrow> agrees T st st'"
  by (simp add: agrees_def)

text \<open>What moving does to the tree of the child itself: the header is elsewhere, and the property of
  children names it.\<close>

lemma moved_tree_rep:
  fixes st st' :: "'w tal_state"
  assumes "rep st (Alloc t qs d ts)" and "separated (Alloc t qs d ts)" and "r \<notin> set (hdr_addrs (Alloc t qs d ts))"
    and "hdrs st' r = Some h'" and "hdrs st t = Some h" and "hdr_prop h' = hdr_prop h" and "parent_child h' = parent_child h"
    and "\<And>a. a \<notin> {t, r} \<Longrightarrow> hdrs st' a = hdrs st a" and "\<And>a. a \<in> set (tl (node_addrs (Alloc t qs d ts))) \<Longrightarrow> nodes st' a = nodes st a"
    and "props st' = (if d = 0 then props st else (props st)(d \<mapsto> Children (next_of (the (props st d))) r))"
  shows "rep st' (Alloc r qs d ts)"
proof -
  note sep = separated_kids [OF assms(2)]
  have ok: "props_ok (props st) t qs d" and ch: "prop_chain (props st) (hdr_prop h) qs" "\<not> get_destroying_bit (parent_child h)"
    using assms(1,5) by auto
  have d: "d \<noteq> 0 \<Longrightarrow> d \<in> set qs" "d \<noteq> 0 \<Longrightarrow> \<exists>n. props st d = Some (Children n t)" using ok by (auto simp: props_ok_def only_children_def)
  have types: "map_option type_of (props st' q) = map_option type_of (props st q)" for q using d(2) by (auto simp: assms(10))
  have other: "q \<noteq> d \<Longrightarrow> props st' q = props st q" for q by (simp add: assms(10))
  have kids: "agrees y st st'" if y: "y \<in> set ts" for y
  proof -
    have "hdrs st' a = hdrs st a" if "a \<in> set (hdr_addrs y)" for a
    proof -
      have "a \<noteq> t" "a \<noteq> r" using sep(4) assms(3) y that by auto
      then show ?thesis using assms(8) by simp
    qed
    moreover have "props st' q = props st q" if "q \<in> set (prop_addrs y)" for q
    proof -
      have "q \<noteq> d" if "d \<noteq> 0" using sep(5) d(1) y \<open>q \<in> set (prop_addrs y)\<close> that by auto
      then show ?thesis by (auto simp: assms(10))
    qed
    moreover have "nodes st' a = nodes st a" if "a \<in> set (tl (node_addrs y))" for a
      using assms(9) y in_tl [OF that] by auto
    moreover have "props st' p = Some (Literal s)" if "props st p = Some (Literal s)" for p s
      using that d(2) by (cases "d = 0") (auto simp: assms(10))
    ultimately show ?thesis by (auto simp: agrees_def)
  qed
  have "prop_chain (props st') q ps" if "prop_chain (props st) q ps" for q ps
    using that
  proof (induction "props st" q ps rule: prop_chain.induct)
    case (1 q)
    then show ?case using d(2) by (cases "d = 0") (auto simp: assms(10))
  next
    case (2 p q qs)
    have "\<exists>x'. props st' q = Some x' \<and> type_of x' = type_of x \<and> next_of x' = next_of x" if "props st q = Some x" for x
      using that d(2) by (cases "d = 0") (auto simp: assms(10))
    then show ?case using 2 by fastforce
  qed
  moreover have "props_ok (props st') r qs d"
  proof -
    have "only_children (props st') qs d"
      by (rule only_children_cong [of "props st"]) (use ok types in \<open>simp_all add: props_ok_def is_children_iff\<close>)
    moreover have "fn \<noteq> 0" if "q \<in> set qs" "props st' q = Some (Notifier n types fn arg)" for q n types fn arg
      using ok that d(2) by (auto simp: assms(10) props_ok_def split: if_splits)
    ultimately show ?thesis using d(2) by (cases "d = 0") (auto simp: props_ok_def assms(10))
  qed
  moreover have "if d = 0 then ts = [] else proper_list (nodes st') (d + head_off) (map hdr_at ts)"
  proof (cases "d = 0")
    case False
    have "\<forall>a\<in>set ((d + head_off) # map hdr_at ts). nodes st' a = nodes st a" using assms(9) False roots_in_nodes by auto
    from is_list_cong [OF this] show ?thesis using assms(1) False by (simp add: proper_list_def)
  qed (use assms(1) in simp)
  moreover have "list_all id (map (rep st') ts)" using assms(1) kids rep_agrees [of st _ st'] by (auto simp: list_all_iff)
  moreover have "hdrs st' (hdr_at y) = hdrs st (hdr_at y)" if "y \<in> set ts" for y
  proof -
    have "hdr_at y \<noteq> t" "hdr_at y \<noteq> r" using sep(4) assms(3) that hdr_at_in(1) [of y] by auto
    then show ?thesis using assms(8) by simp
  qed
  ultimately show ?thesis using assms(1,4,6,7) ch by simp
qed

text \<open>The first half of \<open>tal_resize_\<close>: the block, its new bytes and its new length.\<close>

definition resized :: "addr \<Rightarrow> addr \<Rightarrow> u64 \<Rightarrow> bool \<Rightarrow> tal_hdr \<Rightarrow> list_node \<Rightarrow> u8 option list \<Rightarrow> addr list \<Rightarrow> 'w tal_state \<Rightarrow> 'w tal_state" where
  "resized t r n clear h nd bs ms st =
     update_bounds r (hdr_size + n) (st\<lparr>mallocs := ms, hdrs := ((hdrs st)(t := None))(r \<mapsto> h\<lparr>bytelen := n\<rparr>),
       nodes := ((nodes st)(t := None))(r \<mapsto> nd),
       payload := ((payload st)(t := None))(r \<mapsto> take (unat n) bs @ replicate (unat n - length bs) (if clear then Some 0 else None))\<rparr>)"

lemma resized_fields [simp]:
  "mallocs (resized t r n clear h nd bs ms st) = ms" "hdrs (resized t r n clear h nd bs ms st) = ((hdrs st)(t := None))(r \<mapsto> h\<lparr>bytelen := n\<rparr>)"
  "nodes (resized t r n clear h nd bs ms st) = ((nodes st)(t := None))(r \<mapsto> nd)" "props (resized t r n clear h nd bs ms st) = props st"
  "payload (resized t r n clear h nd bs ms st) = ((payload st)(t := None))(r \<mapsto> take (unat n) bs @ replicate (unat n - length bs) (if clear then Some 0 else None))"
  "notifiers (resized t r n clear h nd bs ms st) = notifiers st" "null_parent (resized t r n clear h nd bs ms st) = null_parent st"
  "takes (resized t r n clear h nd bs ms st) = takes st" "world (resized t r n clear h nd bs ms st) = world st"
  by (simp_all add: resized_def)

lemma tal_resize_steps:
  assumes "to_tal_hdr st ctx = Done t" and "adjust_size sz count = Done n" and "mallocs st = r # ms" and "r \<noteq> 0"
    and "hdrs st t = Some h" and "nodes st t = Some nd" and "payload st t = Some bs" and "length bs = unat (bytelen h)"
  shows "tal_resize cb env ctx sz count clear st =
    bind_run
      (if r \<noteq> t then
         bind_run (run_of (fix_links r (resized t r n clear h nd bs ms st))) (\<lambda>st.
         bind_run (run_of (copy_take env t r st)) (\<lambda>st.
         bind_run (fix_child_parent t r st) (\<lambda>st.
         bind_run (notify_any cb r TAL_NOTIFY_MOVE (from_tal_hdr t) st) (\<lambda>st.
         ret (from_tal_hdr r, st)))))
       else ret (ctx, resized t r n clear h nd bs ms st))
      (\<lambda>(ctx, st). bind_run (notify_any cb r TAL_NOTIFY_RESIZE n st) (\<lambda>st. ret (True, ctx, st)))"
proof -
  define st1 where "st1 = st\<lparr>mallocs := ms, hdrs := ((hdrs st)(t := None))(r \<mapsto> h), nodes := ((nodes st)(t := None))(r \<mapsto> nd),
    payload := ((payload st)(t := None))(r \<mapsto> take (unat n) bs @ replicate (unat n - length bs) None)\<rparr>"
  define st2 where "st2 = st1\<lparr>payload := ((payload st)(t := None))(r \<mapsto> take (unat n) bs @ replicate (unat n - length bs) (if clear then Some 0 else None))\<rparr>"
  have 1: "reallocate t (hdr_size + n) st = Done (r, st1)"
    using assms(3-7) by (simp add: reallocate_def st1_def)
  have 2: "(if clear \<and> bytelen h < n then run_of (clear_tail r (bytelen h) n st1) else ret st1) = ret st2"
  proof (cases "clear \<and> bytelen h < n")
    case True
    then have "unat (bytelen h) < unat n" by (simp add: word_less_nat_alt)
    then show ?thesis using True assms(8) by (simp add: clear_tail_def st1_def st2_def)
  next
    case False
    then have "\<not> clear \<or> unat n \<le> unat (bytelen h)" by (simp add: word_less_nat_alt not_less)
    then show ?thesis using False assms(8) by (auto simp: st1_def st2_def)
  qed
  have 3: "upd_hdr st2 r (\<lambda>h. h\<lparr>bytelen := n\<rparr>) = Done (st2\<lparr>hdrs := (hdrs st1)(r \<mapsto> h\<lparr>bytelen := n\<rparr>)\<rparr>)"
    by (simp add: upd_hdr_def st2_def st1_def)
  have 4: "update_bounds r (hdr_size + n) (st2\<lparr>hdrs := (hdrs st1)(r \<mapsto> h\<lparr>bytelen := n\<rparr>)\<rparr>) = resized t r n clear h nd bs ms st"
    unfolding resized_def by (rule arg_cong [of _ _ "update_bounds r (hdr_size + n)"], rule tal_state.equality) (simp_all add: st2_def st1_def)
  have "get_hdr st1 r = Done h" by (simp add: get_hdr_def st1_def)
  then show ?thesis by (simp add: tal_resize_def assms(1,2) 1 2 3 4 Let_def cong: if_cong)
qed

text \<open>The second half, when the block has moved.\<close>

lemma moved_child_rep:
  fixes st :: "'w tal_state"
  assumes "rep st (Alloc p ps c (us @ Alloc t qs d ts # vs))" and "separated (Alloc p ps c (us @ Alloc t qs d ts # vs))"
    and "r \<notin> set (node_addrs (Alloc p ps c (us @ Alloc t qs d ts # vs)))" and "hdrs st t = Some h" and "nodes st t = Some nd"
    and "from_tal_hdr t \<noteq> 0" and "from_tal_hdr t \<notin> set (pending (takes st))" and "r \<noteq> 0"
  obtains st1 st2 st3 where "fix_links r (resized t r n clear h nd bs ms st) = Done st1" and "copy_take env t r st1 = Done st2" and "fix_child_parent t r st2 = ret st3"
    and "rep st3 (Alloc p ps c (us @ Alloc r qs d ts # vs))" and "hdrs st3 = hdrs (resized t r n clear h nd bs ms st)"
    and "payload st3 = payload (resized t r n clear h nd bs ms st)" and "notifiers st3 = notifiers st" and "world st3 = world st"
    and "takes st3 = takes st" and "null_parent st3 = null_parent st" and "bounds_of st3 = bounds_of (resized t r n clear h nd bs ms st)"
    and "\<And>a. a \<notin> set ((c + head_off) # r # map hdr_at us @ t # map hdr_at vs) \<Longrightarrow> nodes st3 a = nodes st a"
    and "\<And>q. q \<notin> set qs \<Longrightarrow> props st3 q = props st q" and "\<And>q s. props st q = Some (Literal s) \<Longrightarrow> props st3 q = Some (Literal s)"
    and "mallocs st3 = ms"
proof -
  let ?T = "Alloc t qs d ts" and ?T' = "Alloc r qs d ts"
  define st0 where "st0 = resized t r n clear h nd bs ms st"
  note f0 = resized_fields [of t r n clear h nd bs ms st, folded st0_def]
  note sep = separated_kids [OF assms(2)]
  have c: "c \<noteq> 0" using assms(1) by (auto split: if_splits)
  have T: "rep st ?T" "separated ?T" using assms(1,2) by (auto simp: separated_def)
  have r: "r \<noteq> t" "r \<noteq> p" "r \<notin> set (hdr_addrs ?T)" "r \<notin> set ((c + head_off) # map hdr_at us @ t # map hdr_at vs)"
      "\<And>y. y \<in> set us \<union> set vs \<Longrightarrow> r \<notin> set (hdr_addrs y)"
    using assms(3) hdr_addrs_node_addrs c hdr_at_in(2) by fastforce+
  have lst: "is_list (nodes st) (c + head_off) (map hdr_at us @ t # map hdr_at vs)" using assms(1) c by (simp add: proper_list_def)
  obtain p' q' h1 h' where L: "node_next nd = q'" "node_prev nd = p'" "set_next (((nodes st)(t := None))(r \<mapsto> nd)) p' r = Done h1" "set_prev h1 q' r = Done h'"
      "is_list h' (c + head_off) (map hdr_at us @ r # map hdr_at vs)" "\<And>a. a \<notin> set ((c + head_off) # r # map hdr_at us @ t # map hdr_at vs) \<Longrightarrow> h' a = nodes st a"
    by (rule list_move_list [OF lst r(4) assms(5)], rule that) assumption+
  define st1 where "st1 = st0\<lparr>nodes := h'\<rparr>"
  have links: "fix_links r st0 = Done st1"
    using L(1-4) by (simp add: fix_links_def get_next_def get_prev_def f0 on_nodes_def st1_def)
  have take: "copy_take env t r st1 = Done st1"
    using assms(6,7) by (simp add: copy_take_def taken_def find_taken_def find_taken_loop_iff pending_def st1_def f0 Let_def)
  define st3 where "st3 = st1\<lparr>props := (if d = 0 then props st else (props st)(d \<mapsto> Children (next_of (the (props st d))) r))\<rparr>"
  have ok: "props_ok (props st) t qs d" and ch: "prop_chain (props st) (hdr_prop h) qs" using T(1) assms(4) by auto
  have d: "d \<noteq> 0 \<Longrightarrow> \<exists>m. props st d = Some (Children m t)" "d \<noteq> 0 \<Longrightarrow> d \<in> set qs" using ok by (auto simp: props_ok_def only_children_def)
  have "find_property st1 r CHILDREN = ret d"
    by (rule find_children [of st1 r "h\<lparr>bytelen := n\<rparr>" qs d]) (use ch ok in \<open>simp_all add: st1_def f0 props_ok_def\<close>)
  then have fix_c: "fix_child_parent t r st1 = ret st3"
  proof (cases "d = 0")
    case True
    then have "st3 = st1" by (simp add: st3_def st1_def) (rule tal_state.equality, simp_all add: f0)
    then show ?thesis using True \<open>find_property st1 r CHILDREN = ret d\<close> by (simp add: fix_child_parent_def)
  next
    case False
    then show ?thesis using d(1) \<open>find_property st1 r CHILDREN = ret d\<close> by (auto simp: fix_child_parent_def get_prop_def st1_def f0 st3_def)
  qed
  have hd3: "hdrs st3 a = hdrs st a" if "a \<notin> {t, r}" for a using that by (simp add: st3_def st1_def f0)
  have pr3: "props st3 q = props st q" if "q \<noteq> d" for q using that by (simp add: st3_def)
  have lit3: "props st3 q = Some (Literal s)" if "props st q = Some (Literal s)" for q s using that d(1) by (cases "d = 0") (auto simp: st3_def)
  have inner: "nodes st3 a = nodes st a" if y: "y \<in> set (us @ ?T # vs)" and a: "a \<in> set (tl (node_addrs y))" for y a
  proof -
    have "a \<notin> set ((c + head_off) # map hdr_at (us @ ?T # vs))"
      using inner_not_root [of "us @ ?T # vs" y a] sep(1) [OF c] y a in_tl [OF a] by auto
    moreover have "a \<noteq> r" using assms(3) y in_tl [OF a] by auto
    ultimately show ?thesis using L(6) [of a] by (simp add: st3_def st1_def)
  qed
  have "rep st3 ?T'"
  proof (rule moved_tree_rep [OF T r(3) _ assms(4)])
    show "hdrs st3 r = Some (h\<lparr>bytelen := n\<rparr>)" by (simp add: st3_def st1_def f0)
    show "nodes st3 a = nodes st a" if "a \<in> set (tl (node_addrs ?T))" for a by (rule inner [OF _ that]) simp
    show "props st3 = (if d = 0 then props st else (props st)(d \<mapsto> Children (next_of (the (props st d))) r))" by (simp add: st3_def)
  qed (use hd3 in simp_all)
  moreover have "rep st3 y" if y: "y \<in> set us \<union> set vs" for y
  proof (rule rep_agrees)
    show "rep st y" using assms(1) y by (auto simp: list_all_iff)
    show "agrees y st st3"
    proof (rule agreesI)
      fix a assume "a \<in> set (hdr_addrs y)"
      then have "a \<notin> {t, r}" using sep(2) y r(5) [OF y] by auto
      then show "hdrs st3 a = hdrs st a" by (rule hd3)
    next
      fix q assume "q \<in> set (prop_addrs y)"
      then have "q \<noteq> d" if "d \<noteq> 0" using sep(3) d(2) [OF that] y by auto
      then show "props st3 q = props st q" by (cases "d = 0") (simp_all add: st3_def)
    qed (use inner [of y] y lit3 in auto)
  qed
  moreover have "hdrs st3 (hdr_at y) = hdrs st (hdr_at y)" if y: "y \<in> set us \<union> set vs" for y
    using sep(2) y hdr_at_in(1) [of y] r(5) [OF y] by (intro hd3) auto
  moreover have "hdrs st3 p = hdrs st p" using sep(4) r(2) by (intro hd3) auto
  moreover have "\<forall>q\<in>set ps. props st3 q = props st q"
  proof
    fix q assume "q \<in> set ps"
    then have "q \<noteq> d" if "d \<noteq> 0" using sep(5) d(2) [OF that] by auto
    then show "props st3 q = props st q" by (cases "d = 0") (simp_all add: st3_def)
  qed
  moreover have "proper_list (nodes st3) (c + head_off) (map hdr_at (us @ ?T' # vs))"
    using L(5) assms(1,8) c by (simp add: proper_list_def st3_def st1_def)
  moreover have "\<exists>g. hdrs st3 r = Some g \<and> parent_child g = c XOR TAL_PTR_OBFUSTICATOR"
    using assms(1,4) by (auto simp: st3_def st1_def f0)
  ultimately have "rep st3 (Alloc p ps c (us @ ?T' # vs))"
    using assms(1) c lit3 by (intro rep_kids [OF assms(1)]) auto
  moreover have "props st3 q = props st q" if "q \<notin> set qs" for q using that d(2) by (cases "d = 0") (auto simp: st3_def)
  moreover have "nodes st3 a = nodes st a" if "a \<notin> set ((c + head_off) # r # map hdr_at us @ t # map hdr_at vs)" for a
    using L(6) [OF that] by (simp add: st3_def st1_def)
  moreover have "bounds_of st3 = bounds_of st0" by (simp add: st3_def st1_def)
  ultimately show thesis using that [of st1 st1 st3] links take fix_c lit3 by (simp add: st0_def [symmetric] st3_def st1_def f0 del: rep.simps)
qed

lemma resize_child_rep:
  assumes "rep st (Alloc p ps c (us @ Alloc t qs d ts # vs))" and "separated (Alloc p ps c (us @ Alloc t qs d ts # vs))"
    and "to_tal_hdr st ctx = Done t" and "adjust_size sz count = Done n" and "mallocs st = r # ms" and "r \<noteq> 0"
    and "r = t \<or> r \<notin> set (node_addrs (Alloc p ps c (us @ Alloc t qs d ts # vs)))"
    and "hdrs st t = Some h" and "payload st t = Some bs" and "length bs = unat (bytelen h)"
    and "untaken st (Alloc t qs d ts)" and "notifiers st = 0"
  obtains st' where "tal_resize cb env ctx sz count clear st = ret (True, from_tal_hdr r, st')" and "rep st' (Alloc p ps c (us @ Alloc r qs d ts # vs))"
    and "hdrs st' = ((hdrs st)(t := None))(r \<mapsto> h\<lparr>bytelen := n\<rparr>)"
    and "payload st' = ((payload st)(t := None))(r \<mapsto> take (unat n) bs @ replicate (unat n - length bs) (if clear then Some 0 else None))"
    and "notifiers st' = 0" and "world st' = world st" and "takes st' = takes st" and "null_parent st' = null_parent st"
    and "bounds_of st' = bounds_of (update_bounds r (hdr_size + n) st)"
    and "\<And>a. a \<notin> set ((c + head_off) # r # map hdr_at us @ t # map hdr_at vs) \<Longrightarrow> nodes st' a = nodes st a"
    and "\<And>q. q \<notin> set qs \<Longrightarrow> props st' q = props st q" and "\<And>q s. props st q = Some (Literal s) \<Longrightarrow> props st' q = Some (Literal s)"
    and "mallocs st' = ms"
proof -
  let ?P = "Alloc p ps c (us @ Alloc t qs d ts # vs)"
  have c: "c \<noteq> 0" using assms(1) by (auto split: if_splits)
  have "is_list (nodes st) (c + head_off) (map hdr_at us @ t # map hdr_at vs)" using assms(1) c by (simp add: proper_list_def)
  then obtain nd where nd: "nodes st t = Some nd" using is_list_ends(3) by fastforce
  have ctx: "ctx = from_tal_hdr t" using assms(3) by (auto simp: to_tal_hdr_def from_tal_hdr_def Let_def bind_outcome_Done_iff)
  define st0 where "st0 = resized t r n clear h nd bs ms st"
  note steps = tal_resize_steps [OF assms(3-6,8) nd assms(9,10), of cb env clear, folded st0_def]
  have none: "from_tal_hdr t \<noteq> 0" "from_tal_hdr t \<notin> set (pending (takes st))" using assms(11) by (simp_all add: untaken_def)
  have bounds: "bounds_of st0 = bounds_of (update_bounds r (hdr_size + n) st)"
    unfolding st0_def resized_def by (rule bounds_of_update_bounds) (simp add: bounds_of_def)
  show thesis
  proof (cases "r = t")
    case True
    have "hdrs st0 = (hdrs st)(t \<mapsto> h\<lparr>bytelen := n\<rparr>)" "nodes st0 = nodes st" using nd by (auto simp: st0_def True)
    then have "agrees ?P (st\<lparr>hdrs := (hdrs st)(t \<mapsto> h\<lparr>bytelen := n\<rparr>)\<rparr>) st0" by (simp add: agrees_def st0_def)
    moreover have "rep (st\<lparr>hdrs := (hdrs st)(t \<mapsto> h\<lparr>bytelen := n\<rparr>)\<rparr>) ?P" by (rule rep_header [OF assms(1,8)]) simp_all
    ultimately have "rep st0 ?P" using rep_agrees by blast
    moreover have "tal_resize cb env ctx sz count clear st = ret (True, from_tal_hdr r, st0)"
      unfolding steps using True assms(12) ctx by (simp add: notify_any_def st0_def)
    ultimately show thesis using True bounds assms(12) \<open>nodes st0 = nodes st\<close> by (intro that [of st0]) (simp_all add: st0_def del: rep.simps)
  next
    case False
    then have fresh: "r \<notin> set (node_addrs ?P)" using assms(7) by simp
    obtain st1 st2 st3 where "fix_links r st0 = Done st1" "copy_take env t r st1 = Done st2" "fix_child_parent t r st2 = ret st3"
        "rep st3 (Alloc p ps c (us @ Alloc r qs d ts # vs))" "hdrs st3 = hdrs st0" "payload st3 = payload st0" "notifiers st3 = notifiers st" "world st3 = world st"
        "takes st3 = takes st" "null_parent st3 = null_parent st" "bounds_of st3 = bounds_of st0"
        "\<And>a. a \<notin> set ((c + head_off) # r # map hdr_at us @ t # map hdr_at vs) \<Longrightarrow> nodes st3 a = nodes st a"
        "\<And>q. q \<notin> set qs \<Longrightarrow> props st3 q = props st q" "\<And>q s. props st q = Some (Literal s) \<Longrightarrow> props st3 q = Some (Literal s)"
        "mallocs st3 = ms"
      by (rule moved_child_rep [OF assms(1,2) fresh assms(8) nd none assms(6), of n clear bs ms env, folded st0_def], rule that) assumption+
    then show thesis using False assms(12) bounds
      by (intro that [of st3]) (simp_all add: steps notify_any_def st0_def del: rep.simps)
  qed
qed

text \<open>C13. Resizing a child to an array of \<open>count\<close> elements, whether the block moves or not: the new pointer
  has the bytes of the old one up to the smaller size, the others zeroed if asked for, and its length;
  the tree of the parent is as before but for the address, with the properties and children of the
  context; and nothing is left at the old address.  No notifier is installed (\<open>notifiers st = 0\<close>), and
  neither the context nor anything below it has been given to \<open>take\<close> (\<open>untaken\<close>).\<close>

theorem tal_resize_child:
  assumes "rep st (Alloc p ps c (us @ Alloc t qs d ts # vs))" and "separated (Alloc p ps c (us @ Alloc t qs d ts # vs))"
    and "to_tal_hdr st ctx = Done t" and "adjust_size sz count = Done n" and "mallocs st = r # ms" and "r \<noteq> 0"
    and "r = t \<or> r \<notin> set (node_addrs (Alloc p ps c (us @ Alloc t qs d ts # vs)))"
    and "hdrs st t = Some h" and "payload st t = Some bs" and "length bs = unat (bytelen h)"
    and "untaken st (Alloc t qs d ts)" and "notifiers st = 0"
  shows "\<exists>st'. tal_resize cb env ctx sz count clear st = ret (True, from_tal_hdr r, st') \<and>
    rep st' (Alloc p ps c (us @ Alloc r qs d ts # vs)) \<and> map_option bytelen (hdrs st' r) = Some n \<and>
    payload st' r = Some (take (unat n) bs @ replicate (unat n - length bs) (if clear then Some 0 else None)) \<and>
    (r \<noteq> t \<longrightarrow> hdrs st' t = None \<and> payload st' t = None) \<and> world st' = world st"
proof -
  obtain st' where "tal_resize cb env ctx sz count clear st = ret (True, from_tal_hdr r, st')" "rep st' (Alloc p ps c (us @ Alloc r qs d ts # vs))"
      "hdrs st' = ((hdrs st)(t := None))(r \<mapsto> h\<lparr>bytelen := n\<rparr>)" "world st' = world st"
      "payload st' = ((payload st)(t := None))(r \<mapsto> take (unat n) bs @ replicate (unat n - length bs) (if clear then Some 0 else None))"
    by (rule resize_child_rep [OF assms, of cb env clear], rule that) assumption+
  then show ?thesis by (intro exI [of _ st']) (simp del: rep.simps)
qed

definition example_env :: take_env where
  "example_env = ((\<lambda>_ _ tk. tk), \<lparr>calloc_ok = True, taken_ok = True, label_ok = True\<rparr>)"

lemma tal_resize_child_witness:
  "\<exists>st'. tal_resize example_callback example_env 3040 2 2 True example_tree = ret (True, 4540, st') \<and>
     rep st' (Alloc 1000 [1040] 1040 [Alloc 4500 [4000] 0 []]) \<and> map_option bytelen (hdrs st' 4500) = Some 4 \<and>
     payload st' 4500 = Some [None, Some 5, Some 0, Some 0] \<and> hdrs st' 3000 = None"
proof -
  have "adjust_size 2 2 = Done 4" by (simp add: adjust_size_def hdr_size_def)
  moreover have "from_tal_hdr 4500 = 4540" by (simp add: from_tal_hdr_def hdr_size_def)
  moreover have "mallocs example_tree = [4500, 4700]" "hdrs example_tree 3000 = Some \<lparr>hdr_prop = 4000, parent_child = 1040 XOR TAL_PTR_OBFUSTICATOR, bytelen = 2\<rparr>"
      "payload example_tree 3000 = Some [None, Some 5]" "notifiers example_tree = 0"
    by (simp_all add: example_tree_def)
  moreover have "(4500::addr) \<notin> set (node_addrs example_alloc)" "replicate (unat (4::u64) - length [None, Some (5::u8)]) (Some (0::u8)) = [Some 0, Some 0]"
    by (simp_all add: head_off_def) (simp add: numeral_eq_Suc)
  ultimately show ?thesis
    using tal_resize_child [of example_tree 1000 "[1040]" 1040 "[]" 3000 "[4000]" 0 "[]" "[]" 3040 2 2 4 4500 "[4700]"
        "\<lparr>hdr_prop = 4000, parent_child = 1040 XOR TAL_PTR_OBFUSTICATOR, bytelen = 2\<rparr>" "[None, Some 5]" example_callback example_env True]
      example_rep example_separated example_untaken example_hdr(1)
    by (auto simp del: rep.simps node_addrs.simps)
qed

end
