(* ===== verification/Tal_History.thy ===== *)
theory Tal_History
  imports Tal_Context Tal_Resize
begin

text \<open>
  Sequences of calls of \<open>tal.c\<close>: allocating, freeing, stealing, resizing and adding destructors on live
  contexts, from the state a program starts in.  The memory stays in order, and every such call returns.
\<close>

section \<open>The bounds\<close>

definition bounds_ok :: "'w tal_state \<Rightarrow> bool" where
  "bounds_ok st \<longleftrightarrow> (if bounds_start st = 0 then bounds_end st = 0 else unat (bounds_start st) + 24 \<le> unat (bounds_end st))"

lemma unat_plus_small: "unat (a::u64) + n < 2 ^ 64 \<Longrightarrow> unat (a + word_of_nat n) = unat a + n"
  by (simp add: unat_word_ariths unat_of_nat)

lemma in_bounds_cong: "bounds_of st' = bounds_of st \<Longrightarrow> null_parent st' = null_parent st \<Longrightarrow> in_bounds st' a = in_bounds st a"
  by (simp add: in_bounds_def bounds_of_def)

lemma bounds_ok_cong: "bounds_of st' = bounds_of st \<Longrightarrow> bounds_ok st' = bounds_ok st"
  by (simp add: bounds_ok_def bounds_of_def)

lemma update_bounds_grow:
  assumes "bounds_ok st" and "r \<noteq> 0" and "unat r + unat sz < 2 ^ 64" and "24 \<le> unat sz"
  shows "bounds_ok (update_bounds r sz st)" and "in_bounds st a \<Longrightarrow> in_bounds (update_bounds r sz st) a"
    and "in_bounds (update_bounds r sz st) r" and "in_bounds (update_bounds r sz st) (r + 24)"
proof -
  have sum: "unat (r + sz) = unat r + unat sz" using unat_plus_small [of r "unat sz"] assms(3) by simp
  have sum24: "unat (r + 24) = unat r + 24" using unat_plus_small [of r 24] assms(3,4) by simp
  have z: "unat (bounds_start st) = 0 \<longleftrightarrow> bounds_start st = 0" "unat (bounds_end st) = 0 \<longleftrightarrow> bounds_end st = 0" "unat a = 0 \<longleftrightarrow> a = 0" by (simp_all add: unat_eq_0)
  show "bounds_ok (update_bounds r sz st)"
    using assms sum z by (auto simp: bounds_ok_def update_bounds_def word_less_nat_alt split: if_splits)
  show "in_bounds (update_bounds r sz st) a" if "in_bounds st a"
    using that assms sum z by (auto simp: bounds_ok_def update_bounds_def in_bounds_def word_less_nat_alt word_le_nat_alt split: if_splits)
  show "in_bounds (update_bounds r sz st) r"
    using assms sum z by (auto simp: bounds_ok_def update_bounds_def in_bounds_def word_less_nat_alt word_le_nat_alt split: if_splits)
  show "in_bounds (update_bounds r sz st) (r + 24)"
    using assms sum sum24 z by (auto simp: bounds_ok_def update_bounds_def in_bounds_def word_less_nat_alt word_le_nat_alt split: if_splits)
qed

section \<open>Memory in order\<close>

text \<open>The null parent has no bytes behind it; every other context has as many as its header says.\<close>

definition sized :: "'w tal_state \<Rightarrow> addr \<Rightarrow> bool" where
  "sized st t \<longleftrightarrow> t = null_parent st \<or> (\<exists>n bs. map_option bytelen (hdrs st t) = Some n \<and> payload st t = Some bs \<and> length bs = unat n)"

lemma sized_cong:
  "sized st t \<Longrightarrow> null_parent st' = null_parent st \<Longrightarrow> map_option bytelen (hdrs st' t) = map_option bytelen (hdrs st t) \<Longrightarrow>
     payload st' t = payload st t \<Longrightarrow> sized st' t"
  by (simp add: sized_def)

definition in_order :: "'w tal_state \<Rightarrow> alloc \<Rightarrow> bool" where
  "in_order st W \<longleftrightarrow> rep st W \<and> separated W \<and> hdr_at W = null_parent st \<and> (\<forall>P\<in>set (subtrees W). even (children_at P)) \<and>
     bounds_ok st \<and> (\<forall>a\<in>set (prop_addrs W) \<union> set (node_addrs W). in_bounds st a) \<and>
     (\<forall>t\<in>set (hdr_addrs W). t \<noteq> 0 \<and> from_tal_hdr t \<noteq> 0) \<and> (\<forall>t\<in>set (hdr_addrs W). sized st t) \<and> 0 \<notin> set (node_addrs W) \<and>
     notifiers st = 0 \<and> pending (takes st) = []"

text \<open>The checks of \<open>to_tal_hdr\<close> hold for every context in the tree.\<close>

lemma live_hdr:
  assumes "in_order st W" and "Alloc p ps c ts \<in> set (subtrees W)" and "T \<in> set ts"
  shows "to_tal_hdr st (from_tal_hdr (hdr_at T)) = Done (hdr_at T)"
proof -
  define t where "t = hdr_at T"
  have W: "rep st W" "separated W" "\<And>a. a \<in> set (prop_addrs W) \<union> set (node_addrs W) \<Longrightarrow> in_bounds st a"
    using assms(1) by (auto simp: in_order_def)
  have P: "rep st (Alloc p ps c ts)" by (rule subtrees_rep [OF W(1) assms(2)])
  have c: "c \<noteq> 0" "even c" using P assms by (auto simp: in_order_def split: if_splits)
  have in_P: "set (prop_addrs (Alloc p ps c ts)) \<subseteq> set (prop_addrs W)" "set (node_addrs (Alloc p ps c ts)) \<subseteq> set (node_addrs W)"
    using subtrees_addrs [OF assms(2)] by blast+
  have lst: "is_list (nodes st) (c + head_off) (map hdr_at ts)" using P c by (simp add: proper_list_def)
  obtain us vs where ts: "ts = us @ T # vs" using assms(3) by (meson split_list)
  have step: "get_next (nodes st) t = Done (hd (map hdr_at vs @ [c + head_off]))" "get_prev (nodes st) t = Done (last ((c + head_off) # map hdr_at us))"
    using list_step_list [of "nodes st" "c + head_off" "map hdr_at us" t "map hdr_at vs"] lst ts by (simp_all add: t_def)
  have roots: "in_bounds st a" if "a \<in> set ((c + head_off) # map hdr_at ts)" for a
  proof -
    have "a \<in> set (node_addrs (Alloc p ps c ts))" using that c(1) roots_in_nodes by auto
    then show ?thesis using W(3) in_P(2) by blast
  qed
  have "hd (map hdr_at vs @ [c + head_off]) \<in> set ((c + head_off) # map hdr_at ts)" unfolding ts by (cases vs) auto
  moreover have "last ((c + head_off) # map hdr_at us) \<in> set ((c + head_off) # map hdr_at us)" by (rule last_in_set) simp
  then have "last ((c + head_off) # map hdr_at us) \<in> set ((c + head_off) # map hdr_at ts)" unfolding ts by auto
  moreover have "t \<in> set ((c + head_off) # map hdr_at ts)" using assms(3) by (simp add: t_def)
  ultimately have ends: "in_bounds st (hd (map hdr_at vs @ [c + head_off]))" "in_bounds st (last ((c + head_off) # map hdr_at us))" "in_bounds st t"
    by (simp_all only: roots)
  obtain h where h: "hdrs st t = Some h" "parent_child h = c XOR TAL_PTR_OBFUSTICATOR" using P assms(3) by (auto simp: t_def)
  have "c \<in> set ps" using P c(1) by (auto simp: props_ok_def only_children_def)
  then have "in_bounds st c" using W(3) in_P(1) by auto
  then have parent: "in_bounds st (ignore_destroying_bit (parent_child h))" using h(2) c(2) by (simp add: ignore_destroying_bit_xor)
  have repT: "rep st T" using P assms(3) by (auto simp: list_all_iff)
  have hp: "(if hdr_prop h \<noteq> 0 then bind_outcome (is_literal st (hdr_prop h)) (\<lambda>l. if \<not> l then check_bounds st (hdr_prop h) else Done ()) else Done ()) = Done ()"
  proof (cases T)
    case (Alloc t' qs d ys)
    then have ch: "prop_chain (props st) (hdr_prop h) qs" using repT h(1) by (auto simp: t_def)
    show ?thesis
    proof (cases qs)
      case Nil
      then show ?thesis using ch by (auto simp: is_literal_def get_prop_def)
    next
      case (Cons q qs')
      have "q \<in> set (prop_addrs (Alloc p ps c ts))" using assms(3) Alloc Cons by force
      then have "in_bounds st q" using W(3) in_P(1) by auto
      then show ?thesis using ch Cons by (auto simp: is_literal_def get_prop_def check_bounds_def)
    qed
  qed
  show ?thesis
    unfolding to_tal_hdr_def Let_def t_def [symmetric]
    using ends parent h(1) step hp by (simp add: from_tal_hdr_def check_bounds_def get_hdr_def)
qed

lemma subtrees_parent: "P \<in> set (subtrees W) \<Longrightarrow> P = W \<or> (\<exists>Q\<in>set (subtrees W). P \<in> set (kids Q))"
proof (induction W)
  case (Alloc t ps c ts)
  show ?case
  proof (cases "P = Alloc t ps c ts")
    case False
    then obtain x where x: "x \<in> set ts" "P \<in> set (subtrees x)" using Alloc.prems by auto
    from Alloc.IH [OF x] show ?thesis
    proof
      assume "P = x"
      then show ?thesis using x(1) by auto
    next
      assume "\<exists>Q\<in>set (subtrees x). P \<in> set (kids Q)"
      then show ?thesis using x(1) by auto
    qed
  qed simp
qed

lemma live_context:
  assumes "in_order st W" and "P \<in> set (subtrees W)"
  shows "to_tal_hdr_or_null st (from_tal_hdr_or_null st (hdr_at P)) = Done (hdr_at P)"
proof (cases "hdr_at P = null_parent st")
  case True
  then show ?thesis by (simp add: from_tal_hdr_or_null_def to_tal_hdr_or_null_def)
next
  case False
  then obtain Q where Q: "Q \<in> set (subtrees W)" "P \<in> set (kids Q)" using subtrees_parent [OF assms(2)] assms(1) by (auto simp: in_order_def)
  have "from_tal_hdr (hdr_at P) \<noteq> 0" using subtrees_hdr [OF assms(2)] assms(1) by (auto simp: in_order_def)
  then show ?thesis using live_hdr [OF assms(1), of "hdr_at Q" "props_at Q" "children_at Q" "kids Q" P] Q False
    by (simp add: from_tal_hdr_or_null_def to_tal_hdr_or_null_def)
qed

lemma in_orderD:
  assumes "in_order st W"
  shows "rep st W" "separated W" "hdr_at W = null_parent st" "\<And>P. P \<in> set (subtrees W) \<Longrightarrow> even (children_at P)" "bounds_ok st"
    "\<And>a. a \<in> set (prop_addrs W) \<Longrightarrow> in_bounds st a" "\<And>a. a \<in> set (node_addrs W) \<Longrightarrow> in_bounds st a"
    "\<And>t. t \<in> set (hdr_addrs W) \<Longrightarrow> t \<noteq> 0 \<and> from_tal_hdr t \<noteq> 0" "notifiers st = 0" "pending (takes st) = []"
    "\<And>t. t \<in> set (hdr_addrs W) \<Longrightarrow> sized st t" "0 \<notin> set (node_addrs W)"
  using assms by (auto simp: in_order_def)

lemma subtrees_replace_in: "Q \<in> set (subtrees (replace_in P' W)) \<Longrightarrow> (\<exists>R\<in>set (subtrees W). children_at Q = children_at R) \<or> Q \<in> set (subtrees P')"
proof (induction W)
  case (Alloc t ps c ts)
  show ?case
  proof (cases "t = hdr_at P'")
    case False
    then have "Q = Alloc t ps c (map (replace_in P') ts) \<or> (\<exists>x\<in>set ts. Q \<in> set (subtrees (replace_in P' x)))" using Alloc.prems by auto
    then show ?thesis
    proof
      assume "\<exists>x\<in>set ts. Q \<in> set (subtrees (replace_in P' x))"
      then obtain x where x: "x \<in> set ts" "Q \<in> set (subtrees (replace_in P' x))" by blast
      from Alloc.IH [OF x] x(1) show ?thesis by auto
    qed simp
  qed (use Alloc.prems in simp)
qed

text \<open>A call that changes one context keeps the memory in order if what it leaves of it is in order.\<close>

lemma in_order_replace:
  fixes st st' :: "'w tal_state"
  assumes "in_order st W" and "P \<in> set (subtrees W)" and "rep st' P'" and "hdr_at P' = hdr_at P" and "separated P'"
    and "set (hdr_addrs P') \<inter> set (hdr_addrs W) \<subseteq> set (hdr_addrs P)" and "set (prop_addrs P') \<inter> set (prop_addrs W) \<subseteq> set (prop_addrs P)"
    and "set (node_addrs P') \<inter> set (node_addrs W) \<subseteq> set (node_addrs P)"
    and "\<forall>a\<in>set (hdr_addrs W) - set (hdr_addrs P). hdrs st' a = hdrs st a" and "\<forall>a\<in>set (prop_addrs W) - set (prop_addrs P). props st' a = props st a"
    and "\<forall>a\<in>set (node_addrs W) - set (tl (node_addrs P)). nodes st' a = nodes st a"
    and "\<forall>p s. props st p = Some (Literal s) \<longrightarrow> props st' p = Some (Literal s)"
    and "map_option parent_child (hdrs st' (hdr_at P)) = map_option parent_child (hdrs st (hdr_at P))"
    and "\<forall>Q\<in>set (subtrees P'). even (children_at Q)" and "bounds_ok st'" and "\<forall>a. in_bounds st a \<longrightarrow> in_bounds st' a"
    and "\<forall>a\<in>set (prop_addrs P') \<union> set (node_addrs P'). in_bounds st' a" and "\<forall>t\<in>set (hdr_addrs P'). t \<noteq> 0 \<and> from_tal_hdr t \<noteq> 0"
    and "notifiers st' = 0" and "pending (takes st') = []" and "null_parent st' = null_parent st"
    and "\<forall>t\<in>set (hdr_addrs W) - set (hdr_addrs P). payload st' t = payload st t" and "\<forall>t\<in>set (hdr_addrs P'). sized st' t"
    and "0 \<notin> set (node_addrs P')"
  shows "in_order st' (replace_in P' W)"
proof -
  note W = in_orderD [OF assms(1)]
  note sets = replace_in_sets [OF W(2) assms(2,4)]
  have "rep st' (replace_in P' W)" by (rule rep_context [OF W(1,2) assms(2-4,9-13)])
  moreover have "separated (replace_in P' W)" by (rule replace_in_separated [OF W(2) assms(2,4-8)])
  moreover have "even (children_at Q)" if "Q \<in> set (subtrees (replace_in P' W))" for Q
    using subtrees_replace_in [OF that] W(4) assms(14) by auto
  moreover have "in_bounds st' a" if "a \<in> set (prop_addrs (replace_in P' W)) \<union> set (node_addrs (replace_in P' W))" for a
    using that W(6,7) assms(16,17) unfolding sets by blast
  moreover have "t \<noteq> 0 \<and> from_tal_hdr t \<noteq> 0" if "t \<in> set (hdr_addrs (replace_in P' W))" for t
    using that W(8) assms(18) unfolding sets by blast
  moreover have "sized st' t" if "t \<in> set (hdr_addrs (replace_in P' W))" for t
  proof (cases "t \<in> set (hdr_addrs P')")
    case False
    then have "t \<in> set (hdr_addrs W) - set (hdr_addrs P)" using that unfolding sets by blast
    then show ?thesis using sized_cong [OF W(11), of t st'] assms(9,21,22) by simp
  qed (use assms(23) in blast)
  moreover have "0 \<notin> set (node_addrs (replace_in P' W))" using W(12) assms(24) unfolding sets by blast
  ultimately show ?thesis using W(3) assms(15,19-21) unfolding in_order_def by simp
qed

section \<open>Freeing\<close>

lemma separated_subtree: "separated W \<Longrightarrow> P \<in> set (subtrees W) \<Longrightarrow> separated P"
proof (induction W)
  case (Alloc t ps c ts)
  show ?case
  proof (cases "P = Alloc t ps c ts")
    case False
    then obtain x where x: "x \<in> set ts" "P \<in> set (subtrees x)" using Alloc.prems(2) by auto
    obtain us vs where "ts = us @ x # vs" using x(1) by (meson split_list)
    then have "separated x" using Alloc.prems(1) by (simp add: separated_def)
    then show ?thesis by (rule Alloc.IH [OF x(1) _ x(2)])
  qed (use Alloc.prems in simp)
qed

lemma kid_subtree: "Alloc p ps c (us @ T # vs) \<in> set (subtrees W) \<Longrightarrow> T \<in> set (subtrees W)"
  by (rule subtrees_trans) auto

lemma without_kid_subset:
  "set (hdr_addrs (Alloc p ps c (us @ vs))) \<subseteq> set (hdr_addrs (Alloc p ps c (us @ T # vs)))"
  "set (prop_addrs (Alloc p ps c (us @ vs))) \<subseteq> set (prop_addrs (Alloc p ps c (us @ T # vs)))"
  "set (node_addrs (Alloc p ps c (us @ vs))) \<subseteq> set (node_addrs (Alloc p ps c (us @ T # vs)))"
  "separated (Alloc p ps c (us @ T # vs)) \<Longrightarrow> separated (Alloc p ps c (us @ vs))"
  by (auto simp: separated_def)

lemma links_inner:
  assumes "c \<noteq> 0"
  shows "set ((c + head_off) # map hdr_at ts) \<subseteq> set (tl (node_addrs (Alloc p ps c ts)))"
  using assms roots_in_nodes by auto

lemma free_in_order:
  assumes "in_order st W" and "Alloc p ps c (us @ T # vs) \<in> set (subtrees W)" and "outside cb act"
  obtains st' where "tal_free cb (from_tal_hdr (hdr_at T)) st = ret (0, st')" and "in_order st' (replace_in (Alloc p ps c (us @ vs)) W)"
    and "world st' = tell act (free_notices st (from_tal_hdr (hdr_at T)) T) (world st)"
proof -
  let ?P = "Alloc p ps c (us @ T # vs)" and ?P' = "Alloc p ps c (us @ vs)"
  note W = in_orderD [OF assms(1)]
  have P: "rep st ?P" "separated ?P" using subtrees_rep [OF W(1) assms(2)] separated_subtree [OF W(2) assms(2)] .
  have T_in: "T \<in> set (subtrees W)" by (rule kid_subtree [OF assms(2)])
  note T_addrs = subtrees_addrs [OF T_in] and P_addrs = subtrees_addrs [OF assms(2)]
  have "untaken st T" using W(8,10) T_addrs by (auto simp: untaken_def)
  from free_child_rep [OF P this assms(3), of "from_tal_hdr (hdr_at T)"] obtain h st' where st': "list_del (nodes st) (hdr_at T) = Done h" "del_tree cb (hdr_at T) (from_tal_hdr (hdr_at T)) (st\<lparr>nodes := h\<rparr>) = ret st'"
      "rep st' ?P'" "dom (nodes st') = dom (nodes st) - set (node_addrs T)"
      "\<And>a. a \<notin> set ((c + head_off) # map hdr_at (us @ vs)) \<union> set (node_addrs T) \<Longrightarrow> nodes st' a = nodes st a"
      "st' = st\<lparr>hdrs := hdrs st |` (- set (hdr_addrs T)), props := props st |` (- set (prop_addrs T)), payload := payload st |` (- set (hdr_addrs T)),
        nodes := nodes st', world := tell act (free_notices st (from_tal_hdr (hdr_at T)) T) (world st)\<rparr>"
    by metis
  have F: "hdrs st' = hdrs st |` (- set (hdr_addrs T))" "props st' = props st |` (- set (prop_addrs T))"
      "world st' = tell act (free_notices st (from_tal_hdr (hdr_at T)) T) (world st)" "null_parent st' = null_parent st" "bounds_of st' = bounds_of st"
      "notifiers st' = notifiers st" "takes st' = takes st" "payload st' = payload st |` (- set (hdr_addrs T))"
    using arg_cong [OF st'(6), of hdrs] arg_cong [OF st'(6), of props] arg_cong [OF st'(6), of world] arg_cong [OF st'(6), of null_parent]
      arg_cong [OF st'(6), of bounds_of] arg_cong [OF st'(6), of notifiers] arg_cong [OF st'(6), of takes] arg_cong [OF st'(6), of payload]
    by (simp_all add: bounds_of_def)
  have T_sub: "set (hdr_addrs T) \<subseteq> set (hdr_addrs ?P)" "set (prop_addrs T) \<subseteq> set (prop_addrs ?P)" by auto
  have c: "c \<noteq> 0" using P(1) by (auto split: if_splits)
  have inner: "set ((c + head_off) # map hdr_at (us @ vs)) \<union> set (node_addrs T) \<subseteq> set (tl (node_addrs ?P))"
    using links_inner [OF c, of "us @ T # vs" p ps] by auto
  obtain H where H: "hdrs st (hdr_at T) = Some H" "\<not> get_destroying_bit (parent_child H)" using subtrees_rep [OF W(1) T_in] by (cases T) auto
  have "to_tal_hdr st (from_tal_hdr (hdr_at T)) = Done (hdr_at T)" by (rule live_hdr [OF assms(1,2)]) simp
  moreover have "from_tal_hdr (hdr_at T) \<noteq> 0" using W(8) subtrees_hdr [OF T_in] by blast
  ultimately have run: "tal_free cb (from_tal_hdr (hdr_at T)) st = ret (0, st')"
    using H st'(1,2) W(9) by (simp add: tal_free_def get_hdr_def on_nodes_def)
  have "in_order st' (replace_in ?P' W)"
  proof (rule in_order_replace [OF assms(1,2) st'(3)])
    show "separated ?P'" by (rule without_kid_subset(4) [OF P(2)])
    show "set (hdr_addrs ?P') \<inter> set (hdr_addrs W) \<subseteq> set (hdr_addrs ?P)" "set (prop_addrs ?P') \<inter> set (prop_addrs W) \<subseteq> set (prop_addrs ?P)"
        "set (node_addrs ?P') \<inter> set (node_addrs W) \<subseteq> set (node_addrs ?P)"
      by (rule le_infI1, rule without_kid_subset)+
    show "\<forall>a\<in>set (hdr_addrs W) - set (hdr_addrs ?P). hdrs st' a = hdrs st a" "\<forall>a\<in>set (prop_addrs W) - set (prop_addrs ?P). props st' a = props st a"
      unfolding F(1,2) using T_sub by (auto simp: restrict_map_def)
    show "\<forall>a\<in>set (node_addrs W) - set (tl (node_addrs ?P)). nodes st' a = nodes st a" using st'(5) inner by blast
    show "\<forall>q s. props st q = Some (Literal s) \<longrightarrow> props st' q = Some (Literal s)"
      using rep_not_literal [OF subtrees_rep [OF W(1) T_in]] by (auto simp: F(2))
    show "map_option parent_child (hdrs st' (hdr_at ?P)) = map_option parent_child (hdrs st (hdr_at ?P))"
      using separated_kids(4) [OF P(2)] by (simp add: F(1))
    have "even (children_at Q)" if "Q \<in> set (subtrees ?P)" for Q using W(4) [OF subtrees_trans [OF that assms(2)]] .
    from this [of ?P] this show "\<forall>Q\<in>set (subtrees ?P'). even (children_at Q)" by auto
    show "bounds_ok st'" "\<forall>a. in_bounds st a \<longrightarrow> in_bounds st' a" using W(5) bounds_ok_cong [OF F(5)] in_bounds_cong [OF F(5,4)] by simp_all
    show "\<forall>a\<in>set (prop_addrs ?P') \<union> set (node_addrs ?P'). in_bounds st' a"
      using W(6,7) P_addrs without_kid_subset(2,3) in_bounds_cong [OF F(5,4)] by blast
    show "\<forall>t\<in>set (hdr_addrs ?P'). t \<noteq> 0 \<and> from_tal_hdr t \<noteq> 0" using W(8) P_addrs without_kid_subset(1) by blast
    show "\<forall>t\<in>set (hdr_addrs W) - set (hdr_addrs ?P). payload st' t = payload st t" using T_sub(1) by (auto simp: F(8) restrict_map_def)
    show "\<forall>t\<in>set (hdr_addrs ?P'). sized st' t"
    proof
      fix t assume t: "t \<in> set (hdr_addrs ?P')"
      then have "t \<notin> set (hdr_addrs T)" using P(2) by (auto simp: separated_def)
      moreover have "t \<in> set (hdr_addrs W)" using t P_addrs without_kid_subset(1) by blast
      ultimately show "sized st' t" using sized_cong [OF W(11), of t st'] by (simp add: F)
    qed
    show "0 \<notin> set (node_addrs ?P')" using W(12) P_addrs without_kid_subset(3) by blast
  qed (simp_all add: F W)
  then show thesis using that [OF run _ F(3)] by blast
qed

section \<open>Adding a child\<close>

text \<open>The property of children of a parent, the one it has or one made of the next answer of the
  allocator: a fresh piece of memory, aligned, outside of \<open>A\<close>.\<close>

definition children_answer :: "'w tal_state \<Rightarrow> addr set \<Rightarrow> addr list \<Rightarrow> addr \<Rightarrow> addr list \<Rightarrow> addr \<Rightarrow> addr list \<Rightarrow> bool" where
  "children_answer st A ms c ps c' ps' \<longleftrightarrow>
     (if c \<noteq> 0 then c' = c \<and> ps' = ps
      else ms \<noteq> [] \<and> c' = hd ms \<and> ps' = c' # ps \<and> c' \<noteq> 0 \<and> even c' \<and> c' \<notin> dom (props st) \<and> c' + head_off \<notin> A \<and> unat c' + 40 < 2 ^ 64)"

lemma children_answer_cong:
  assumes "props st' = props st"
  shows "children_answer st' A ms c ps c' ps' = children_answer st A ms c ps c' ps'"
  by (simp only: children_answer_def assms)

definition apart :: "alloc \<Rightarrow> alloc \<Rightarrow> bool" where
  "apart T W \<longleftrightarrow> set (hdr_addrs T) \<inter> set (hdr_addrs W) = {} \<and> set (prop_addrs T) \<inter> set (prop_addrs W) = {} \<and> set (node_addrs T) \<inter> set (node_addrs W) = {}"

lemma rep_prop_dom: "rep st W \<Longrightarrow> set (prop_addrs W) \<subseteq> dom (props st)"
  using rep_prop_types by (fastforce simp: dom_def)

lemma linked_tree:
  assumes "rep st W" and "separated W" and "Alloc q qs d ts \<in> set (subtrees W)" and "set (prop_addrs T) \<subseteq> dom (props st)" and "separated T" and "apart T W"
    and "children_answer st (set (node_addrs W) \<union> set (node_addrs T)) ms d qs d' qs'"
  shows "separated (Alloc q qs' d' (T # ts))"
    and "set (hdr_addrs (Alloc q qs' d' (T # ts))) \<inter> set (hdr_addrs W) \<subseteq> set (hdr_addrs (Alloc q qs d ts))"
    and "set (prop_addrs (Alloc q qs' d' (T # ts))) \<inter> set (prop_addrs W) \<subseteq> set (prop_addrs (Alloc q qs d ts))"
    and "set (node_addrs (Alloc q qs' d' (T # ts))) \<inter> set (node_addrs W) \<subseteq> set (node_addrs (Alloc q qs d ts))"
proof -
  let ?Q = "Alloc q qs d ts"
  have Q: "rep st ?Q" "separated ?Q" using subtrees_rep [OF assms(1,3)] separated_subtree [OF assms(2,3)] .
  note in_W = subtrees_addrs [OF assms(3)]
  have sub: "set (hdr_addrs T) \<inter> set (hdr_addrs ?Q) = {}" "set (prop_addrs T) \<inter> set (prop_addrs ?Q) = {}" "set (node_addrs T) \<inter> set (node_addrs ?Q) = {}"
    using in_W assms(6) unfolding apart_def by blast+
  have new: "d' \<notin> set (prop_addrs ?Q) \<union> set (prop_addrs T) \<union> set (prop_addrs W)" "d' + head_off \<notin> set (node_addrs ?Q) \<union> set (node_addrs T) \<union> set (node_addrs W)"
      "qs' = d' # qs" "ts = []" "d' \<noteq> 0" if "d = 0"
    using assms(7) that rep_prop_dom [OF assms(1)] assms(4) in_W Q(1) by (auto simp: children_answer_def)
  have old: "d' = d" "qs' = qs" if "d \<noteq> 0" using assms(7) that by (simp_all add: children_answer_def)
  show "separated (Alloc q qs' d' (T # ts))"
  proof (cases "d = 0")
    case True
    then show ?thesis using new [OF True] sub assms(5) Q(2) by (auto simp: separated_def)
  next
    case False
    then show ?thesis using old [OF False] sub assms(5) Q(2) by (auto simp: separated_def)
  qed
  show "set (hdr_addrs (Alloc q qs' d' (T # ts))) \<inter> set (hdr_addrs W) \<subseteq> set (hdr_addrs ?Q)" using assms(6) by (auto simp: apart_def)
  show "set (prop_addrs (Alloc q qs' d' (T # ts))) \<inter> set (prop_addrs W) \<subseteq> set (prop_addrs ?Q)"
    using assms(6) new old by (cases "d = 0") (auto simp: apart_def)
  show "set (node_addrs (Alloc q qs' d' (T # ts))) \<inter> set (node_addrs W) \<subseteq> set (node_addrs ?Q)"
    using assms(6) new old by (cases "d = 0") (auto simp: apart_def)
qed

text \<open>The bounds after both answers.\<close>

lemma children_bounds:
  assumes "bounds_ok st" and "children_answer st0 B ms d qs d' qs'"
    and "bounds_of st' = bounds_of (if d = 0 then update_bounds d' children_size st else st)" and "null_parent st' = null_parent st"
  shows "bounds_ok st'" and "\<And>a. in_bounds st a \<Longrightarrow> in_bounds st' a" and "d = 0 \<Longrightarrow> in_bounds st' d' \<and> in_bounds st' (d' + head_off)"
proof -
  have *: "in_bounds st' a = in_bounds (if d = 0 then update_bounds d' children_size st else st) a" for a
    by (rule in_bounds_cong [OF assms(3)]) (simp add: assms(4))
  have size: "unat children_size = 40" unfolding children_size_def by simp
  have grow: "bounds_ok (update_bounds d' children_size st)" "in_bounds st a \<Longrightarrow> in_bounds (update_bounds d' children_size st) a"
      "in_bounds (update_bounds d' children_size st) d'" "in_bounds (update_bounds d' children_size st) (d' + head_off)" if "d = 0" for a
  proof -
    have "d' \<noteq> 0" "unat d' + unat children_size < 2 ^ 64" "24 \<le> unat children_size"
      unfolding size using assms(2) that by (auto simp: children_answer_def)
    from update_bounds_grow [OF assms(1) this]
    show "bounds_ok (update_bounds d' children_size st)" "in_bounds st a \<Longrightarrow> in_bounds (update_bounds d' children_size st) a"
      "in_bounds (update_bounds d' children_size st) d'" "in_bounds (update_bounds d' children_size st) (d' + head_off)"
      unfolding head_off_def by blast+
  qed
  show "bounds_ok st'" using bounds_ok_cong [OF assms(3)] assms(1) grow by (cases "d = 0") simp_all
  show "in_bounds st a \<Longrightarrow> in_bounds st' a" for a unfolding * using grow by (cases "d = 0") simp_all
  show "d = 0 \<Longrightarrow> in_bounds st' d' \<and> in_bounds st' (d' + head_off)" unfolding * using grow by simp
qed

lemma apart_hdr: "apart T W \<Longrightarrow> hdr_at T \<notin> set (hdr_addrs W)" "apart T W \<Longrightarrow> hdr_at T \<notin> set (node_addrs W)"
  using hdr_at_in [of T] by (auto simp: apart_def)

text \<open>What linking a tree that is in memory, and not in \<open>W\<close>, to a context does to \<open>W\<close>.  The
  state \<open>st'\<close> is that after \<open>add_child\<close>.\<close>

lemma linked_in_order:
  fixes st st' :: "'w tal_state"
  assumes "in_order st W" and "Alloc q qs d ts \<in> set (subtrees W)" and "set (prop_addrs T) \<subseteq> dom (props st)" and "separated T" and "apart T W"
    and "children_answer st1 (set (node_addrs W) \<union> set (node_addrs T)) ms d qs d' qs'" and "props st1 = props st"
    and "\<forall>Q\<in>set (subtrees T). even (children_at Q)" and "\<forall>a\<in>set (prop_addrs T) \<union> set (node_addrs T). in_bounds st1 a"
    and "\<forall>t\<in>set (hdr_addrs T). t \<noteq> 0 \<and> from_tal_hdr t \<noteq> 0" and "rep st' (Alloc q qs' d' (T # ts))"
    and "\<And>a. a \<notin> {q, hdr_at T} \<Longrightarrow> hdrs st' a = hdrs st a" and "\<And>a. a \<noteq> d' \<Longrightarrow> props st' a = props st a"
    and "\<And>a. a \<notin> set ((d' + head_off) # map hdr_at (T # ts)) \<Longrightarrow> nodes st' a = nodes st a"
    and "map_option parent_child (hdrs st' q) = map_option parent_child (hdrs st q)"
    and "bounds_ok st1" and "\<And>a. in_bounds st a \<Longrightarrow> in_bounds st1 a" and "null_parent st' = null_parent st" and "null_parent st1 = null_parent st"
    and "bounds_of st' = bounds_of (if d = 0 then update_bounds d' children_size st1 else st1)"
    and "notifiers st' = 0" and "takes st' = takes st" and "0 \<notin> set (node_addrs T)" and "\<forall>t\<in>set (hdr_addrs T). sized st' t"
    and "\<And>a. a \<noteq> hdr_at T \<Longrightarrow> map_option bytelen (hdrs st' a) = map_option bytelen (hdrs st a) \<and> payload st' a = payload st a"
  shows "in_order st' (replace_in (Alloc q qs' d' (T # ts)) W)"
proof -
  let ?Q = "Alloc q qs d ts" and ?Q' = "Alloc q qs' d' (T # ts)"
  note W = in_orderD [OF assms(1)]
  have Q: "rep st ?Q" by (rule subtrees_rep [OF W(1) assms(2)])
  note in_W = subtrees_addrs [OF assms(2)]
  have old: "d' = d" "qs' = qs" if "d \<noteq> 0" using assms(6) that by (simp_all add: children_answer_def)
  have new: "d' \<notin> dom (props st)" "qs' = d' # qs" "even d'" "d' + head_off \<notin> set (node_addrs W)" "ts = []" if "d = 0"
    using assms(6,7) that Q by (auto simp: children_answer_def)
  have ans: "children_answer st (set (node_addrs W) \<union> set (node_addrs T)) ms d qs d' qs'" using assms(6) unfolding children_answer_def assms(7) .
  note bnd = children_bounds [OF assms(16) assms(6) assms(20), unfolded assms(18,19), OF refl]
  show ?thesis
  proof (rule in_order_replace [OF assms(1,2,11)])
    show "separated ?Q'" "set (hdr_addrs ?Q') \<inter> set (hdr_addrs W) \<subseteq> set (hdr_addrs ?Q)"
        "set (prop_addrs ?Q') \<inter> set (prop_addrs W) \<subseteq> set (prop_addrs ?Q)" "set (node_addrs ?Q') \<inter> set (node_addrs W) \<subseteq> set (node_addrs ?Q)"
      by (rule linked_tree [OF W(1,2) assms(2,3,4,5) ans])+
    show "\<forall>a\<in>set (hdr_addrs W) - set (hdr_addrs ?Q). hdrs st' a = hdrs st a" using assms(12) apart_hdr(1) [OF assms(5)] by auto
    show "\<forall>a\<in>set (prop_addrs W) - set (prop_addrs ?Q). props st' a = props st a"
    proof (cases "d = 0")
      case True
      then show ?thesis using assms(13) new(1) rep_prop_dom [OF W(1)] by (metis DiffD1 subsetD)
    next
      case False
      then have "d \<in> set qs" using Q by (auto simp: props_ok_def only_children_def)
      then have "d' \<in> set (prop_addrs ?Q)" using old [OF False] by simp
      then show ?thesis using assms(13) by (metis DiffD2)
    qed
    show "\<forall>a\<in>set (node_addrs W) - set (tl (node_addrs ?Q)). nodes st' a = nodes st a"
    proof
      fix a assume a: "a \<in> set (node_addrs W) - set (tl (node_addrs ?Q))"
      have "a \<noteq> hdr_at T" using a apart_hdr(2) [OF assms(5)] by auto
      moreover have "a \<notin> set ((d' + head_off) # map hdr_at ts)"
      proof (cases "d = 0")
        case True
        then show ?thesis using a new by auto
      next
        case False
        then show ?thesis using a links_inner [OF False, of ts q qs] old by auto
      qed
      ultimately show "nodes st' a = nodes st a" by (intro assms(14)) auto
    qed
    show "\<forall>p s. props st p = Some (Literal s) \<longrightarrow> props st' p = Some (Literal s)"
    proof (intro allI impI)
      fix p s assume lit: "props st p = Some (Literal s)"
      have "p \<noteq> d'"
      proof (cases "d = 0")
        case True
        then show ?thesis using lit new(1) by auto
      next
        case False
        then show ?thesis using lit Q old by (auto simp: props_ok_def)
      qed
      then show "props st' p = Some (Literal s)" using lit assms(13) by simp
    qed
    show "map_option parent_child (hdrs st' (hdr_at ?Q)) = map_option parent_child (hdrs st (hdr_at ?Q))" using assms(15) by simp
    have "even (children_at R)" if "R \<in> set (subtrees ?Q)" for R using W(4) [OF subtrees_trans [OF that assms(2)]] .
    from this [of ?Q] this show "\<forall>R\<in>set (subtrees ?Q'). even (children_at R)" using new(3) old assms(8) by (cases "d = 0") auto
    show "bounds_ok st'" by (rule bnd(1))
    show grow: "\<forall>a. in_bounds st a \<longrightarrow> in_bounds st' a" using assms(17) bnd(2) by blast
    show "\<forall>a\<in>set (prop_addrs ?Q') \<union> set (node_addrs ?Q'). in_bounds st' a"
    proof
      fix a assume "a \<in> set (prop_addrs ?Q') \<union> set (node_addrs ?Q')"
      then have "a \<in> set (prop_addrs T) \<union> set (node_addrs T) \<or> a \<in> set (prop_addrs ?Q) \<union> set (node_addrs ?Q) \<or> d = 0 \<and> (a = d' \<or> a = d' + head_off)"
        using new(2) old by (cases "d = 0") (auto split: if_splits)
      then show "in_bounds st' a" using assms(9) W(6,7) in_W bnd(2,3) grow by blast
    qed
    show "\<forall>t\<in>set (hdr_addrs ?Q'). t \<noteq> 0 \<and> from_tal_hdr t \<noteq> 0" using assms(10) W(8) in_W by auto
    have other: "t \<noteq> hdr_at T" if "t \<in> set (hdr_addrs W)" for t using that apart_hdr(1) [OF assms(5)] by auto
    then show "\<forall>t\<in>set (hdr_addrs W) - set (hdr_addrs ?Q). payload st' t = payload st t" using assms(25) by blast
    show "\<forall>t\<in>set (hdr_addrs ?Q'). sized st' t"
    proof
      fix t assume "t \<in> set (hdr_addrs ?Q')"
      then have "t \<in> set (hdr_addrs T) \<or> t \<in> set (hdr_addrs W)" using in_W by auto
      then show "sized st' t" using assms(24) sized_cong [OF W(11), of t st'] assms(18) assms(25) [OF other, of t] by blast
    qed
    show "0 \<notin> set (node_addrs ?Q')"
    proof -
      have "d' + head_off \<noteq> 0" if "d = 0"
      proof -
        have "unat d' + 40 < 2 ^ 64" using assms(6) that by (auto simp: children_answer_def)
        then have "unat (d' + 24) = unat d' + 24" using unat_plus_small [of d' 24] by simp
        then show ?thesis by (auto simp: head_off_def)
      qed
      moreover have "0 \<notin> set (node_addrs ?Q)" using W(12) in_W by blast
      ultimately show ?thesis using assms(23) old by (cases "d = 0") auto
    qed
  qed (use assms W in simp_all)
qed

lemma alloc_in_order:
  assumes "in_order st W" and "Alloc p ps c ts \<in> set (subtrees W)" and "mallocs st = child # ms" and "child \<noteq> 0" and "child \<notin> set (node_addrs W)"
    and "unat child + 40 + unat sz < 2 ^ 64" and "children_answer st (set (node_addrs W) \<union> {child}) ms c ps c' ps'"
    and "label = 0 \<or> (\<exists>s. s \<noteq> [] \<and> props st label = Some (Literal s))"
  obtains st' where "tal_alloc cb (from_tal_hdr_or_null st p) sz clear label st = ret (from_tal_hdr child, st')"
    and "in_order st' (replace_in (Alloc p ps' c' (Alloc child [] 0 [] # ts)) W)" and "world st' = world st"
    and "payload st' = (payload st)(child \<mapsto> replicate (unat sz) (if clear then Some 0 else None))"
    and "mallocs st' = (if c = 0 then tl ms else ms)" and "takes st' = takes st" and "null_parent st' = null_parent st"
    and "\<And>q s. props st q = Some (Literal s) \<Longrightarrow> props st' q = Some (Literal s)"
proof -
  let ?T = "Alloc child [] 0 []"
  note W = in_orderD [OF assms(1)]
  have P: "rep st (Alloc p ps c ts)" by (rule subtrees_rep [OF W(1) assms(2)])
  have T: "set (prop_addrs ?T) \<subseteq> dom (props st)" "separated ?T" "apart ?T W"
    using assms(5) hdr_addrs_node_addrs [of W] by (auto simp: separated_def apart_def)
  have ans: "children_answer st (set (node_addrs W) \<union> set (node_addrs ?T)) ms c ps c' ps'" using assms(7) by simp
  have live: "to_tal_hdr_or_null st (from_tal_hdr_or_null st p) = Done p" using live_context [OF assms(1,2)] by simp
  have c': "c' \<noteq> 0" "even c'" using assms(7) W(4) [OF assms(2)] by (auto simp: children_answer_def split: if_splits)
  have can: "can_alloc st p ps c ts child ps' c'"
    using linked_tree(1) [OF W(1,2) assms(2) T ans] c' assms(3,4,7) by (auto simp: can_alloc_def children_answer_def neq_Nil_conv)
  obtain st' where st': "tal_alloc cb (from_tal_hdr_or_null st p) sz clear label st = ret (from_tal_hdr child, st')" "rep st' (Alloc p ps' c' (?T # ts))"
    "payload st' = (payload st)(child \<mapsto> replicate (unat sz) (if clear then Some 0 else None))"
    "\<And>a. a \<notin> {p, child} \<Longrightarrow> hdrs st' a = hdrs st a" "\<And>a. a \<noteq> c' \<Longrightarrow> props st' a = props st a"
    "\<And>a. a \<notin> set ((c' + head_off) # child # map hdr_at ts) \<Longrightarrow> nodes st' a = nodes st a"
    "map_option parent_child (hdrs st' p) = map_option parent_child (hdrs st p)"
    "notifiers st' = 0" "null_parent st' = null_parent st" "takes st' = takes st" "world st' = world st"
    "bounds_of st' = bounds_of (if c = 0 then update_bounds c' children_size (update_bounds child (hdr_size + sz) st) else update_bounds child (hdr_size + sz) st)"
    "map_option bytelen (hdrs st' child) = Some sz" "\<And>a. a \<noteq> child \<Longrightarrow> map_option bytelen (hdrs st' a) = map_option bytelen (hdrs st a)"
    "mallocs st' = (if c = 0 then tl (tl (mallocs st)) else tl (mallocs st))"
    by (rule alloc_child_rep [OF P live can W(9) assms(8), of cb sz clear], rule that) assumption+
  define st1 where "st1 = update_bounds child (hdr_size + sz) st"
  have size: "unat (hdr_size + sz) = 40 + unat sz"
    using unat_plus_small [of sz 40] assms(6) by (simp add: hdr_size_def add.commute)
  have "unat child + unat (hdr_size + sz) < 2 ^ 64" "24 \<le> unat (hdr_size + sz)" unfolding size using assms(6) by simp_all
  note grow = update_bounds_grow [OF W(5) assms(4) this, folded st1_def]
  have child40: "from_tal_hdr child \<noteq> 0"
  proof -
    have "unat (from_tal_hdr child) = unat child + 40" using unat_plus_small [of child 40] assms(6) by (simp add: from_tal_hdr_def hdr_size_def)
    then show ?thesis by auto
  qed
  have "in_order st' (replace_in (Alloc p ps' c' (?T # ts)) W)"
  proof (rule linked_in_order [OF assms(1,2) T])
    show "children_answer st1 (set (node_addrs W) \<union> set (node_addrs ?T)) ms c ps c' ps'" using ans unfolding children_answer_def st1_def update_bounds_same .
    show "\<forall>t\<in>set (hdr_addrs ?T). sized st' t" using st'(3,13) by (auto simp: sized_def)
  qed (use st' grow assms(4) child40 in \<open>simp_all add: st1_def del: rep.simps\<close>)
  moreover have "props st' q = Some (Literal s)" if lit: "props st q = Some (Literal s)" for q s
  proof -
    have "q \<noteq> c'"
    proof (cases "c = 0")
      case True
      then have "c' \<notin> dom (props st)" using assms(7) by (auto simp: children_answer_def)
      then show ?thesis using lit by auto
    next
      case False
      then have "c' = c" "\<exists>n. props st c = Some (Children n p)" using assms(7) P by (auto simp: children_answer_def props_ok_def)
      then show ?thesis using lit by auto
    qed
    then show ?thesis using st'(5) lit by simp
  qed
  moreover have "mallocs st' = (if c = 0 then tl ms else ms)" using st'(15) assms(3) by simp
  ultimately show thesis using that st'(1,3,9,10,11) by blast
qed

section \<open>Stealing\<close>

lemma hdr_subtree: "t \<in> set (hdr_addrs W) \<Longrightarrow> \<exists>P\<in>set (subtrees W). hdr_at P = t"
proof (induction W)
  case (Alloc t' ps c ts)
  then consider "t = t'" | x where "x \<in> set ts" "t \<in> set (hdr_addrs x)" by auto
  then show ?case
  proof cases
    case 2
    then show ?thesis using Alloc.IH [OF 2] by auto
  qed simp
qed

lemma unlink_in_order:
  assumes "in_order st W" and "Alloc p ps c (us @ T # vs) \<in> set (subtrees W)"
  obtains h where "list_del (nodes st) (hdr_at T) = Done h" and "in_order (st\<lparr>nodes := h\<rparr>) (replace_in (Alloc p ps c (us @ vs)) W)"
    and "rep (st\<lparr>nodes := h\<rparr>) T" and "dom h = dom (nodes st)" and "apart T (replace_in (Alloc p ps c (us @ vs)) W)"
proof -
  let ?P = "Alloc p ps c (us @ T # vs)" and ?P' = "Alloc p ps c (us @ vs)"
  note W = in_orderD [OF assms(1)]
  have P: "rep st ?P" "separated ?P" using subtrees_rep [OF W(1) assms(2)] separated_subtree [OF W(2) assms(2)] .
  note P_addrs = subtrees_addrs [OF assms(2)]
  have c: "c \<noteq> 0" using P(1) by (auto split: if_splits)
  obtain h where h: "list_del (nodes st) (hdr_at T) = Done h" "rep (st\<lparr>nodes := h\<rparr>) T" "rep (st\<lparr>nodes := h\<rparr>) ?P'" "dom h = dom (nodes st)"
      "\<And>a. a \<notin> set ((c + head_off) # map hdr_at (us @ vs)) \<Longrightarrow> h a = nodes st a"
    by (rule unlink_child_rep [OF P], rule that) assumption+
  have inner: "set ((c + head_off) # map hdr_at (us @ vs)) \<subseteq> set (tl (node_addrs ?P))" using links_inner [OF c, of "us @ T # vs" p ps] by auto
  have same: "in_bounds (st\<lparr>nodes := h\<rparr>) a = in_bounds st a" "bounds_ok (st\<lparr>nodes := h\<rparr>) = bounds_ok st" for a
    by (simp_all add: in_bounds_def bounds_ok_def)
  have "in_order (st\<lparr>nodes := h\<rparr>) (replace_in ?P' W)"
  proof (rule in_order_replace [OF assms(1,2) h(3)])
    show "separated ?P'" by (rule without_kid_subset(4) [OF P(2)])
    show "set (hdr_addrs ?P') \<inter> set (hdr_addrs W) \<subseteq> set (hdr_addrs ?P)" "set (prop_addrs ?P') \<inter> set (prop_addrs W) \<subseteq> set (prop_addrs ?P)"
        "set (node_addrs ?P') \<inter> set (node_addrs W) \<subseteq> set (node_addrs ?P)"
      by (rule le_infI1, rule without_kid_subset)+
    show "\<forall>a\<in>set (node_addrs W) - set (tl (node_addrs ?P)). nodes (st\<lparr>nodes := h\<rparr>) a = nodes st a"
    proof
      fix a assume "a \<in> set (node_addrs W) - set (tl (node_addrs ?P))"
      then have "a \<notin> set ((c + head_off) # map hdr_at (us @ vs))" using inner by blast
      then show "nodes (st\<lparr>nodes := h\<rparr>) a = nodes st a" using h(5) by simp
    qed
    have "even (children_at Q)" if "Q \<in> set (subtrees ?P)" for Q using W(4) [OF subtrees_trans [OF that assms(2)]] .
    from this [of ?P] this show "\<forall>Q\<in>set (subtrees ?P'). even (children_at Q)" by auto
    show "\<forall>a\<in>set (prop_addrs ?P') \<union> set (node_addrs ?P'). in_bounds (st\<lparr>nodes := h\<rparr>) a"
      using W(6,7) P_addrs without_kid_subset(2,3) same by blast
    show "\<forall>t\<in>set (hdr_addrs ?P'). t \<noteq> 0 \<and> from_tal_hdr t \<noteq> 0" using W(8) P_addrs without_kid_subset(1) by blast
    have "sized (st\<lparr>nodes := h\<rparr>) t = sized st t" for t by (simp add: sized_def)
    then show "\<forall>t\<in>set (hdr_addrs ?P'). sized (st\<lparr>nodes := h\<rparr>) t" using W(11) P_addrs without_kid_subset(1) by blast
    show "0 \<notin> set (node_addrs ?P')" using W(12) P_addrs without_kid_subset(3) by blast
  qed (simp_all add: W same)
  moreover have "apart T (replace_in ?P' W)"
  proof -
    have "apart T ?P'" using P(2) c by (auto simp: separated_def apart_def)
    moreover have "set (hdr_addrs T) \<subseteq> set (hdr_addrs ?P)" "set (prop_addrs T) \<subseteq> set (prop_addrs ?P)" "set (node_addrs T) \<subseteq> set (node_addrs ?P)" by auto
    moreover have "hdr_at ?P' = hdr_at ?P" by simp
    note replace_in_sets [OF W(2) assms(2) this]
    ultimately show ?thesis unfolding apart_def by blast
  qed
  ultimately show thesis using that h(1,2,4) by blast
qed

lemma steal_in_order:
  assumes "in_order st W" and "Alloc p ps c (us @ T # vs) \<in> set (subtrees W)" and "W1 = replace_in (Alloc p ps c (us @ vs)) W"
    and "Alloc q qs d ts \<in> set (subtrees W1)" and "children_answer st (set (node_addrs W)) (mallocs st) d qs d' qs'"
  obtains st' where "tal_steal cb (from_tal_hdr_or_null st q) (from_tal_hdr (hdr_at T)) st = ret (from_tal_hdr (hdr_at T), st')"
    and "in_order st' (replace_in (Alloc q qs' d' (T # ts)) W1)" and "world st' = world st" and "payload st' = payload st"
proof -
  let ?P = "Alloc p ps c (us @ T # vs)" and ?t = "hdr_at T" and ?Q' = "Alloc q qs' d' (T # ts)"
  note W = in_orderD [OF assms(1)]
  have P: "rep st ?P" "separated ?P" using subtrees_rep [OF W(1) assms(2)] separated_subtree [OF W(2) assms(2)] .
  have T_in: "T \<in> set (subtrees W)" by (rule kid_subtree [OF assms(2)])
  note T_addrs = subtrees_addrs [OF T_in]
  have c: "c \<noteq> 0" "even c" using P(1) W(4) [OF assms(2)] by (auto split: if_splits)
  obtain h where h: "list_del (nodes st) ?t = Done h" "in_order (st\<lparr>nodes := h\<rparr>) W1" "rep (st\<lparr>nodes := h\<rparr>) T" "dom h = dom (nodes st)" "apart T W1"
    by (rule unlink_in_order [OF assms(1,2), folded assms(3)], rule that) assumption+
  define st1 where "st1 = st\<lparr>nodes := h\<rparr>"
  note W1 = in_orderD [OF h(2) [folded st1_def]]
  have Q: "rep st1 (Alloc q qs d ts)" by (rule subtrees_rep [OF W1(1) assms(4)])
  have nodes_W: "set (node_addrs W1) \<union> set (node_addrs T) = set (node_addrs W)"
  proof -
    have "set (node_addrs (Alloc p ps c (us @ vs))) \<union> set (node_addrs T) = set (node_addrs ?P)" by auto
    moreover have "set (node_addrs ?P) \<subseteq> set (node_addrs W)" using subtrees_addrs [OF assms(2)] by blast
    moreover have "hdr_at (Alloc p ps c (us @ vs)) = hdr_at ?P" by simp
    note replace_in_sets(3) [OF W(2) assms(2) this, folded assms(3)]
    ultimately show ?thesis by blast
  qed
  have T: "set (prop_addrs T) \<subseteq> dom (props st1)" "separated T" using rep_prop_dom [OF h(3)] separated_subtree [OF W(2) T_in] by (simp_all add: st1_def)
  have ans: "children_answer st1 (set (node_addrs W1) \<union> set (node_addrs T)) (mallocs st1) d qs d' qs'"
    using assms(5) unfolding nodes_W by (simp add: st1_def children_answer_cong [of "st\<lparr>nodes := h\<rparr>" st])
  have d': "d' \<noteq> 0" "even d'" using assms(5) W1(4) [OF assms(4)] by (auto simp: children_answer_def split: if_splits)
  have dom: "?t \<in> dom (nodes st1)"
  proof -
    have "is_list (nodes st) (c + head_off) (map hdr_at (us @ T # vs))" using P(1) c(1) by (simp add: proper_list_def)
    then show ?thesis using is_list_ends(3) h(4) by (fastforce simp: st1_def)
  qed
  have t0: "?t \<noteq> 0" "from_tal_hdr ?t \<noteq> 0" using W(8) subtrees_hdr [OF T_in] by blast+
  define ms where "ms = (if d = 0 then tl (mallocs st1) else mallocs st1)"
  have answers: "if d = 0 then mallocs st1 = d' # ms \<and> d' \<notin> dom (props st1) \<and> qs' = d' # qs else d' = d \<and> ms = mallocs st1 \<and> qs' = qs"
    using ans by (auto simp: children_answer_def ms_def)
  obtain st' where st': "add_child q ?t st1 = ret (True, st')" "rep st' ?Q'" "payload st' = payload st1" "notifiers st' = notifiers st1"
      "null_parent st' = null_parent st1" "takes st' = takes st1" "world st' = world st1"
      "\<And>a. a \<notin> {q, ?t} \<Longrightarrow> hdrs st' a = hdrs st1 a" "\<And>a. a \<noteq> d' \<Longrightarrow> props st' a = props st1 a"
      "\<And>a. a \<notin> set ((d' + head_off) # map hdr_at (T # ts)) \<Longrightarrow> nodes st' a = nodes st1 a"
      "map_option parent_child (hdrs st' q) = map_option parent_child (hdrs st1 q)"
      "bounds_of st' = bounds_of (if d = 0 then update_bounds d' children_size st1 else st1)"
      "\<And>a. map_option bytelen (hdrs st' a) = map_option bytelen (hdrs st1 a)"
    by (rule add_child_rep [OF Q h(3) [folded st1_def] dom t0(1) d'(2,1) answers linked_tree(1) [OF W1(1,2) assms(4) T h(5) ans]], rule that) assumption+
  have "in_order st' (replace_in ?Q' W1)"
  proof (rule linked_in_order [OF h(2) [folded st1_def] assms(4) T h(5) ans refl _ _ _ st'(2)])
    show "\<forall>R\<in>set (subtrees T). even (children_at R)" using W(4) [OF subtrees_trans [OF _ T_in]] by blast
    show "\<forall>a\<in>set (prop_addrs T) \<union> set (node_addrs T). in_bounds st1 a" 
    proof -
      have "in_bounds st1 a = in_bounds st a" for a by (simp add: st1_def in_bounds_def)
      then show ?thesis using W(6,7) T_addrs by blast
    qed
    show "\<forall>t\<in>set (hdr_addrs T). t \<noteq> 0 \<and> from_tal_hdr t \<noteq> 0" using W(8) T_addrs by blast
    show "\<forall>t\<in>set (hdr_addrs T). sized st' t"
    proof
      fix t assume "t \<in> set (hdr_addrs T)"
      then have "sized st t" using W(11) T_addrs by blast
      then show "sized st' t" by (rule sized_cong) (use st'(3,5,13) in \<open>simp_all add: st1_def\<close>)
    qed
    show "0 \<notin> set (node_addrs T)" using W(12) T_addrs by blast
  qed (use st' W1 in simp_all)
  moreover have "tal_steal cb (from_tal_hdr_or_null st q) (from_tal_hdr ?t) st = ret (from_tal_hdr ?t, st')"
  proof -
    have "q \<in> set (hdr_addrs W1)" using subtrees_hdr [OF assms(4)] by simp
    moreover have "hdr_at (Alloc p ps c (us @ vs)) = hdr_at ?P" by simp
    note replace_in_sets(1) [OF W(2) assms(2) this, folded assms(3)]
    ultimately have "q \<in> set (hdr_addrs W)" using subtrees_addrs [OF assms(2)] without_kid_subset(1) by blast
    then obtain R where "R \<in> set (subtrees W)" "hdr_at R = q" using hdr_subtree by blast
    then have "to_tal_hdr_or_null st (from_tal_hdr_or_null st q) = Done q" using live_context [OF assms(1)] by blast
    moreover have "to_tal_hdr st (from_tal_hdr ?t) = Done ?t" by (rule live_hdr [OF assms(1,2)]) simp
    moreover obtain H where "hdrs st ?t = Some H" "parent_child H = c XOR TAL_PTR_OBFUSTICATOR" using P(1) by auto
    moreover obtain n where "props st c = Some (Children n p)" using P(1) c(1) by (auto simp: props_ok_def)
    ultimately show ?thesis using h(1) st'(1,4) t0(2) c(2) W(9)
      by (simp add: tal_steal_def on_nodes_def st1_def [symmetric] get_hdr_def parent_of_children_def get_prop_def ignore_destroying_bit_xor notify_any_def)
        (simp add: st1_def get_hdr_def get_prop_def ignore_destroying_bit_xor)
  qed
  ultimately show thesis using that st'(3,7) by (simp add: st1_def)
qed

section \<open>Adding a destructor\<close>

lemma add_notifier_rep:
  assumes "rep st (Alloc t qs d ts)" and "separated (Alloc t qs d ts)" and "hdrs st t = Some h" and "n \<noteq> 0" and "n \<notin> dom (props st)" and "fn \<noteq> 0"
  shows "rep (st\<lparr>props := (props st)(n \<mapsto> Notifier (hdr_prop h) types fn arg), hdrs := (hdrs st)(t \<mapsto> h\<lparr>hdr_prop := n\<rparr>)\<rparr>) (Alloc t (n # qs) d ts)"
proof -
  let ?st = "st\<lparr>props := (props st)(n \<mapsto> Notifier (hdr_prop h) types fn arg), hdrs := (hdrs st)(t \<mapsto> h\<lparr>hdr_prop := n\<rparr>)\<rparr>"
  have n: "n \<notin> set (prop_addrs (Alloc t qs d ts))" using rep_prop_dom [OF assms(1)] assms(5) by blast
  have same: "props ?st q = props st q" if "q \<in> set qs" for q using n that by auto
  note sep = separated_kids [OF assms(2)]
  have "agrees y st ?st" if "y \<in> set ts" for y
  proof -
    have "t \<notin> set (hdr_addrs y)" "n \<notin> set (prop_addrs y)" using sep(4) n that by auto
    then show ?thesis using assms(5) by (auto simp: agrees_def)
  qed
  then have "list_all id (map (rep ?st) ts)" using assms(1) rep_agrees [of st _ ?st] by (auto simp: list_all_iff)
  moreover have "hdrs ?st (hdr_at y) = hdrs st (hdr_at y)" if "y \<in> set ts" for y using sep(4) that hdr_at_in(1) [of y] by auto
  moreover have "prop_chain (props ?st) (hdr_prop h) qs"
    by (rule prop_chain_cong [of "props st"]) (use assms(1,3,5) same in auto)
  moreover have "props_ok (props ?st) t (n # qs) d"
  proof -
    have "only_children (props ?st) qs d"
      by (rule only_children_cong [of "props st"]) (use assms(1) same in \<open>simp_all add: props_ok_def is_children_def\<close>)
    then have "only_children (props ?st) (n # qs) d" by (simp add: only_children_def is_children_def)
    moreover have "d \<noteq> 0 \<Longrightarrow> d \<in> set qs" using assms(1) by (auto simp: props_ok_def only_children_def)
    ultimately show ?thesis using assms(1,6) same n by (auto simp: props_ok_def)
  qed
  ultimately show ?thesis using assms(1,3,4) by simp
qed

lemma destructor_in_order:
  assumes "in_order st W" and "Alloc p ps c (us @ Alloc t qs d ts # vs) \<in> set (subtrees W)" and "fn \<noteq> 0" and "mallocs st = n # ms"
    and "n \<noteq> 0" and "n \<notin> dom (props st)" and "unat n + 32 < 2 ^ 64"
  obtains st' where "tal_add_destructor (from_tal_hdr t) fn st = Done (True, st')" and "in_order st' (replace_in (Alloc t (n # qs) d ts) W)"
    and "world st' = world st" and "payload st' = payload st"
proof -
  let ?T = "Alloc t qs d ts" and ?T' = "Alloc t (n # qs) d ts"
  note W = in_orderD [OF assms(1)]
  have T_in: "?T \<in> set (subtrees W)" by (rule kid_subtree [OF assms(2)])
  have T: "rep st ?T" "separated ?T" using subtrees_rep [OF W(1) T_in] separated_subtree [OF W(2) T_in] .
  note T_addrs = subtrees_addrs [OF T_in]
  have fresh: "n \<notin> set (prop_addrs W)" using rep_prop_dom [OF W(1)] assms(6) by blast
  obtain h where h: "hdrs st t = Some h" "\<not> get_destroying_bit (parent_child h)" using T(1) by auto
  define types where "types = TAL_NOTIFY_FREE OR NOTIFY_IS_DESTRUCTOR"
  have no_arg: "types AND NOTIFY_EXTRA_ARG = 0" by (simp add: types_def TAL_NOTIFY_FREE_def NOTIFY_IS_DESTRUCTOR_def NOTIFY_EXTRA_ARG_def)
  define st1 where "st1 = update_bounds n notifier_size (st\<lparr>mallocs := ms\<rparr>)"
  define st' where "st' = st1\<lparr>props := (props st1)(n \<mapsto> Notifier (hdr_prop h) types fn 0), hdrs := (hdrs st1)(t \<mapsto> h\<lparr>hdr_prop := n\<rparr>)\<rparr>"
  have size: "unat notifier_size = 32" unfolding notifier_size_def by simp
  have "bounds_ok (st\<lparr>mallocs := ms\<rparr>)" using W(5) by (simp add: bounds_ok_def)
  from update_bounds_grow [OF this assms(5), of notifier_size, unfolded size, OF assms(7)]
  have grow: "bounds_ok st1" "in_bounds st a \<Longrightarrow> in_bounds st1 a" "in_bounds st1 n" for a
    by (simp_all add: st1_def in_bounds_def)
  have same: "in_bounds st' a = in_bounds st1 a" "bounds_ok st' = bounds_ok st1" for a by (simp_all add: in_bounds_def bounds_ok_def st'_def)
  have rep1: "rep st1 ?T" by (rule rep_agrees [OF T(1)]) (simp add: agrees_def st1_def)
  have "rep st' ?T'"
    unfolding st'_def by (rule add_notifier_rep [OF rep1 T(2)]) (use h(1) assms(3,5,6) in \<open>simp_all add: st1_def\<close>)
  then have "in_order st' (replace_in ?T' W)"
  proof (rule in_order_replace [OF assms(1) T_in])
    show "separated ?T'" using T(2) fresh T_addrs by (auto simp: separated_def)
    show "set (prop_addrs ?T') \<inter> set (prop_addrs W) \<subseteq> set (prop_addrs ?T)" using fresh by auto
    show "\<forall>a\<in>set (hdr_addrs W) - set (hdr_addrs ?T). hdrs st' a = hdrs st a" by (simp add: st'_def st1_def)
    show "\<forall>a\<in>set (prop_addrs W) - set (prop_addrs ?T). props st' a = props st a" using fresh by (auto simp: st'_def st1_def)
    show "\<forall>q s. props st q = Some (Literal s) \<longrightarrow> props st' q = Some (Literal s)" using assms(6) by (auto simp: st'_def st1_def)
    show "map_option parent_child (hdrs st' (hdr_at ?T)) = map_option parent_child (hdrs st (hdr_at ?T))" using h(1) by (simp add: st'_def)
    have "even (children_at Q)" if "Q \<in> set (subtrees ?T)" for Q using W(4) [OF subtrees_trans [OF that T_in]] .
    from this [of ?T] this show "\<forall>Q\<in>set (subtrees ?T'). even (children_at Q)" by auto
    show "bounds_ok st'" "\<forall>a. in_bounds st a \<longrightarrow> in_bounds st' a" using grow by (simp_all add: same)
    show "\<forall>a\<in>set (prop_addrs ?T') \<union> set (node_addrs ?T'). in_bounds st' a"
    proof
      fix a assume "a \<in> set (prop_addrs ?T') \<union> set (node_addrs ?T')"
      then have "a = n \<or> a \<in> set (prop_addrs W) \<union> set (node_addrs W)" using T_addrs by auto
      then show "in_bounds st' a" unfolding same using W(6,7) grow by blast
    qed
    show "\<forall>t\<in>set (hdr_addrs ?T'). t \<noteq> 0 \<and> from_tal_hdr t \<noteq> 0" using W(8) T_addrs by auto
    show "\<forall>t\<in>set (hdr_addrs ?T'). sized st' t"
    proof
      fix x assume "x \<in> set (hdr_addrs ?T')"
      then have "sized st x" using W(11) T_addrs by auto
      then show "sized st' x" by (rule sized_cong) (use h(1) in \<open>simp_all add: st'_def st1_def\<close>)
    qed
    show "0 \<notin> set (node_addrs ?T')" using W(12) T_addrs by auto
  qed (use W in \<open>simp_all add: st'_def st1_def\<close>)
  moreover have "tal_add_destructor (from_tal_hdr t) fn st = Done (True, st')"
  proof -
    have "to_tal_hdr st (from_tal_hdr t) = Done t" using live_hdr [OF assms(1,2), of ?T] by simp
    moreover have "init_property n t (\<lambda>nxt. Notifier nxt types fn 0) st1 = Done st'"
      using h(1) by (simp add: init_property_def get_hdr_def upd_hdr_def st'_def st1_def)
    ultimately show ?thesis using assms(4,5) no_arg
      by (simp add: tal_add_destructor_def add_notifier_property_def allocate_def types_def [symmetric] Let_def st1_def [symmetric])
  qed
  ultimately show thesis using that by (simp add: st'_def st1_def)
qed

section \<open>Resizing\<close>

lemma kid_not_root:
  assumes "separated W" and "Alloc p ps c (us @ T # vs) \<in> set (subtrees W)"
  shows "hdr_at T \<noteq> hdr_at W"
proof
  assume eq: "hdr_at T = hdr_at W"
  have "distinct (hdr_addrs W)" using assms(1) by (simp add: separated_def)
  from subtrees_root [OF this kid_subtree [OF assms(2)]] eq have "T = W" using hdr_at_in(1) [of T] by simp
  then have "p \<in> set (hdr_addrs T)" using subtrees_hdr [OF assms(2)] by simp
  moreover have "p \<notin> set (hdr_addrs T)" using separated_subtree [OF assms] by (simp add: separated_def)
  ultimately show False by blast
qed

text \<open>The tree with the header at \<open>t\<close> moved to \<open>r\<close>.\<close>

primrec moved :: "addr \<Rightarrow> addr \<Rightarrow> alloc \<Rightarrow> alloc" where
  "moved t r (Alloc x ps c ts) = Alloc (if x = t then r else x) ps c (map (moved t r) ts)"

lemma moved_other: "t \<notin> set (hdr_addrs W) \<Longrightarrow> moved t r W = W"
  by (induction W) (auto intro!: map_idI)

lemma moved_same [simp]: "moved t t W = W"
  by (induction W) (auto intro!: map_idI)

lemma moved_moved: "u = t \<or> u \<notin> set (hdr_addrs W) \<Longrightarrow> moved u r (moved t u W) = moved t r W"
  by (induction W) auto

lemma moved_addrs:
  "hdr_addrs (moved t r W) = map (\<lambda>x. if x = t then r else x) (hdr_addrs W)" "prop_addrs (moved t r W) = prop_addrs W"
  by (induction W) (auto simp: map_concat intro!: arg_cong [of _ _ concat])

lemma replace_moved:
  assumes "distinct (hdr_addrs W)" and "Alloc p ps c (us @ Alloc t qs d ts # vs) \<in> set (subtrees W)"
  shows "replace_in (Alloc p ps c (us @ Alloc r qs d ts # vs)) W = moved t r W"
  using assms
proof (induction W)
  case (Alloc x ws b ys)
  let ?P = "Alloc p ps c (us @ Alloc t qs d ts # vs)" and ?P' = "Alloc p ps c (us @ Alloc r qs d ts # vs)"
  show ?case
  proof (cases "?P = Alloc x ws b ys")
    case True
    have "t \<notin> set (hdr_addrs y)" if "y \<in> set us \<union> set ts \<union> set vs" for y using Alloc.prems(1) that unfolding True [symmetric] by auto
    then have "map (moved t r) us = us" "map (moved t r) ts = ts" "map (moved t r) vs = vs" by (auto intro!: map_idI simp: moved_other)
    moreover have "p \<noteq> t" using Alloc.prems(1) unfolding True [symmetric] by auto
    ultimately show ?thesis unfolding True [symmetric] by simp
  next
    case False
    then obtain y where y: "y \<in> set ys" "?P \<in> set (subtrees y)" using Alloc.prems(2) by auto
    have "p \<in> set (hdr_addrs y)" "t \<in> set (hdr_addrs y)" using subtrees_addrs [OF y(2)] by auto
    then have "x \<noteq> p" "x \<noteq> t" using Alloc.prems(1) y(1) by auto
    moreover have "replace_in ?P' z = moved t r z" if z: "z \<in> set ys" for z
    proof (cases "z = y")
      case True
      have "distinct (hdr_addrs y)" using Alloc.prems(1) y(1) by (auto dest!: split_list)
      then show ?thesis using Alloc.IH [OF y(1) _ y(2)] True by simp
    next
      case False
      have "distinct (concat (map hdr_addrs ys))" using Alloc.prems(1) by simp
      then have "p \<notin> set (hdr_addrs z)" "t \<notin> set (hdr_addrs z)"
        using distinct_concat_disjoint [OF _ z y(1)] False \<open>p \<in> set (hdr_addrs y)\<close> \<open>t \<in> set (hdr_addrs y)\<close> by blast+
      then show ?thesis by (simp add: replace_in_other moved_other)
    qed
    ultimately show ?thesis by simp
  qed
qed

lemma resize_in_order:
  assumes "in_order st W" and "Alloc p ps c (us @ Alloc t qs d ts # vs) \<in> set (subtrees W)" and "adjust_size sz num = Done n"
    and "mallocs st = r # ms" and "r \<noteq> 0" and "r = t \<or> r \<notin> set (node_addrs W)" and "unat r + 40 + unat n < 2 ^ 64"
  obtains st' where "tal_resize cb env (from_tal_hdr t) sz num clear st = ret (True, from_tal_hdr r, st')"
    and "in_order st' (replace_in (Alloc p ps c (us @ Alloc r qs d ts # vs)) W)" and "world st' = world st"
    and "mallocs st' = ms" and "takes st' = takes st" and "null_parent st' = null_parent st"
    and "\<And>q s. props st q = Some (Literal s) \<Longrightarrow> props st' q = Some (Literal s)"
    and "payload st' = ((payload st)(t := None))(r \<mapsto> take (unat n) (the (payload st t)) @
      replicate (unat n - length (the (payload st t))) (if clear then Some 0 else None))"
proof -
  let ?T = "Alloc t qs d ts" and ?T' = "Alloc r qs d ts"
  let ?P = "Alloc p ps c (us @ ?T # vs)" and ?P' = "Alloc p ps c (us @ ?T' # vs)"
  note W = in_orderD [OF assms(1)] and P_addrs = subtrees_addrs [OF assms(2)]
  have P: "rep st ?P" "separated ?P" using subtrees_rep [OF W(1) assms(2)] separated_subtree [OF W(2) assms(2)] .
  have T_in: "?T \<in> set (subtrees W)" by (rule kid_subtree [OF assms(2)])
  note T_addrs = subtrees_addrs [OF T_in]
  have c: "c \<noteq> 0" using P(1) by (auto split: if_splits)
  have untaken: "untaken st ?T" using W(8,10) T_addrs by (auto simp: untaken_def)
  have "t \<noteq> null_parent st" using kid_not_root [OF W(2) assms(2)] W(3) by simp
  moreover have "sized st t" using W(11) T_addrs by simp
  ultimately obtain h bs where h: "hdrs st t = Some h" "payload st t = Some bs" "length bs = unat (bytelen h)" by (auto simp: sized_def)
  have fresh: "r = t \<or> r \<notin> set (node_addrs ?P)" using assms(6) P_addrs by blast
  have live: "to_tal_hdr st (from_tal_hdr t) = Done t" using live_hdr [OF assms(1,2), of ?T] by simp
  obtain st' where st': "tal_resize cb env (from_tal_hdr t) sz num clear st = ret (True, from_tal_hdr r, st')" "rep st' ?P'"
      "hdrs st' = ((hdrs st)(t := None))(r \<mapsto> h\<lparr>bytelen := n\<rparr>)"
      "payload st' = ((payload st)(t := None))(r \<mapsto> take (unat n) bs @ replicate (unat n - length bs) (if clear then Some 0 else None))"
      "notifiers st' = 0" "world st' = world st" "takes st' = takes st" "null_parent st' = null_parent st" "bounds_of st' = bounds_of (update_bounds r (hdr_size + n) st)"
      "\<And>a. a \<notin> set ((c + head_off) # r # map hdr_at us @ t # map hdr_at vs) \<Longrightarrow> nodes st' a = nodes st a"
      "\<And>q. q \<notin> set qs \<Longrightarrow> props st' q = props st q" "\<And>q s. props st q = Some (Literal s) \<Longrightarrow> props st' q = Some (Literal s)"
      "mallocs st' = ms"
    by (rule resize_child_rep [OF P live assms(3-5) fresh h untaken W(9), of cb env clear], rule that) assumption+
  have size: "unat (hdr_size + n) = 40 + unat n" using unat_plus_small [of n 40] assms(7) by (simp add: hdr_size_def add.commute)
  have "unat r + unat (hdr_size + n) < 2 ^ 64" "24 \<le> unat (hdr_size + n)" unfolding size using assms(7) by simp_all
  note grow = update_bounds_grow [OF W(5) assms(5) this]
  have bnd: "bounds_ok st'" "in_bounds st a \<Longrightarrow> in_bounds st' a" "in_bounds st' r" for a
    using grow bounds_ok_cong [OF st'(9)] in_bounds_cong [OF st'(9)] st'(8) by simp_all
  have off: "from_tal_hdr r \<noteq> 0"
  proof -
    have "unat (from_tal_hdr r) = unat r + 40" using unat_plus_small [of r 40] assms(7) by (simp add: from_tal_hdr_def hdr_size_def)
    then show ?thesis by auto
  qed
  have r: "r = t \<or> r \<notin> set (hdr_addrs W)" using assms(6) hdr_addrs_node_addrs by blast
  have addrs: "set (hdr_addrs ?P') \<subseteq> insert r (set (hdr_addrs ?P))" "set (node_addrs ?P') \<subseteq> insert r (set (node_addrs ?P))"
    "r \<noteq> t \<Longrightarrow> t \<notin> set (hdr_addrs ?P')" using P(2) by (auto simp: separated_def)
  have "in_order st' (replace_in ?P' W)"
  proof (rule in_order_replace [OF assms(1,2) st'(2)])
    show "separated ?P'"
    proof (cases "r = t")
      case False
      then have "r \<notin> set (node_addrs ?P)" "r \<notin> set (hdr_addrs ?P)" using fresh hdr_addrs_node_addrs by blast+
      then show ?thesis using P(2) by (auto simp: separated_def)
    qed (use P(2) in simp)
    show "set (hdr_addrs ?P') \<inter> set (hdr_addrs W) \<subseteq> set (hdr_addrs ?P)" using addrs(1) r by auto
    show "set (node_addrs ?P') \<inter> set (node_addrs W) \<subseteq> set (node_addrs ?P)" using addrs(2) assms(6) by auto
    show "\<forall>a\<in>set (hdr_addrs W) - set (hdr_addrs ?P). hdrs st' a = hdrs st a" "\<forall>a\<in>set (hdr_addrs W) - set (hdr_addrs ?P). payload st' a = payload st a"
      using r by (auto simp: st'(3,4))
    show "\<forall>a\<in>set (prop_addrs W) - set (prop_addrs ?P). props st' a = props st a" using st'(11) by auto
    show "\<forall>a\<in>set (node_addrs W) - set (tl (node_addrs ?P)). nodes st' a = nodes st a"
    proof
      fix a assume a: "a \<in> set (node_addrs W) - set (tl (node_addrs ?P))"
      moreover have "set ((c + head_off) # map hdr_at us @ t # map hdr_at vs) \<subseteq> set (tl (node_addrs ?P))"
        using links_inner [OF c, of "us @ ?T # vs" p ps] by simp
      ultimately show "nodes st' a = nodes st a" using assms(6) by (intro st'(10)) auto
    qed
    show "\<forall>q s. props st q = Some (Literal s) \<longrightarrow> props st' q = Some (Literal s)" using st'(12) by blast
    have "p \<noteq> t" "p \<noteq> r" using separated_kids(4,6) [OF P(2)] fresh by auto
    then show "map_option parent_child (hdrs st' (hdr_at ?P)) = map_option parent_child (hdrs st (hdr_at ?P))" by (simp add: st'(3))
    have "even (children_at Q)" if "Q \<in> set (subtrees ?P)" for Q using W(4) [OF subtrees_trans [OF that assms(2)]] .
    from this [of ?P] this [of ?T] this show "\<forall>Q\<in>set (subtrees ?P'). even (children_at Q)" by auto
    show "\<forall>a\<in>set (prop_addrs ?P') \<union> set (node_addrs ?P'). in_bounds st' a"
    proof
      fix a assume "a \<in> set (prop_addrs ?P') \<union> set (node_addrs ?P')"
      then have "a = r \<or> a \<in> set (prop_addrs W) \<union> set (node_addrs W)" using P_addrs addrs(2) by auto
      then show "in_bounds st' a" using W(6,7) bnd by blast
    qed
    show "\<forall>x\<in>set (hdr_addrs ?P'). x \<noteq> 0 \<and> from_tal_hdr x \<noteq> 0" using W(8) P_addrs addrs(1) assms(5) off by blast
    show "\<forall>x\<in>set (hdr_addrs ?P'). sized st' x"
    proof
      fix x assume x: "x \<in> set (hdr_addrs ?P')"
      show "sized st' x"
      proof (cases "x = r")
        case True
        then show ?thesis by (auto simp: sized_def st'(3,4) min_def)
      next
        case False
        then have "x \<noteq> t" "x \<in> set (hdr_addrs W)" using x addrs(1,3) P_addrs by auto
        then show ?thesis using sized_cong [OF W(11), of x st'] False by (simp add: st'(3,4,8))
      qed
    qed
    show "0 \<notin> set (node_addrs ?P')" using W(12) P_addrs addrs(2) assms(5) by blast
  qed (use st' bnd W in \<open>simp_all del: rep.simps\<close>)
  then show thesis using that st'(1,4,6-8,12,13) h(2) by simp
qed

section \<open>Calls\<close>

text \<open>The null parent of the initialisers of \<open>tal.c\<close>, the string literals of the program, and an
  allocator that will answer \<open>ms\<close>.\<close>

definition tal_start :: "addr \<Rightarrow> (addr \<rightharpoonup> cstr) \<Rightarrow> addr list \<Rightarrow> 'w \<Rightarrow> 'w tal_state" where
  "tal_start np lits ms w =
     (let c = np + hdr_size; lh = c + head_off in
      \<lparr>nodes = [np \<mapsto> \<lparr>node_next = np, node_prev = np\<rparr>, lh \<mapsto> \<lparr>node_next = lh, node_prev = lh\<rparr>],
       hdrs = [np \<mapsto> \<lparr>hdr_prop = c, parent_child = TAL_PTR_OBFUSTICATOR, bytelen = 0\<rparr>], props = (\<lambda>a. map_option Literal (lits a))(c \<mapsto> Children 0 np),
       payload = Map.empty, bounds_start = 0, bounds_end = 0, notifiers = 0, null_parent = np, mallocs = ms, takes = start_state, world = w\<rparr>)"

lemma start_in_order:
  assumes "even np" and "np \<noteq> 0" and "unat np + 80 < 2 ^ 64"
  shows "in_order (tal_start np lits ms w) (Alloc np [np + hdr_size] (np + hdr_size) [])"
proof -
  have u: "unat (np + 40) = unat np + 40" "unat (np + 64) = unat np + 64" "unat (np + 80) = unat np + 80"
    using unat_plus_small [of np 40] unat_plus_small [of np 64] unat_plus_small [of np 80] assms(3) by simp_all
  then have ne: "np + 40 \<noteq> 0" "np + 64 \<noteq> np" "np + 64 \<noteq> 0" using assms(2) by (auto simp: word_unat_eq_iff)
  have lh: "64 + np \<noteq> 0" using ne(3) by (simp only: add.commute not_False_eq_True)
  have bits: "\<not> get_destroying_bit TAL_PTR_OBFUSTICATOR" by (rule example_bits)
  have bnd: "in_bounds (tal_start np lits ms w) a" if "a \<in> {np, np + 40, np + 64}" for a
    using that u by (auto simp: in_bounds_def tal_start_def null_parent_size_def word_le_nat_alt Let_def)
  have "rep (tal_start np lits ms w) (Alloc np [np + 40] (np + 40) [])"
    using ne bits by (simp add: tal_start_def Let_def hdr_size_def head_off_def props_ok_def only_children_def is_children_def proper_list_def is_list_def
      ring_def nexts_def prevs_def)
  then show ?thesis using bnd assms(1,2) ne lh
    by (simp add: in_order_def separated_def hdr_size_def head_off_def from_tal_hdr_def)
      (simp add: tal_start_def Let_def bounds_ok_def start_state_def pending_def sized_def hdr_size_def)
qed

datatype tal_call =
    Call_alloc addr u64 bool addr
  | Call_free addr
  | Call_steal addr addr
  | Call_destructor addr addr
  | Call_resize addr u64 u64 bool

primrec run_call :: "'w callback \<Rightarrow> take_env \<Rightarrow> tal_call \<Rightarrow> 'w tal_state \<Rightarrow> 'w tal_state outcome option" where
  "run_call cb env (Call_alloc ctx sz clear label) st = bind_run (tal_alloc cb ctx sz clear label st) (\<lambda>(_, st). ret st)"
| "run_call cb env (Call_free ctx) st = bind_run (tal_free cb ctx st) (\<lambda>(_, st). ret st)"
| "run_call cb env (Call_steal new_parent ctx) st = bind_run (tal_steal cb new_parent ctx st) (\<lambda>(_, st). ret st)"
| "run_call cb env (Call_destructor ctx fn) st = bind_run (run_of (tal_add_destructor ctx fn st)) (\<lambda>(_, st). ret st)"
| "run_call cb env (Call_resize ctx sz num clear) st = bind_run (tal_resize cb env ctx sz num clear st) (\<lambda>(_, _, st). ret st)"

text \<open>Which calls a client may make, and what they do to the tree: on contexts that are in it, not to
  give a context to one of its own descendants, and with an allocator whose answers are fresh.\<close>

inductive may_call :: "'w tal_state \<Rightarrow> alloc \<Rightarrow> tal_call \<Rightarrow> alloc \<Rightarrow> bool" for st W where
  may_alloc: "may_call st W (Call_alloc (from_tal_hdr_or_null st p) sz clear label) (replace_in (Alloc p ps' c' (Alloc child [] 0 [] # ts)) W)"
    if "Alloc p ps c ts \<in> set (subtrees W)" and "mallocs st = child # ms" and "child \<noteq> 0" and "child \<notin> set (node_addrs W)"
    and "unat child + 40 + unat sz < 2 ^ 64" and "children_answer st (set (node_addrs W) \<union> {child}) ms c ps c' ps'"
    and "label = 0 \<or> (\<exists>s. s \<noteq> [] \<and> props st label = Some (Literal s))"
| may_free: "may_call st W (Call_free (from_tal_hdr (hdr_at T))) (replace_in (Alloc p ps c (us @ vs)) W)"
    if "Alloc p ps c (us @ T # vs) \<in> set (subtrees W)"
| may_steal: "may_call st W (Call_steal (from_tal_hdr_or_null st q) (from_tal_hdr (hdr_at T))) (replace_in (Alloc q qs' d' (T # ts)) W1)"
    if "Alloc p ps c (us @ T # vs) \<in> set (subtrees W)" and "W1 = replace_in (Alloc p ps c (us @ vs)) W"
    and "Alloc q qs d ts \<in> set (subtrees W1)" and "children_answer st (set (node_addrs W)) (mallocs st) d qs d' qs'"
| may_destructor: "may_call st W (Call_destructor (from_tal_hdr t) fn) (replace_in (Alloc t (n # qs) d ts) W)"
    if "Alloc p ps c (us @ Alloc t qs d ts # vs) \<in> set (subtrees W)" and "fn \<noteq> 0" and "mallocs st = n # ms" and "n \<noteq> 0"
    and "n \<notin> dom (props st)" and "unat n + 32 < 2 ^ 64"
| may_resize: "may_call st W (Call_resize (from_tal_hdr t) sz num clear) (replace_in (Alloc p ps c (us @ Alloc r qs d ts # vs)) W)"
    if "Alloc p ps c (us @ Alloc t qs d ts # vs) \<in> set (subtrees W)" and "adjust_size sz num = Done n" and "mallocs st = r # ms" and "r \<noteq> 0"
    and "r = t \<or> r \<notin> set (node_addrs W)" and "unat r + 40 + unat n < 2 ^ 64"

inductive reachable :: "'w callback \<Rightarrow> take_env \<Rightarrow> 'w tal_state \<Rightarrow> alloc \<Rightarrow> bool" for cb env where
  reach_start: "reachable cb env (tal_start np lits ms w) (Alloc np [np + hdr_size] (np + hdr_size) [])"
    if "even np" and "np \<noteq> 0" and "unat np + 80 < 2 ^ 64"
| reach_call: "reachable cb env st' W'" if "reachable cb env st W" and "may_call st W call W'" and "run_call cb env call st = ret st'"

lemma call_in_order:
  assumes "outside cb act" and "in_order st W" and "may_call st W call W'"
  shows "\<exists>st'. run_call cb env call st = ret st' \<and> in_order st' W'"
  using assms(3)
proof cases
  case (may_alloc p ps c ts child ms sz c' ps' label clear)
  obtain st' where "tal_alloc cb (from_tal_hdr_or_null st p) sz clear label st = ret (from_tal_hdr child, st')" "in_order st' W'"
    using alloc_in_order [OF assms(2) may_alloc(3-9), of cb clear, folded may_alloc(2)] by metis
  then show ?thesis by (simp add: may_alloc(1))
next
  case (may_free p ps c us T vs)
  obtain st' where "tal_free cb (from_tal_hdr (hdr_at T)) st = ret (0, st')" "in_order st' W'"
    using free_in_order [OF assms(2) may_free(3) assms(1), folded may_free(2)] by metis
  then show ?thesis by (simp add: may_free(1))
next
  case (may_steal p ps c us T vs W1 q qs d ts d' qs')
  obtain st' where "tal_steal cb (from_tal_hdr_or_null st q) (from_tal_hdr (hdr_at T)) st = ret (from_tal_hdr (hdr_at T), st')" "in_order st' W'"
    using steal_in_order [OF assms(2) may_steal(3-6), of cb, folded may_steal(2)] by metis
  then show ?thesis by (simp add: may_steal(1))
next
  case (may_destructor p ps c us t qs d ts vs fn n ms)
  obtain st' where "tal_add_destructor (from_tal_hdr t) fn st = Done (True, st')" "in_order st' W'"
    using destructor_in_order [OF assms(2) may_destructor(3-8), folded may_destructor(2)] by metis
  then show ?thesis by (simp add: may_destructor(1))
next
  case (may_resize p ps c us t qs d ts vs sz num n r ms clear)
  obtain st' where "tal_resize cb env (from_tal_hdr t) sz num clear st = ret (True, from_tal_hdr r, st')" "in_order st' W'"
    using resize_in_order [OF assms(2) may_resize(3-8), of cb env clear, folded may_resize(2)] by metis
  then show ?thesis by (simp add: may_resize(1))
qed

lemma reachable_in_order:
  assumes "outside cb act" and "reachable cb env st W"
  shows "in_order st W"
  using assms(2)
proof induction
  case (reach_start np ms w)
  then show ?case by (rule start_in_order)
next
  case (reach_call st W call W' st')
  then show ?case using call_in_order [OF assms(1) reach_call.IH reach_call.hyps(2), of env] by auto
qed

lemma live_bytes:
  assumes "in_order st W" and "P \<in> set (subtrees W)"
  shows "P = W \<or> (\<exists>bs. payload st (hdr_at P) = Some bs \<and> tal_bytelen (from_tal_hdr (hdr_at P)) st = Done (word_of_nat (length bs)))"
proof (cases "P = W")
  case False
  note W = in_orderD [OF assms(1)]
  have in_W: "hdr_at P \<in> set (hdr_addrs W)" by (rule subtrees_hdr [OF assms(2)])
  have "distinct (hdr_addrs W)" using W(2) by (simp add: separated_def)
  from subtrees_root [OF this assms(2)] False have "hdr_at W \<notin> set (hdr_addrs P)" by blast
  then have "hdr_at P \<noteq> null_parent st" using W(3) hdr_at_in(1) [of P] by metis
  then obtain n bs where nb: "map_option bytelen (hdrs st (hdr_at P)) = Some n" "payload st (hdr_at P) = Some bs" "length bs = unat n"
    using W(11) [OF in_W] by (auto simp: sized_def)
  have "to_tal_hdr_or_null st (from_tal_hdr (hdr_at P)) = Done (hdr_at P)"
    using live_context [OF assms] \<open>hdr_at P \<noteq> null_parent st\<close> by (simp add: from_tal_hdr_or_null_def)
  then have "tal_bytelen (from_tal_hdr (hdr_at P)) st = Done n" using nb(1) by (auto simp: tal_bytelen_def get_hdr_def)
  then show ?thesis using nb(2,3) by simp
qed simp

text \<open>C3. Whatever a program does with the tree of allocations, as long as its calls are on contexts that
  exist: memory holds the tree of the abstract calls, every context in it passes the checks of
  \<open>to_tal_hdr\<close> and has as many bytes as \<open>tal_bytelen\<close> says, and every further call returns, with
  memory that holds the tree it leads to.  The calls (\<open>may_call\<close>) allocate, with no label or with the text
  of a type, as \<open>tal\<close> and \<open>tal_arr\<close> do, free, steal, resize and add destructors; they install no
  notifiers and give nothing to \<open>take\<close>.  The destructors may do anything outside of the memory,
  but leave the memory alone (\<open>outside\<close>).\<close>

theorem tal_history:
  assumes "outside cb act" and "reachable cb env st W"
  shows "rep st W \<and> separated W \<and>
    (\<forall>P\<in>set (subtrees W). to_tal_hdr_or_null st (from_tal_hdr_or_null st (hdr_at P)) = Done (hdr_at P)) \<and>
    (\<forall>P\<in>set (subtrees W). P = W \<or>
       (\<exists>bs. payload st (hdr_at P) = Some bs \<and> tal_bytelen (from_tal_hdr (hdr_at P)) st = Done (word_of_nat (length bs)))) \<and>
    (\<forall>call W'. may_call st W call W' \<longrightarrow> (\<exists>st'. run_call cb env call st = ret st' \<and> rep st' W'))"
proof -
  have "in_order st W" by (rule reachable_in_order [OF assms])
  then show ?thesis using live_context live_bytes call_in_order [OF assms(1)] in_orderD(1,2) by blast
qed

section \<open>Witness\<close>

lemma tal_history_witness:
  "\<exists>st'. run_call example_callback example_env (Call_alloc 0 2 True 0) (tal_start 1000 Map.empty [3000] []) = ret st' \<and> rep st' (Alloc 1000 [1040] 1040 [Alloc 3000 [] 0 []])"
proof -
  let ?st = "tal_start 1000 Map.empty [3000] [] :: (addr \<times> notice) list tal_state" and ?W = "Alloc 1000 [1000 + hdr_size] (1000 + hdr_size) []"
  have start: "reachable example_callback example_env ?st ?W" by (rule reach_start) simp_all
  have "may_call ?st ?W (Call_alloc (from_tal_hdr_or_null ?st 1000) 2 True 0)
      (replace_in (Alloc 1000 [1000 + hdr_size] (1000 + hdr_size) (Alloc 3000 [] 0 [] # [])) ?W)"
    by (rule may_alloc [where ms = "[]" and c = "1000 + hdr_size"])
      (simp_all add: tal_start_def Let_def hdr_size_def head_off_def children_answer_def)
  moreover have "from_tal_hdr_or_null ?st 1000 = 0" by (simp add: from_tal_hdr_or_null_def tal_start_def Let_def)
  ultimately show ?thesis using tal_history [OF example_outside start] by (auto simp: hdr_size_def simp del: rep.simps run_call.simps)
qed

end
