(* ===== verification/Tal_Check.thy ===== *)
theory Tal_Check
  imports Tal_History
begin

text \<open>
  What \<open>tal_check\<close> answers on memory that is in order: it walks the whole tree below the context, and
  finds a fault only in a context with more than one name.
\<close>

section \<open>Names\<close>

text \<open>The names in a list of properties: those of the type \<open>NAME\<close>, and the literal it may end in.\<close>

fun name_count :: "(addr \<rightharpoonup> property) \<Rightarrow> addr \<Rightarrow> addr list \<Rightarrow> nat" where
  "name_count P p [] = (if p = 0 then 0 else 1)"
| "name_count P p (q # qs) = (case P q of None \<Rightarrow> 0 | Some x \<Rightarrow> (if type_of x = Some NAME then 1 else 0) + name_count P (next_of x) qs)"

fun names_of :: "'w tal_state \<Rightarrow> alloc \<Rightarrow> nat" where
  "names_of st (Alloc t ps c ts) = (case hdrs st t of None \<Rightarrow> 0 | Some h \<Rightarrow> name_count (props st) (hdr_prop h) ps)"

definition verdict :: "cstr option \<Rightarrow> bool \<Rightarrow> bool outcome option" where
  "verdict errorstr ok = (if ok then ret True else if errorstr = None then ret False else Some Abort)"

lemma verdict_simps [simp]: "verdict e True = ret True" "run_of (check_err e) = verdict e False"
  by (simp_all add: verdict_def check_err_def)

lemma verdict_and: "bind_run (verdict e a) (\<lambda>ok. if \<not> ok then ret False else verdict e b) = verdict e (a \<and> b)"
  by (simp add: verdict_def)

section \<open>The loop over the properties\<close>

lemma check_props_loop_chain:
  assumes "prop_chain (props st) p ps" and "distinct ps" and "\<forall>q\<in>set ps. in_bounds st q"
    and "only_children (props st) ps (if children = 0 then c else 0)" and "children \<noteq> 0 \<Longrightarrow> children = c"
  shows "check_props_loop st e p name children =
    (if (if name then 1 else 0) + name_count (props st) p ps \<le> 1 then ret (Some c)
     else bind_run (verdict e False) (\<lambda>_. ret None))"
  using assms
proof (induction ps arbitrary: p name children)
  case Nil
  then have "children = c" by (auto simp: only_children_def split: if_splits)
  then show ?case using Nil by (subst check_props_loop.simps) (auto simp: get_prop_def)
next
  case (Cons q qs)
  obtain x where x: "p = q" "q \<noteq> 0" "props st q = Some x" "type_of x \<noteq> None" "prop_chain (props st) (next_of x) qs" using Cons.prems(1) by auto
  have qs: "distinct qs" "q \<notin> set qs" "\<forall>q\<in>set qs. in_bounds st q" "in_bounds st q" using Cons.prems(2,3) by simp_all
  obtain type where type: "type_of x = Some type" using x(4) by blast
  have loop: "check_props_loop st e p name children =
      (case type of
         CHILDREN \<Rightarrow> if children \<noteq> 0 then bind_run (verdict e False) (\<lambda>_. ret None) else check_props_loop st e (next_of x) name q
       | NOTIFIER \<Rightarrow> check_props_loop st e (next_of x) name children
       | NAME \<Rightarrow> if name then bind_run (verdict e False) (\<lambda>_. ret None) else check_props_loop st e (next_of x) True children)"
    by (subst check_props_loop.simps) (use x(1-3) type qs(4) in \<open>simp add: get_prop_def Let_def split: prop_type.split\<close>)
  have child: "is_children (props st) q \<longleftrightarrow> type = CHILDREN" using x(3) type by (simp add: is_children_iff)
  show ?case
  proof (cases type)
    case CHILDREN
    then have "q \<in> set (q # qs) \<inter> Collect (is_children (props st))" using child by simp
    then have "children = 0" "q = c" using Cons.prems(4) unfolding only_children_def by (auto split: if_splits)
    moreover have "only_children (props st) qs 0" using Cons.prems(4) calculation x(2) qs(2) unfolding only_children_def by auto
    ultimately have "check_props_loop st e (next_of x) name q =
        (if (if name then 1 else 0) + name_count (props st) (next_of x) qs \<le> 1 then ret (Some c) else bind_run (verdict e False) (\<lambda>_. ret None))"
      using x(2) by (intro Cons.IH [OF x(5) qs(1,3)]) simp_all
    then show ?thesis unfolding loop using \<open>children = 0\<close> CHILDREN x(3) type by simp
  next
    case NOTIFIER
    then have "only_children (props st) qs (if children = 0 then c else 0)" using Cons.prems(4) child unfolding only_children_def by simp
    then have "check_props_loop st e (next_of x) name children =
        (if (if name then 1 else 0) + name_count (props st) (next_of x) qs \<le> 1 then ret (Some c) else bind_run (verdict e False) (\<lambda>_. ret None))"
      using Cons.prems(5) by (intro Cons.IH [OF x(5) qs(1,3)]) simp_all
    then show ?thesis unfolding loop using NOTIFIER x(3) type by simp
  next
    case NAME
    then have "only_children (props st) qs (if children = 0 then c else 0)" using Cons.prems(4) child unfolding only_children_def by simp
    then have "check_props_loop st e (next_of x) True children =
        (if (if True then 1 else 0) + name_count (props st) (next_of x) qs \<le> 1 then ret (Some c) else bind_run (verdict e False) (\<lambda>_. ret None))"
      using Cons.prems(5) by (intro Cons.IH [OF x(5) qs(1,3)]) simp_all
    then show ?thesis unfolding loop using NAME x(3) type by simp
  qed
qed

section \<open>The walk\<close>

definition well_named :: "'w tal_state \<Rightarrow> alloc \<Rightarrow> bool" where
  "well_named st T \<longleftrightarrow> (\<forall>Q\<in>set (subtrees T). names_of st Q \<le> 1)"

lemma list_check_list:
  assumes "card (dom h) < 2 ^ 31" and "is_list h lh xs"
  shows "list_check h lh s = ret lh"
proof -
  obtain r where "list_check_node h lh s = Some r" "r = Done lh" using list_check_node_result [OF assms(1), of lh s] assms(2) by blast
  then show ?thesis by (auto simp: list_check_def)
qed

lemma check_children_list:
  assumes "is_list (nodes st) (c + head_off) (map hdr_at (us @ vs))"
    and "\<And>x. x \<in> set vs \<Longrightarrow> check_work st e (Check_node c (hdr_at x)) = verdict e (ok x)"
  shows "check_work st e (Check_children c (hd (map hdr_at vs @ [c + head_off]))) = verdict e (\<forall>x\<in>set vs. ok x)"
  using assms
proof (induction vs arbitrary: us)
  case Nil
  then show ?case by (subst check_work.simps) simp
next
  case (Cons x vs)
  have ne: "hdr_at x \<noteq> c + head_off" using is_list_nodes [OF Cons.prems(1)] by auto
  have "get_next (nodes st) (hdr_at x) = Done (hd (map hdr_at vs @ [c + head_off]))"
    using list_step_list(1) [of "nodes st" "c + head_off" "map hdr_at us" "hdr_at x" "map hdr_at vs"] Cons.prems(1) by simp
  moreover have "check_work st e (Check_children c (hd (map hdr_at vs @ [c + head_off]))) = verdict e (\<forall>x\<in>set vs. ok x)"
    by (rule Cons.IH [of "us @ [x]"]) (use Cons.prems in simp_all)
  ultimately have "check_work st e (Check_children c (hdr_at x)) =
      bind_run (verdict e (ok x)) (\<lambda>b. if \<not> b then ret False else verdict e (\<forall>x\<in>set vs. ok x))"
    by (subst check_work.simps) (use ne Cons.prems(2) [of x] in \<open>simp cong: if_cong\<close>)
  then show ?case by (simp add: verdict_and)
qed

lemma check_node_tree:
  assumes "rep st T" and "separated T" and "\<forall>P\<in>set (subtrees T). even (children_at P)"
    and "\<forall>a\<in>set (prop_addrs T) \<union> set (node_addrs T). in_bounds st a" and "card (dom (nodes st)) < 2 ^ 31"
    and "hdrs st (hdr_at T) = Some h" and "ignore_destroying_bit (parent_child h) = pc" and "0 \<notin> set (node_addrs T)"
  shows "check_work st e (Check_node pc (hdr_at T)) = verdict e (well_named st T)"
  using assms(1-4,6-8)
proof (induction T arbitrary: pc h)
  case (Alloc t ps c ts)
  let ?T = "Alloc t ps c ts"
  have h: "hdrs st t = Some h" "prop_chain (props st) (hdr_prop h) ps" "props_ok (props st) t ps c" using Alloc.prems(1,5) by auto
  have bnd: "in_bounds st t" "\<forall>q\<in>set ps. in_bounds st q" using Alloc.prems(4) by auto
  have c: "c \<noteq> 0 \<Longrightarrow> is_list (nodes st) (c + head_off) (map hdr_at ts)" "c \<noteq> 0 \<Longrightarrow> c + head_off \<noteq> 0" "c = 0 \<Longrightarrow> ts = []"
    using Alloc.prems(1,7) by (auto simp: proper_list_def split: if_splits)
  have "even c" using Alloc.prems(3) by simp
  have kid: "check_work st e (Check_node c (hdr_at x)) = verdict e (well_named st x)" if x: "x \<in> set ts" for x
  proof -
    obtain g where g: "hdrs st (hdr_at x) = Some g" "parent_child g = c XOR TAL_PTR_OBFUSTICATOR" using Alloc.prems(1) x by auto
    have x_in: "x \<in> set (subtrees ?T)" using x by (auto intro!: bexI [of _ x])
    show ?thesis
    proof (rule Alloc.IH [OF x _ _ _ _ g(1)])
      show "rep st x" using Alloc.prems(1) x by (auto simp: list_all_iff)
      show "separated x" by (rule separated_subtree [OF Alloc.prems(2) x_in])
      show "\<forall>P\<in>set (subtrees x). even (children_at P)" using Alloc.prems(3) subtrees_trans [OF _ x_in] by blast
      show "\<forall>a\<in>set (prop_addrs x) \<union> set (node_addrs x). in_bounds st a" using Alloc.prems(4) subtrees_addrs [OF x_in] by blast
      show "0 \<notin> set (node_addrs x)" using Alloc.prems(7) x by auto
      show "ignore_destroying_bit (parent_child g) = c" using g(2) \<open>even c\<close> by (simp add: ignore_destroying_bit_xor)
    qed
  qed
  have "distinct ps" using Alloc.prems(2) by (simp add: separated_def)
  moreover have "only_children (props st) ps c" using h(3) by (simp add: props_ok_def)
  ultimately have "check_props_loop st e (hdr_prop h) False 0 =
      (if names_of st ?T \<le> 1 then ret (Some c) else bind_run (verdict e False) (\<lambda>_. ret None))"
    using check_props_loop_chain [of st "hdr_prop h" ps 0 c e False] h(1,2) bnd(2) by simp
  moreover have "well_named st ?T \<longleftrightarrow> names_of st ?T \<le> 1 \<and> (\<forall>x\<in>set ts. well_named st x)" by (auto simp: well_named_def simp del: names_of.simps)
  moreover have "check_work st e (Check_children c (hd (map hdr_at ts @ [c + head_off]))) = verdict e (\<forall>x\<in>set ts. well_named st x)" if "c \<noteq> 0"
    by (rule check_children_list [of st c "[]"]) (use c(1) [OF that] kid in simp_all)
  moreover have "get_next (nodes st) (c + head_off) = Done (hd (map hdr_at ts @ [c + head_off]))" if "c \<noteq> 0"
    by (rule is_list_ends(1) [OF c(1) [OF that]])
  ultimately show ?case
    by (subst check_work.simps) (use bnd(1) h(1) Alloc.prems(6) c list_check_list [OF assms(5) c(1)] in
      \<open>auto simp: get_hdr_def verdict_def simp del: names_of.simps\<close>)
qed

text \<open>C17. On memory that is in order, \<open>tal_check\<close> returns, for every context of the tree, and finds a fault
  exactly if one at or below it has more than one name; it then fails, or stops the process if it
  was given a string for the message.  The bound keeps the counter of \<open>list_check\<close> from overflowing.\<close>

theorem tal_check_verdict:
  assumes "in_order st W" and "P \<in> set (subtrees W)" and "card (dom (nodes st)) < 2 ^ 31"
  shows "tal_check (from_tal_hdr_or_null st (hdr_at P)) errorstr st =
    (if \<forall>Q\<in>set (subtrees P). names_of st Q \<le> 1 then ret True else if errorstr = None then ret False else Some Abort)"
proof -
  note W = in_orderD [OF assms(1)]
  note addrs = subtrees_addrs [OF assms(2)]
  have P: "rep st P" "separated P" using subtrees_rep [OF W(1) assms(2)] separated_subtree [OF W(2) assms(2)] .
  then obtain h where h: "hdrs st (hdr_at P) = Some h" by (cases P) auto
  have "check_work st errorstr (Check_node (ignore_destroying_bit (parent_child h)) (hdr_at P)) = verdict errorstr (well_named st P)"
  proof (rule check_node_tree [OF P _ _ assms(3) h refl])
    show "\<forall>Q\<in>set (subtrees P). even (children_at Q)" using W(4) subtrees_trans [OF _ assms(2)] by blast
    show "\<forall>a\<in>set (prop_addrs P) \<union> set (node_addrs P). in_bounds st a" using W(6,7) addrs by blast
    show "0 \<notin> set (node_addrs P)" using W(12) addrs by blast
  qed
  then show ?thesis using live_context [OF assms(1,2)] h by (simp add: tal_check_def get_hdr_def verdict_def well_named_def)
qed

section \<open>Witness\<close>

text \<open>The child has a name and a literal.\<close>

definition example_names :: "(addr \<times> notice) list tal_state" where
  "example_names = example_tree\<lparr>props := [1040 \<mapsto> Children 0 1000, 4000 \<mapsto> Name 4100 [104], 4100 \<mapsto> Literal [105]]\<rparr>"

lemma example_names_in_order: "in_order example_names example_alloc"
proof -
  have "rep example_names example_alloc"
    by (simp add: example_names_def example_tree_def example_bits props_ok_def only_children_def is_children_def proper_list_def is_list_def
      ring_def nexts_def prevs_def head_off_def)
  moreover have "\<forall>a\<in>set (prop_addrs example_alloc) \<union> set (node_addrs example_alloc). in_bounds example_names a"
    by (simp add: example_names_def example_tree_def in_bounds_def null_parent_size_def head_off_def)
  ultimately show ?thesis using example_separated
    by (simp add: in_order_def del: rep.simps)
      (simp add: example_names_def example_tree_def bounds_ok_def sized_def from_tal_hdr_def hdr_size_def start_state_def pending_def head_off_def)
qed

lemma tal_check_verdict_witness:
  "tal_check 0 None example_names = ret False \<and> tal_check 0 (Some [120]) example_names = Some Abort"
proof -
  have "card (dom (nodes example_names)) < 2 ^ 31" by (simp add: example_names_def example_tree_def card_insert_if)
  moreover have "from_tal_hdr_or_null example_names 1000 = 0" by (simp add: from_tal_hdr_or_null_def example_names_def example_tree_def)
  moreover have "names_of example_names example_child = 2" by (simp add: example_names_def example_tree_def)
  ultimately show ?thesis using tal_check_verdict [OF example_names_in_order subtrees_self] by (simp del: names_of.simps)
qed

end
