(* ===== verification/Spec2Isabelle.thy ===== *)
theory Spec2Isabelle
  imports Segwit Utf8 Hex Mem Bolt11 Damus Notes Linked_List Tal_Check
begin

text \<open>
  A verification of the C core of the gnostr app, the sources under
  \<open>src/xcode/gnostr-app/damus-c\<close>.  File names below are relative to this directory.

  \<^bold>\<open>The program.\<close>  The Swift side of the app hands the C code two kinds of input.
  \<open>damus_parse_content\<close> (\<open>damus.c\<close>) splits the content of a note into blocks of text, mentions, hashtags, links
  and invoices; for an invoice it calls \<open>bolt11_decode\<close> (\<open>bolt11.c\<close>), which reads the string with
  \<open>bech32.c\<close>, takes five-bit values apart with \<open>bech32_util.c\<close>, checks texts with \<open>utf8.c\<close>, computes
  amounts with \<open>amount.c\<close> and \<open>overflows.h\<close>, and hashes what the signature covers with \<open>hash_u5.c\<close>
  and \<open>sha256.c\<close>.  Swift also calls \<open>bech32.c\<close> directly.  The invoice lives in memory managed
  by \<open>tal.c\<close>, a tree of allocations on the lists of \<open>list.h\<close>, with the pointers given away in
  \<open>take.c\<close>.  \<open>mem.c\<close>, \<open>hex.c\<close>, \<open>node_id.c\<close> and \<open>endian.h\<close> are helpers of these.

  \<^bold>\<open>The theories.\<close>
  \<^item> \<open>Prelude\<close>: C integers, characters and strings, the outcomes of C code, and the facts on bits and
    lists that several components need.
  \<^item> \<open>Polymod\<close>: \<open>bech32_polymod_step\<close> and the checksum register.  The locale \<open>linear_code\<close> gives
    the superposition of registers, from which the detection of substitutions follows; the difference of the
    two constants is on a cycle of registers without a single symbol, so that no substitution turns one into the other.
  \<^item> \<open>Bech32\<close>, \<open>Segwit\<close>: \<open>bech32_encode\<close>, \<open>bech32_decode\<close> and their specification (a
    string is accepted exactly if it is a Bech32 or Bech32m string), \<open>convert_bits\<close> and the segwit addresses.
  \<^item> \<open>Bech32Util\<close>: \<open>bech32_util.c\<close>, the five-bit values and the strings without a checksum.
  \<^item> \<open>Utf8\<close>: the incremental decoder of \<open>utf8.c\<close> with its \<open>errno\<close>, the encoder, the check.
  \<^item> \<open>Endian\<close>, \<open>Mem\<close>, \<open>Hex\<close>: \<open>endian.h\<close>, \<open>mem.c\<close> and \<open>mem.h\<close>, \<open>hex.c\<close> and \<open>node_id.c\<close>.
  \<^item> \<open>Sha256\<close>, \<open>HashU5\<close>: the unrolled \<open>Transform\<close> against the compression function of FIPS 180-4,
    the streaming context against the hash of the concatenation (locale \<open>byte_sink\<close>), and the hash of five-bit values.
  \<^item> \<open>Amount\<close>: \<open>overflows.h\<close> and \<open>amount.c\<close>.  The locale \<open>checked_amount\<close> is the contract of
    checked arithmetic, interpreted for both units; both are instances of \<open>linorder\<close>.
  \<^item> \<open>Damus\<close>: \<open>damus.c\<close> on a cursor.  The locales \<open>cursor_parser\<close> and \<open>restoring_parser\<close>
    are the contracts of the parsers, each interpreted for them; the blocks of a content are specified without the array.
  \<^item> \<open>Bolt11\<close>: \<open>bolt11.c\<close>.  The locale \<open>field_decoder\<close> is what the loop relies on for every
    decoder of a tagged field.  \<open>Notes\<close> composes it with \<open>Damus\<close>.
  \<^item> \<open>Linked_List\<close>: \<open>list.h\<close> and \<open>list.c\<close> on an explicit heap of nodes, refining operations on
    lists of addresses (locale \<open>node_sequence\<close>, used by the loops that empty a list).
  \<^item> \<open>Take\<close>: \<open>take.c\<close>, whose arrays stand for a list of pending pointers.
  \<^item> \<open>Tal\<close>: the contexts of \<open>tal.c\<close> on four heaps, their operations step by step.  \<open>Tal_Rep\<close>
    says when these heaps hold a tree of contexts, and \<open>Tal_Tree\<close> what freeing and allocating do to
    it.  \<open>Tal_Resize\<close> models the rest of \<open>tal.c\<close>, and shows that a context that is resized keeps
    its tree.  \<open>Tal_Context\<close> takes trees apart, so that \<open>Tal_History\<close> can say what every sequence of calls
    on existing contexts keeps: its calls are a datatype, and \<open>reachable\<close> is an inductive predicate.  \<open>Tal_Check\<close>
    shows what \<open>tal_check\<close> answers on such memory.

  \<^bold>\<open>Conventions.\<close>  The code is that of a 64-bit little-endian machine with asserts enabled and a signed
  \<open>char\<close>; where it asks for the byte order the model has both.  A machine integer is a word of its width.
  Running code gives \<open>Done\<close>, \<open>Abort\<close> (a failed assert, a call of \<open>abort\<close>) or
  \<open>Undefined\<close> (a read or write outside an object, a shift by the width, a division by zero).
  A function that the code may call in such a way is modelled with that outcome, so that \<open>= Done\<close> in a theorem also
  says that it does not happen.  Loops that end on every input are recursive functions with a termination proof.
  Those that walk pointers may not end: they are partial functions with \<open>None\<close> for a run that does not end,
  and their theorems say that they return.  No fuel is used.  A C string is the list of its bytes, without the NUL.  Memory
  is a byte list for a single object, and a map from addresses where objects point at each other or a
  function writes to two of them (\<open>memswap\<close>).  The callbacks of \<open>tal.c\<close> are a parameter; the theorems on
  trees ask that they leave the memory of the trees alone (\<open>outside\<close>).

  \<^bold>\<open>Not modelled.\<close>
  \<^item> In \<open>tal.c\<close>: \<open>tal_set_backend\<close>, so the allocator is the one of the start and an error stops the
    process, and the dump that exists for debugging only and is not compiled.
  \<^item> \<open>talstr.c\<close> and \<open>talstr.h\<close> (strings in tal memory, regular expressions), \<open>str.h\<close> and \<open>str_debug.h\<close>.
  \<^item> In \<open>amount.c\<close>: \<open>amount_msat_scale\<close>, \<open>amount_sat_scale\<close> and \<open>amount_msat_ratio\<close>, which compute
    with \<open>double\<close>; the wire functions are commented out in the source.
  \<^item> Headers that only hold macros for the compiler: \<open>compiler.h\<close>, \<open>cppmagic.h\<close>, \<open>typesafe_cb.h\<close>,
    \<open>check_type.h\<close>, \<open>container_of.h\<close>, \<open>alignof.h\<close>, \<open>array_size.h\<close>,
    \<open>build_assert.h\<close>, \<open>likely.h\<close>, \<open>structeq.h\<close>, \<open>short_types.h\<close>.
  \<^item> Outside this directory: the bridges to \<open>exec\<close> in \<open>src/xcode/AppWithTool\<close>, which only call the
    system; \<open>async.h\<close> with its examples and the helpers of \<open>swift-cross-ui\<close>, copies of
    other projects; OpenSSL, libgit2 and the generated headers of Rust libraries.
\<close>

end
